(* ===== verification/Prelude.thy ===== *)
theory Prelude
  imports Main "HOL-Library.Multiset" "HOL-Library.Char_ord" "HOL-Library.List_Lexorder"
begin

text \<open>
  Shared vocabulary of the development.

  Rust's \<open>Result\<close> of code that cannot panic is a sum (\<open>Inl\<close> the error, \<open>Inr\<close> the value).
  Code that runs a callback of the host (an apply of the fields, an edge, a serializer) can
  also panic, and the program catches such panics with \<open>catch_unwind\<close>: it is a \<open>comp\<close>,
  whose third constructor carries the text of the panic. Strings are byte lists, so
  \<open>length\<close> counts bytes as Rust does and \<open>(\<le>)\<close> is Rust's bytewise order.
\<close>

named_theorems comp_simps \<open>unfolding of the error plumbing\<close>

section \<open>Results and computations that can panic\<close>

datatype ('a, 'e) comp = Ret 'a | Err 'e | Panic string

definition bind_comp :: "('a, 'e) comp \<Rightarrow> ('a \<Rightarrow> ('b, 'e) comp) \<Rightarrow> ('b, 'e) comp" where
  "bind_comp c k = (case c of Ret a \<Rightarrow> k a | Err e \<Rightarrow> Err e | Panic t \<Rightarrow> Panic t)"

definition map_err :: "('e \<Rightarrow> 'g) \<Rightarrow> ('a, 'e) comp \<Rightarrow> ('a, 'g) comp" where
  "map_err f c = (case c of Ret a \<Rightarrow> Ret a | Err e \<Rightarrow> Err (f e) | Panic t \<Rightarrow> Panic t)"

definition of_caught :: "string + 'a \<Rightarrow> ('a, 'e) comp" where
  "of_caught c = (case c of Inl t \<Rightarrow> Panic t | Inr a \<Rightarrow> Ret a)"

definition bind_sum :: "'e + 'a \<Rightarrow> ('a \<Rightarrow> 'e + 'b) \<Rightarrow> 'e + 'b" where
  "bind_sum c k = (case c of Inl e \<Rightarrow> Inl e | Inr a \<Rightarrow> k a)"

definition is_ok :: "'e + 'a \<Rightarrow> bool" where
  "is_ok r = (case r of Inl _ \<Rightarrow> False | Inr _ \<Rightarrow> True)"

definition map_inl :: "('e \<Rightarrow> 'g) \<Rightarrow> 'e + 'a \<Rightarrow> 'g + 'a" where
  "map_inl f r = (case r of Inl e \<Rightarrow> Inl (f e) | Inr a \<Rightarrow> Inr a)"

lemma bind_comp_simps [simp, comp_simps]:
  "bind_comp (Ret a) k = k a"
  "bind_comp (Err e) k = Err e"
  "bind_comp (Panic t) k = Panic t"
  by (simp_all add: bind_comp_def)

lemma map_err_simps [simp, comp_simps]:
  "map_err f (Ret a) = Ret a"
  "map_err f (Err e) = Err (f e)"
  "map_err f (Panic t) = Panic t"
  by (simp_all add: map_err_def)

lemma of_caught_simps [simp, comp_simps]:
  "of_caught (Inl t) = Panic t"
  "of_caught (Inr a) = Ret a"
  by (simp_all add: of_caught_def)

lemma bind_sum_simps [simp, comp_simps]:
  "bind_sum (Inl e) k = Inl e"
  "bind_sum (Inr a) k = k a"
  by (simp_all add: bind_sum_def)

lemma is_ok_simps [simp, comp_simps]: "is_ok (Inr a)" "\<not> is_ok (Inl e)"
  by (simp_all add: is_ok_def)

lemma map_inl_simps [simp, comp_simps]:
  "map_inl f (Inl e) = Inl (f e)"
  "map_inl f (Inr a) = Inr a"
  by (simp_all add: map_inl_def)

lemma bind_comp_Ret_iff: "bind_comp c k = Ret b \<longleftrightarrow> (\<exists>a. c = Ret a \<and> k a = Ret b)"
  by (cases c) simp_all

lemma bind_comp_Err_iff:
  "bind_comp c k = Err e \<longleftrightarrow> c = Err e \<or> (\<exists>a. c = Ret a \<and> k a = Err e)"
  by (cases c) auto

lemma bind_comp_Panic_iff:
  "bind_comp c k = Panic t \<longleftrightarrow> c = Panic t \<or> (\<exists>a. c = Ret a \<and> k a = Panic t)"
  by (cases c) auto

lemma map_err_Ret_iff [simp]: "map_err f c = Ret a \<longleftrightarrow> c = Ret a"
  by (cases c) simp_all

lemma map_err_Err_iff: "map_err f c = Err e \<longleftrightarrow> (\<exists>d. c = Err d \<and> e = f d)"
  by (cases c) auto

lemma map_err_Panic_iff [simp]: "map_err f c = Panic t \<longleftrightarrow> c = Panic t"
  by (cases c) simp_all

lemma bind_sum_Inr_iff: "bind_sum c k = Inr b \<longleftrightarrow> (\<exists>a. c = Inr a \<and> k a = Inr b)"
  by (cases c) simp_all

lemma bind_sum_Inl_iff:
  "bind_sum c k = Inl e \<longleftrightarrow> c = Inl e \<or> (\<exists>a. c = Inr a \<and> k a = Inl e)"
  by (cases c) auto

lemma map_inl_Inr_iff [simp]: "map_inl f r = Inr a \<longleftrightarrow> r = Inr a"
  by (cases r) simp_all

section \<open>Loops with an early return\<close>

text \<open>A \<open>for\<close> loop over a list whose body updates an accumulator or returns an error.\<close>

fun for_each :: "('s \<Rightarrow> 'a \<Rightarrow> 'e + 's) \<Rightarrow> 's \<Rightarrow> 'a list \<Rightarrow> 'e + 's" where
  "for_each step s [] = Inr s"
| "for_each step s (x # xs) = (case step s x of Inl e \<Rightarrow> Inl e | Inr s' \<Rightarrow> for_each step s' xs)"

text \<open>The loop of every uniqueness check: a body that refuses a bad element or a key seen before.\<close>

lemma for_each_uniq:
  assumes "\<And>seen x seen'. step seen x = Inr seen' \<longleftrightarrow>
    ok x \<and> key x \<notin> seen \<and> seen' = insert (key x) seen"
  shows "for_each step seen xs = Inr seen' \<longleftrightarrow>
    list_all ok xs \<and> distinct (map key xs) \<and> set (map key xs) \<inter> seen = {} \<and>
    seen' = seen \<union> set (map key xs)"
proof (induction xs arbitrary: seen)
  case Nil
  then show ?case by auto
next
  case (Cons x xs)
  have "for_each step seen (x # xs) = Inr seen' \<longleftrightarrow>
      (\<exists>s. step seen x = Inr s \<and> for_each step s xs = Inr seen')"
    by (auto split: sum.splits)
  also have "\<dots> \<longleftrightarrow> ok x \<and> key x \<notin> seen \<and> for_each step (insert (key x) seen) xs = Inr seen'"
    using assms by auto
  finally show ?case using Cons.IH by auto
qed

lemma for_each_append:
  "for_each step s (xs @ ys) =
    (case for_each step s xs of Inl e \<Rightarrow> Inl e | Inr s' \<Rightarrow> for_each step s' ys)"
  by (induction xs arbitrary: s) (auto split: sum.splits)

section \<open>Decimal numbers\<close>

definition usize_max :: nat where
  "usize_max = 2 ^ 64 - 1"

text \<open>\<open>saturating_add\<close> and \<open>saturating_mul\<close> on \<open>usize\<close> cut their result off at the maximum.\<close>

definition usize_sat :: "nat \<Rightarrow> nat" where
  "usize_sat n = min usize_max n"

lemma usize_sat_code [code]:
  "usize_sat n = (if int n \<le> 18446744073709551615 then n else nat 18446744073709551615)"
  by (auto simp: usize_sat_def usize_max_def)

definition digit :: "nat \<Rightarrow> char" where
  "digit n = char_of (48 + n)"

fun show_nat :: "nat \<Rightarrow> string" where
  "show_nat n = (if n < 10 then [digit n] else show_nat (n div 10) @ [digit (n mod 10)])"

declare show_nat.simps [simp del]

lemma show_nat_nonempty [simp]: "show_nat n \<noteq> []"
  by (subst show_nat.simps) simp

definition quoted :: "string \<Rightarrow> string" where
  "quoted s = CHR 0x22 # s @ [CHR 0x22]"

section \<open>Sorted lists and association lists\<close>

lemma sort_key_id: "sorted (map f xs) \<Longrightarrow> sort_key f xs = xs"
  by (induction xs) (auto intro: insort_is_Cons)

lemma distinct_map_sort_key [simp]: "distinct (map f (sort_key g xs)) \<longleftrightarrow> distinct (map f xs)"
  by (metis mset_map mset_sort mset_eq_imp_distinct_iff)

lemma sort_key_Nil_iff [simp]: "sort_key f xs = [] \<longleftrightarrow> xs = []"
  by (metis length_0_conv length_sort)

lemma map_of_distinct_iff:
  "distinct (map fst xs) \<Longrightarrow> map_of xs k = Some v \<longleftrightarrow> (k, v) \<in> set xs"
  by simp

text \<open>\<open>position\<close>: the first index whose element satisfies a predicate.\<close>

fun position_of :: "('a \<Rightarrow> bool) \<Rightarrow> 'a list \<Rightarrow> nat option" where
  "position_of p [] = None"
| "position_of p (x # xs) = (if p x then Some 0 else map_option Suc (position_of p xs))"

lemma position_of_None_iff: "position_of p xs = None \<longleftrightarrow> list_all (\<lambda>x. \<not> p x) xs"
  by (induction xs) auto

lemma position_of_SomeD: "position_of p xs = Some i \<Longrightarrow> i < length xs \<and> p (xs ! i)"
  by (induction xs arbitrary: i) (auto split: if_splits)

lemma find_SomeD: "find p xs = Some x \<Longrightarrow> x \<in> set xs \<and> p x"
  by (auto simp: find_Some_iff)

lemma in_set_map_filter: "x \<in> set (List.map_filter f xs) \<longleftrightarrow> (\<exists>y \<in> set xs. f y = Some x)"
  by (induction xs) (auto simp: List.map_filter_simps split: option.splits)

text \<open>A map collected from a list of pairs: a later pair replaces an earlier one.\<close>

definition collect_map :: "('k \<times> 'v) list \<Rightarrow> 'k \<Rightarrow> 'v option" where
  "collect_map kvs = map_of (rev kvs)"

lemma collect_map_eq_map_of:
  assumes "distinct (map fst kvs)"
  shows "collect_map kvs = map_of kvs"
proof (rule ext)
  fix k
  have d: "distinct (map fst (rev kvs))" using assms by (simp add: rev_map [symmetric])
  show "collect_map kvs k = map_of kvs k"
  proof (cases "map_of kvs k")
    case None
    then have "map_of (rev kvs) k = None" by (simp add: map_of_eq_None_iff)
    with None show ?thesis by (simp add: collect_map_def)
  next
    case (Some v)
    then have "(k, v) \<in> set (rev kvs)" by (simp add: map_of_SomeD)
    with d Some show ?thesis unfolding collect_map_def by (simp only: map_of_is_SomeI)
  qed
qed

lemma dom_collect_map: "dom (collect_map kvs) = fst ` set kvs"
  by (simp add: collect_map_def dom_map_of_conv_image_fst)

end
