(* ===== verification/Targets.thy ===== *)
theory Targets
  imports Prelude
begin

text \<open>
  The names of \<open>br-graph-contract\<close>: \<open>target.rs\<close> (a target is a node or \<open>END\<close>),
  \<open>reason.rs\<close> and the name rules of \<open>graph/names.rs\<close>.
\<close>

section \<open>Reasons\<close>

datatype reason = Reason (as_str: string)

definition into_string :: "reason \<Rightarrow> string" where
  "into_string r = as_str r"

section \<open>Targets\<close>

datatype target = Node string | End

definition END_NAME :: string where
  "END_NAME = ''END''"

fun target_as_str :: "target \<Rightarrow> string" where
  "target_as_str (Node name) = name"
| "target_as_str End = END_NAME"

definition is_end :: "target \<Rightarrow> bool" where
  "is_end t = (case t of End \<Rightarrow> True | Node _ \<Rightarrow> False)"

definition target_from :: "string \<Rightarrow> target" where
  "target_from text = (if text = END_NAME then End else Node text)"

lemma is_end_simps [simp]: "is_end End" "\<not> is_end (Node n)"
  by (simp_all add: is_end_def)

lemma is_end_iff: "is_end t \<longleftrightarrow> t = End"
  by (cases t) simp_all

section \<open>Name rules\<close>

definition NODE_NAME_MAX :: nat where "NODE_NAME_MAX = 64"
definition NODE_KIND_MAX :: nat where "NODE_KIND_MAX = 32"
definition NODE_SUBKIND_MAX :: nat where "NODE_SUBKIND_MAX = 64"
definition EDGE_NAME_MAX :: nat where "EDGE_NAME_MAX = 64"
definition VERSION_MAX :: nat where "VERSION_MAX = 64"

definition byte_in :: "nat \<Rightarrow> nat \<Rightarrow> char \<Rightarrow> bool" where
  "byte_in lo hi c = (lo \<le> of_char c \<and> (of_char c :: nat) \<le> hi)"

definition is_ascii_lowercase :: "char \<Rightarrow> bool" where
  "is_ascii_lowercase c = byte_in 97 122 c"

definition is_ascii_digit :: "char \<Rightarrow> bool" where
  "is_ascii_digit c = byte_in 48 57 c"

definition is_ascii_alphanumeric :: "char \<Rightarrow> bool" where
  "is_ascii_alphanumeric c = (byte_in 65 90 c \<or> byte_in 97 122 c \<or> byte_in 48 57 c)"

definition is_identifier :: "string \<Rightarrow> nat \<Rightarrow> bool" where
  "is_identifier value max_len =
     (length value \<le> max_len
      \<and> (case value of [] \<Rightarrow> False | c # _ \<Rightarrow> is_ascii_lowercase c)
      \<and> list_all (\<lambda>c. is_ascii_lowercase c \<or> is_ascii_digit c \<or> c = CHR ''_'') value)"

definition is_node_name :: "string \<Rightarrow> bool" where
  "is_node_name value = is_identifier value NODE_NAME_MAX"

definition is_node_kind :: "string \<Rightarrow> bool" where
  "is_node_kind value = is_identifier value NODE_KIND_MAX"

definition is_node_subkind :: "string \<Rightarrow> bool" where
  "is_node_subkind value = is_identifier value NODE_SUBKIND_MAX"

definition is_edge_name :: "string \<Rightarrow> bool" where
  "is_edge_name value = is_identifier value EDGE_NAME_MAX"

definition is_version :: "string \<Rightarrow> bool" where
  "is_version value =
     (1 \<le> length value \<and> length value \<le> VERSION_MAX
      \<and> list_all (\<lambda>c. is_ascii_alphanumeric c \<or> c = CHR ''.'' \<or> c = CHR ''_'' \<or> c = CHR ''-'')
          value)"

lemmas name_rules = is_node_name_def is_node_kind_def is_node_subkind_def is_edge_name_def
  is_identifier_def NODE_NAME_MAX_def NODE_KIND_MAX_def NODE_SUBKIND_MAX_def EDGE_NAME_MAX_def

lemma identifier_not_END: "is_identifier n k \<Longrightarrow> n \<noteq> END_NAME"
  by (auto simp: is_identifier_def END_NAME_def is_ascii_lowercase_def byte_in_def)

lemma node_name_not_END: "is_node_name n \<Longrightarrow> n \<noteq> END_NAME"
  by (simp add: is_node_name_def identifier_not_END)

lemma target_from_node_name: "is_node_name n \<Longrightarrow> target_from n = Node n"
  by (simp add: target_from_def node_name_not_END)

text \<open>The text of a target read back: only \<open>Node ''END''\<close> does not survive.\<close>

lemma target_from_as_str: "target_from (target_as_str t) = (if t = Node END_NAME then End else t)"
  by (cases t) (simp_all add: target_from_def)

end
