(* ===== verification/Graph_Check.thy ===== *)
theory Graph_Check
  imports Targets
begin

text \<open>
  \<open>br-graph-contract/src/graph\<close>: the shape of a graph (\<open>shape.rs\<close>, the records of
  \<open>structure.rs\<close>), the build errors (\<open>error.rs\<close>) and the rules on nodes, entries and edges
  (\<open>check.rs\<close>). A \<open>HashSet\<close> is a HOL set, a \<open>for\<close> loop with early returns is \<open>for_each\<close>.
\<close>

section \<open>Data\<close>

record structure_node =
  node_name :: string
  node_kind :: string
  node_subkind :: string

record structure_edge =
  edge_name :: string
  edge_source :: string
  edge_targets :: "target list"

record shape =
  version :: string
  entries :: "string list"
  nodes :: "structure_node list"
  edges :: "structure_edge list"

datatype build_error =
  InvalidVersion string
| InvalidNodeName string
| InvalidNodeKind string string
| InvalidNodeSubkind string string
| InvalidEdgeName string
| DuplicateNodeName string
| DuplicateEdgeName string
| NoNodes
| NoEntry
| DuplicateEntry string
| EntryNotANode string
| EdgeSourceNotANode string string
| NodeWithoutEdge string
| NodeWithSeveralEdges string
| EmptyTargets string
| DuplicateTarget string target
| UnknownTarget string target
| UnreachableNode string
| EndUnreachable string

section \<open>The rules\<close>

definition check_node :: "string set \<Rightarrow> structure_node \<Rightarrow> build_error + string set" where
  "check_node seen n =
     (if \<not> is_node_name (node_name n) then Inl (InvalidNodeName (node_name n))
      else if \<not> is_node_kind (node_kind n) then Inl (InvalidNodeKind (node_name n) (node_kind n))
      else if \<not> is_node_subkind (node_subkind n)
        then Inl (InvalidNodeSubkind (node_name n) (node_subkind n))
      else if node_name n \<in> seen then Inl (DuplicateNodeName (node_name n))
      else Inr (insert (node_name n) seen))"

definition check_nodes :: "shape \<Rightarrow> build_error + string set" where
  "check_nodes sh = (if nodes sh = [] then Inl NoNodes else for_each check_node {} (nodes sh))"

definition check_entry ::
  "string set \<Rightarrow> string set \<Rightarrow> string \<Rightarrow> build_error + string set" where
  "check_entry node_names seen entry =
     (if entry \<in> seen then Inl (DuplicateEntry entry)
      else if entry \<notin> node_names then Inl (EntryNotANode entry)
      else Inr (insert entry seen))"

definition check_entries :: "shape \<Rightarrow> string set \<Rightarrow> build_error + unit" where
  "check_entries sh node_names =
     (if entries sh = [] then Inl NoEntry
      else bind_sum (for_each (check_entry node_names) {} (entries sh)) (\<lambda>_. Inr ()))"

definition check_target ::
  "string \<Rightarrow> string set \<Rightarrow> target set \<Rightarrow> target \<Rightarrow> build_error + target set" where
  "check_target edge node_names seen t =
     (if t \<in> seen then Inl (DuplicateTarget edge t)
      else if (case t of Node name \<Rightarrow> name \<notin> node_names | End \<Rightarrow> False)
        then Inl (UnknownTarget edge t)
      else Inr (insert t seen))"

definition check_targets :: "string \<Rightarrow> target list \<Rightarrow> string set \<Rightarrow> build_error + unit" where
  "check_targets edge targets node_names =
     (if targets = [] then Inl (EmptyTargets edge)
      else bind_sum (for_each (check_target edge node_names) {} targets) (\<lambda>_. Inr ()))"

definition check_edge ::
  "string set \<Rightarrow> string set \<times> string set \<Rightarrow> structure_edge \<Rightarrow>
     build_error + (string set \<times> string set)" where
  "check_edge node_names seen e =
     (if \<not> is_edge_name (edge_name e) then Inl (InvalidEdgeName (edge_name e))
      else if edge_name e \<in> fst seen then Inl (DuplicateEdgeName (edge_name e))
      else if edge_source e \<notin> node_names then Inl (EdgeSourceNotANode (edge_name e) (edge_source e))
      else if edge_source e \<in> snd seen then Inl (NodeWithSeveralEdges (edge_source e))
      else bind_sum (check_targets (edge_name e) (edge_targets e) node_names)
        (\<lambda>_. Inr (insert (edge_name e) (fst seen), insert (edge_source e) (snd seen))))"

definition check_edges :: "shape \<Rightarrow> string set \<Rightarrow> build_error + unit" where
  "check_edges sh node_names =
     bind_sum (for_each (check_edge node_names) ({}, {}) (edges sh)) (\<lambda>seen.
       case find (\<lambda>n. node_name n \<notin> snd seen) (nodes sh) of
         Some n \<Rightarrow> Inl (NodeWithoutEdge (node_name n))
       | None \<Rightarrow> Inr ())"

section \<open>What the rules mean\<close>

definition node_names :: "shape \<Rightarrow> string list" where
  "node_names sh = map node_name (nodes sh)"

definition valid_node :: "structure_node \<Rightarrow> bool" where
  "valid_node n \<longleftrightarrow>
     is_node_name (node_name n) \<and> is_node_kind (node_kind n) \<and> is_node_subkind (node_subkind n)"

definition target_known :: "string set \<Rightarrow> target \<Rightarrow> bool" where
  "target_known names t = (case t of Node name \<Rightarrow> name \<in> names | End \<Rightarrow> True)"

definition valid_edge :: "string set \<Rightarrow> structure_edge \<Rightarrow> bool" where
  "valid_edge names e \<longleftrightarrow> is_edge_name (edge_name e) \<and> edge_source e \<in> names
     \<and> edge_targets e \<noteq> [] \<and> distinct (edge_targets e) \<and> list_all (target_known names) (edge_targets e)"

text \<open>The build rules as one predicate, without the reachability rules.\<close>

definition well_formed :: "shape \<Rightarrow> bool" where
  "well_formed sh \<longleftrightarrow>
     nodes sh \<noteq> [] \<and> list_all valid_node (nodes sh) \<and> distinct (node_names sh)
     \<and> entries sh \<noteq> [] \<and> distinct (entries sh) \<and> set (entries sh) \<subseteq> set (node_names sh)
     \<and> list_all (valid_edge (set (node_names sh))) (edges sh)
     \<and> distinct (map edge_name (edges sh)) \<and> distinct (map edge_source (edges sh))
     \<and> set (map edge_source (edges sh)) = set (node_names sh)"

lemma check_node_Inr_iff:
  "check_node seen n = Inr seen' \<longleftrightarrow>
   valid_node n \<and> node_name n \<notin> seen \<and> seen' = insert (node_name n) seen"
  by (auto simp: check_node_def valid_node_def)

lemma check_nodes_Inr_iff:
  "check_nodes sh = Inr names \<longleftrightarrow>
   nodes sh \<noteq> [] \<and> list_all valid_node (nodes sh) \<and> distinct (node_names sh)
   \<and> names = set (node_names sh)"
  using for_each_uniq[of check_node valid_node node_name, OF check_node_Inr_iff, of "{}" "nodes sh"]
  by (auto simp: check_nodes_def node_names_def)

lemma check_entry_Inr_iff:
  "check_entry names seen e = Inr seen' \<longleftrightarrow> e \<in> names \<and> e \<notin> seen \<and> seen' = insert e seen"
  by (auto simp: check_entry_def)

lemma check_entries_Inr_iff:
  "check_entries sh names = Inr u \<longleftrightarrow>
   entries sh \<noteq> [] \<and> distinct (entries sh) \<and> set (entries sh) \<subseteq> names"
  using for_each_uniq[of "check_entry names" "\<lambda>e. e \<in> names" "\<lambda>e. e", OF check_entry_Inr_iff,
      of "{}" "entries sh"]
  by (auto simp: check_entries_def bind_sum_Inr_iff list_all_iff)

lemma check_target_Inr_iff:
  "check_target e names seen t = Inr seen' \<longleftrightarrow>
   target_known names t \<and> t \<notin> seen \<and> seen' = insert t seen"
  by (cases t) (auto simp: check_target_def target_known_def)

lemma check_targets_Inr_iff:
  "check_targets e ts names = Inr u \<longleftrightarrow> ts \<noteq> [] \<and> distinct ts \<and> list_all (target_known names) ts"
  using for_each_uniq[of "check_target e names" "target_known names" "\<lambda>t. t",
      OF check_target_Inr_iff, of "{}" ts]
  by (auto simp: check_targets_def bind_sum_Inr_iff)

lemma check_edge_Inr_iff:
  "check_edge names seen e = Inr seen' \<longleftrightarrow>
   valid_edge names e \<and> edge_name e \<notin> fst seen \<and> edge_source e \<notin> snd seen
   \<and> seen' = (insert (edge_name e) (fst seen), insert (edge_source e) (snd seen))"
  by (auto simp: check_edge_def valid_edge_def bind_sum_Inr_iff check_targets_Inr_iff)

lemma for_each_check_edge:
  "for_each (check_edge names) seen es = Inr seen' \<longleftrightarrow>
   list_all (valid_edge names) es \<and> distinct (map edge_name es) \<and> distinct (map edge_source es)
   \<and> set (map edge_name es) \<inter> fst seen = {} \<and> set (map edge_source es) \<inter> snd seen = {}
   \<and> seen' = (fst seen \<union> set (map edge_name es), snd seen \<union> set (map edge_source es))"
proof (induction es arbitrary: seen)
  case Nil
  then show ?case by auto
next
  case (Cons e es)
  have "for_each (check_edge names) seen (e # es) = Inr seen' \<longleftrightarrow>
      (\<exists>s. check_edge names seen e = Inr s \<and> for_each (check_edge names) s es = Inr seen')"
    by (auto split: sum.splits)
  then show ?case by (auto simp: check_edge_Inr_iff Cons.IH)
qed

lemma check_edges_Inr_iff:
  "check_edges sh names = Inr u \<longleftrightarrow>
   list_all (valid_edge names) (edges sh) \<and> distinct (map edge_name (edges sh))
   \<and> distinct (map edge_source (edges sh))
   \<and> set (node_names sh) \<subseteq> set (map edge_source (edges sh))"
proof -
  have "find (\<lambda>n. node_name n \<notin> sources) (nodes sh) = None \<longleftrightarrow> set (node_names sh) \<subseteq> sources" for sources
    by (auto simp: find_None_iff node_names_def)
  then show ?thesis
    by (cases u) (simp add: check_edges_def bind_sum_Inr_iff for_each_check_edge option.case_eq_if)
qed

lemma valid_edge_source: "valid_edge names e \<Longrightarrow> edge_source e \<in> names"
  by (simp add: valid_edge_def)

lemma checks_well_formed:
  "well_formed sh \<longleftrightarrow>
   (\<exists>names. check_nodes sh = Inr names \<and> check_entries sh names = Inr () \<and> check_edges sh names = Inr ())"
  by (auto simp: well_formed_def check_nodes_Inr_iff check_entries_Inr_iff check_edges_Inr_iff
      list_all_iff dest: valid_edge_source)

end
