(* ===== verification/Graph_Reach.thy ===== *)
theory Graph_Reach
  imports Graph_Check
begin

text \<open>
  \<open>br-graph-contract/src/graph/reach.rs\<close>: the two reachability rules, over positions in the
  list of nodes. The stack \<open>pending\<close> is kept with its top first (the code pops the end of a
  vector), which changes nothing else. The loop of \<open>flood\<close> is a total function: every step
  lowers the number of pending plus unseen positions.
\<close>

section \<open>The code\<close>

type_synonym adjacency = "nat list list"

definition index_of :: "shape \<Rightarrow> string \<Rightarrow> nat option" where
  "index_of sh = collect_map (zip (map node_name (nodes sh)) [0..<length (nodes sh)])"

definition add_target ::
  "(string \<Rightarrow> nat option) \<Rightarrow> nat \<Rightarrow> target \<Rightarrow> adjacency \<times> adjacency \<times> nat list \<Rightarrow>
     adjacency \<times> adjacency \<times> nat list" where
  "add_target index from t acc = (case acc of (forward, backward, exits) \<Rightarrow>
     (case t of
        End \<Rightarrow> (forward, backward, exits @ [from])
      | Node name \<Rightarrow> (case index name of
          Some to \<Rightarrow> (forward[from := forward ! from @ [to]], backward[to := backward ! to @ [from]], exits)
        | None \<Rightarrow> (forward, backward, exits))))"

definition add_edge ::
  "(string \<Rightarrow> nat option) \<Rightarrow> structure_edge \<Rightarrow> adjacency \<times> adjacency \<times> nat list \<Rightarrow>
     adjacency \<times> adjacency \<times> nat list" where
  "add_edge index e acc = (case index (edge_source e) of
     None \<Rightarrow> acc
   | Some from \<Rightarrow> fold (add_target index from) (edge_targets e) acc)"

definition mark :: "nat \<Rightarrow> bool list \<times> nat list \<Rightarrow> bool list \<times> nat list" where
  "mark next acc = (case acc of (seen, pending) \<Rightarrow>
     (if next < length seen \<and> \<not> seen ! next then (seen[next := True], next # pending)
      else (seen, pending)))"

lemma length_mark [simp]: "length (fst (mark x acc)) = length (fst acc)"
  by (auto simp: mark_def split: prod.splits)

lemma mark_seen:
  "i < length (fst acc) \<Longrightarrow> fst (mark x acc) ! i \<longleftrightarrow> fst acc ! i \<or> i = x"
  by (auto simp: mark_def nth_list_update split: prod.splits)

lemma mark_pending:
  "set (snd (mark x acc)) =
   set (snd acc) \<union> (if x < length (fst acc) \<and> \<not> fst acc ! x then {x} else {})"
  by (auto simp: mark_def split: prod.splits)

lemma length_fold_mark [simp]: "length (fst (fold mark xs acc)) = length (fst acc)"
  by (induction xs arbitrary: acc) simp_all

definition unseen :: "bool list \<Rightarrow> nat" where
  "unseen seen = length (filter Not seen)"

lemma unseen_update:
  "i < length seen \<Longrightarrow> \<not> seen ! i \<Longrightarrow> Suc (unseen (seen[i := True])) = unseen seen"
proof (induction seen arbitrary: i)
  case Nil
  then show ?case by simp
next
  case (Cons b seen)
  then show ?case by (cases i) (auto simp: unseen_def)
qed

lemma mark_measure:
  "length (snd (mark x acc)) + unseen (fst (mark x acc)) = length (snd acc) + unseen (fst acc)"
  using unseen_update[of x "fst acc"] by (auto simp: mark_def split: prod.splits)

lemma fold_mark_measure:
  "length (snd (fold mark xs acc)) + unseen (fst (fold mark xs acc))
   = length (snd acc) + unseen (fst acc)"
  by (induction xs arbitrary: acc) (simp_all add: mark_measure)

function flood_loop :: "adjacency \<Rightarrow> bool list \<Rightarrow> nat list \<Rightarrow> bool list" where
  "flood_loop adj seen [] = seen"
| "flood_loop adj seen (current # pending) =
     (case fold mark (adj ! current) (seen, pending) of
        (seen', pending') \<Rightarrow> flood_loop adj seen' pending')"
  by pat_completeness auto
termination
proof (relation "measure (\<lambda>(adj, seen, pending). length pending + unseen seen)", goal_cases)
  case 1
  then show ?case by simp
next
  case (2 adj seen current pending seen' pending')
  then have "fold mark (adj ! current) (seen, pending) = (seen', pending')" by simp
  then show ?case using fold_mark_measure[of "adj ! current" "(seen, pending)"] by simp
qed

definition flood :: "adjacency \<Rightarrow> nat list \<Rightarrow> bool list" where
  "flood adj seeds =
     (case fold mark seeds (replicate (length adj) False, []) of
        (seen, pending) \<Rightarrow> flood_loop adj seen pending)"

definition reach_graph :: "shape \<Rightarrow> adjacency \<times> adjacency \<times> nat list" where
  "reach_graph sh =
     (let n = length (nodes sh) in
      fold (add_edge (index_of sh)) (edges sh) (replicate n [], replicate n [], []))"

definition reach_check :: "shape \<Rightarrow> build_error + unit" where
  "reach_check sh = (case reach_graph sh of (forward, backward, exits) \<Rightarrow>
     (case position_of Not (flood forward (List.map_filter (index_of sh) (entries sh))) of
        Some p \<Rightarrow> Inl (UnreachableNode (node_name (nodes sh ! p)))
      | None \<Rightarrow> (case position_of Not (flood backward exits) of
          Some p \<Rightarrow> Inl (EndUnreachable (node_name (nodes sh ! p)))
        | None \<Rightarrow> Inr ())))"

section \<open>The flood is the reflexive-transitive closure\<close>

definition adj_rel :: "adjacency \<Rightarrow> (nat \<times> nat) set" where
  "adj_rel adj = {(a, b). a < length adj \<and> b \<in> set (adj ! a)}"

definition adj_ok :: "adjacency \<Rightarrow> bool" where
  "adj_ok adj \<longleftrightarrow> (\<forall>xs \<in> set adj. \<forall>x \<in> set xs. x < length adj)"

lemma fold_mark_seen:
  "i < length (fst acc) \<Longrightarrow> fst (fold mark xs acc) ! i \<longleftrightarrow> fst acc ! i \<or> i \<in> set xs"
  by (induction xs arbitrary: acc) (auto simp: mark_seen)

lemma fold_mark_pending:
  "y \<in> set (snd (fold mark xs acc)) \<longleftrightarrow>
   y \<in> set (snd acc) \<or> y \<in> set xs \<and> y < length (fst acc) \<and> \<not> fst acc ! y"
proof (induction xs arbitrary: acc)
  case Nil
  then show ?case by simp
next
  case (Cons x xs)
  have "y \<in> set (snd (fold mark (x # xs) acc)) \<longleftrightarrow> y \<in> set (snd (mark x acc)) \<or>
      y \<in> set xs \<and> y < length (fst acc) \<and> \<not> fst (mark x acc) ! y"
    using Cons.IH[of "mark x acc"] by simp
  then show ?case
    by (cases "y < length (fst acc)") (auto simp: mark_seen mark_pending)
qed

definition flood_inv :: "adjacency \<Rightarrow> nat set \<Rightarrow> bool list \<Rightarrow> nat list \<Rightarrow> bool" where
  "flood_inv adj S seen pending \<longleftrightarrow>
     length seen = length adj
     \<and> (\<forall>p \<in> set pending. p < length adj \<and> seen ! p)
     \<and> (\<forall>s \<in> S. s < length adj \<longrightarrow> seen ! s)
     \<and> (\<forall>i < length adj. seen ! i \<longrightarrow> i \<in> (adj_rel adj)\<^sup>* `` S)
     \<and> (\<forall>i < length adj. seen ! i \<longrightarrow> i \<notin> set pending \<longrightarrow> (\<forall>j \<in> set (adj ! i). seen ! j))"

lemma flood_inv_step:
  assumes ok: "adj_ok adj" and inv: "flood_inv adj S seen (current # pending)"
    and f: "fold mark (adj ! current) (seen, pending) = (seen', pending')"
  shows "flood_inv adj S seen' pending'"
proof -
  have cur: "current < length adj" "seen ! current" and len: "length seen = length adj"
    using inv by (auto simp: flood_inv_def)
  have lt: "x < length adj" if "x \<in> set (adj ! i)" "i < length adj" for x i
    using ok that by (auto simp: adj_ok_def)
  have len': "length seen' = length adj"
    using length_fold_mark[of "adj ! current" "(seen, pending)"] f len by simp
  have seen': "seen' ! i \<longleftrightarrow> seen ! i \<or> i \<in> set (adj ! current)" if "i < length adj" for i
    using fold_mark_seen[of i "(seen, pending)" "adj ! current"] f len that by simp
  have pend': "set pending' = set pending \<union> {x \<in> set (adj ! current). x < length adj \<and> \<not> seen ! x}"
    using fold_mark_pending[of _ "adj ! current" "(seen, pending)"] f len by auto
  have reach: "i \<in> (adj_rel adj)\<^sup>* `` S" if "i \<in> set (adj ! current)" for i
  proof -
    have "current \<in> (adj_rel adj)\<^sup>* `` S" using inv cur by (auto simp: flood_inv_def)
    moreover have "(current, i) \<in> adj_rel adj" using that cur by (simp add: adj_rel_def)
    ultimately show ?thesis by (auto intro: rtrancl_into_rtrancl)
  qed
  have closed: "seen' ! j" if "i < length adj" "seen' ! i" "i \<notin> set pending'" "j \<in> set (adj ! i)" for i j
  proof (cases "i = current")
    case True
    then show ?thesis using that seen'[of j] lt by blast
  next
    case False
    have j: "j < length adj" using lt that by blast
    have "seen ! i" using that seen'[of i] pend' by auto
    moreover have "i \<notin> set (current # pending)" using that(3) pend' False by auto
    ultimately have "seen ! j" using inv that(1,4) by (auto simp: flood_inv_def)
    then show ?thesis using seen'[OF j] by simp
  qed
  show ?thesis
    unfolding flood_inv_def
  proof (intro conjI)
    show "\<forall>p \<in> set pending'. p < length adj \<and> seen' ! p"
      using pend' seen' inv by (auto simp: flood_inv_def)
    show "\<forall>s \<in> S. s < length adj \<longrightarrow> seen' ! s"
      using seen' inv by (auto simp: flood_inv_def)
    show "\<forall>i < length adj. seen' ! i \<longrightarrow> i \<in> (adj_rel adj)\<^sup>* `` S"
      using seen' inv reach by (auto simp: flood_inv_def)
  qed (use len' closed in auto)
qed

lemma flood_loop_inv:
  "adj_ok adj \<Longrightarrow> flood_inv adj S seen pending \<Longrightarrow> flood_inv adj S (flood_loop adj seen pending) []"
proof (induction adj seen pending rule: flood_loop.induct)
  case (1 adj seen)
  then show ?case by simp
next
  case (2 adj seen current pending)
  show ?case
  proof (cases "fold mark (adj ! current) (seen, pending)")
    case (Pair seen' pending')
    with 2 show ?thesis using flood_inv_step[OF 2(2,3) Pair] by simp
  qed
qed

lemma flood_start_inv:
  assumes "\<forall>s \<in> set seeds. s < length adj"
    and "fold mark seeds (replicate (length adj) False, []) = (seen, pending)"
  shows "flood_inv adj (set seeds) seen pending"
proof -
  let ?acc = "(replicate (length adj) False, [] :: nat list)"
  have s: "seen ! i \<longleftrightarrow> i \<in> set seeds" if "i < length adj" for i
    using fold_mark_seen[of i ?acc seeds] assms(2) that by simp
  have p: "set pending = set seeds"
    using fold_mark_pending[of _ seeds ?acc] assms by auto
  have "length seen = length adj" using length_fold_mark[of seeds ?acc] assms(2) by simp
  then show ?thesis using s p assms(1) by (auto simp: flood_inv_def)
qed

lemma closed_rtrancl:
  assumes "(s, i) \<in> (adj_rel adj)\<^sup>*" "flood_inv adj S seen []" "s \<in> S" "s < length adj" "adj_ok adj"
  shows "i < length adj \<and> seen ! i"
  using assms(1)
proof (induction rule: rtrancl_induct)
  case base
  then show ?case using assms by (auto simp: flood_inv_def)
next
  case (step y z)
  then have "z \<in> set (adj ! y)" by (simp add: adj_rel_def)
  then show ?case using step.IH assms(2,5) by (auto simp: flood_inv_def adj_ok_def)
qed

theorem flood_reaches:
  assumes "adj_ok adj" "\<forall>s \<in> set seeds. s < length adj"
  shows "length (flood adj seeds) = length adj"
    and "i < length adj \<Longrightarrow> flood adj seeds ! i \<longleftrightarrow> i \<in> (adj_rel adj)\<^sup>* `` set seeds"
proof -
  obtain seen pending where start: "fold mark seeds (replicate (length adj) False, []) = (seen, pending)"
    by fastforce
  have inv: "flood_inv adj (set seeds) (flood adj seeds) []"
    using flood_loop_inv[OF assms(1) flood_start_inv[OF assms(2) start]] by (simp add: flood_def start)
  then show "length (flood adj seeds) = length adj" by (simp add: flood_inv_def)
  show "flood adj seeds ! i \<longleftrightarrow> i \<in> (adj_rel adj)\<^sup>* `` set seeds" if "i < length adj"
  proof
    assume "flood adj seeds ! i"
    with inv that show "i \<in> (adj_rel adj)\<^sup>* `` set seeds" by (simp add: flood_inv_def)
  next
    assume "i \<in> (adj_rel adj)\<^sup>* `` set seeds"
    then obtain s where s: "s \<in> set seeds" "(s, i) \<in> (adj_rel adj)\<^sup>*" by blast
    with assms(2) closed_rtrancl[OF s(2) inv s(1) _ assms(1)] show "flood adj seeds ! i" by blast
  qed
qed

section \<open>The graph of positions is the graph of the edges\<close>

definition fwd :: "adjacency \<times> adjacency \<times> nat list \<Rightarrow> adjacency" where "fwd acc = fst acc"
definition bwd :: "adjacency \<times> adjacency \<times> nat list \<Rightarrow> adjacency" where "bwd acc = fst (snd acc)"
definition outs :: "adjacency \<times> adjacency \<times> nat list \<Rightarrow> nat list" where "outs acc = snd (snd acc)"

lemmas acc_defs = fwd_def bwd_def outs_def

text \<open>\<open>acc_holds\<close>: the accumulator of \<open>n\<close> nodes holds the links \<open>P\<close> and the exits \<open>Q\<close>.\<close>

definition acc_holds ::
  "nat \<Rightarrow> (nat \<Rightarrow> nat \<Rightarrow> bool) \<Rightarrow> (nat \<Rightarrow> bool) \<Rightarrow> adjacency \<times> adjacency \<times> nat list \<Rightarrow> bool" where
  "acc_holds n P Q acc \<longleftrightarrow> length (fwd acc) = n \<and> length (bwd acc) = n
     \<and> (\<forall>i < n. \<forall>j. j \<in> set (fwd acc ! i) \<longleftrightarrow> P i j)
     \<and> (\<forall>j < n. \<forall>i. i \<in> set (bwd acc ! j) \<longleftrightarrow> P i j)
     \<and> (\<forall>i. i \<in> set (outs acc) \<longleftrightarrow> Q i)"

definition links :: "(string \<Rightarrow> nat option) \<Rightarrow> nat \<Rightarrow> target list \<Rightarrow> nat \<Rightarrow> nat \<Rightarrow> bool" where
  "links index from ts i j \<longleftrightarrow> i = from \<and> (\<exists>name. Node name \<in> set ts \<and> index name = Some j)"

lemma add_target_holds:
  assumes "acc_holds n P Q acc" "from < n" "\<And>name j. index name = Some j \<Longrightarrow> j < n"
  shows "acc_holds n (\<lambda>i j. P i j \<or> links index from [t] i j) (\<lambda>i. Q i \<or> i = from \<and> t = End)
    (add_target index from t acc)"
proof (cases t)
  case End
  with assms show ?thesis
    by (auto simp: acc_holds_def add_target_def acc_defs links_def split: prod.splits)
next
  case (Node name)
  show ?thesis
  proof (cases "index name")
    case None
    with Node assms show ?thesis
      by (auto simp: acc_holds_def add_target_def acc_defs links_def split: prod.splits)
  next
    case (Some to)
    with assms(3) have "to < n" by blast
    with Node Some assms(1,2) show ?thesis
      by (auto simp: acc_holds_def add_target_def acc_defs links_def nth_list_update split: prod.splits if_splits)
  qed
qed

lemma acc_holds_cong:
  "acc_holds n P Q acc \<Longrightarrow> (\<And>i j. P i j = P' i j) \<Longrightarrow> (\<And>i. Q i = Q' i) \<Longrightarrow> acc_holds n P' Q' acc"
  by (simp add: acc_holds_def)

lemma fold_add_target_holds:
  assumes "acc_holds n P Q acc" "from < n" "\<And>name j. index name = Some j \<Longrightarrow> j < n"
  shows "acc_holds n (\<lambda>i j. P i j \<or> links index from ts i j) (\<lambda>i. Q i \<or> i = from \<and> End \<in> set ts)
    (fold (add_target index from) ts acc)"
  using assms(1)
proof (induction ts arbitrary: P Q acc)
  case Nil
  then show ?case by (auto simp: links_def elim: acc_holds_cong)
next
  case (Cons t ts)
  have "acc_holds n (\<lambda>i j. P i j \<or> links index from [t] i j) (\<lambda>i. Q i \<or> i = from \<and> t = End)
      (add_target index from t acc)"
    using Cons.prems assms(2,3) by (rule add_target_holds)
  from Cons.IH[OF this] show ?case by (auto simp: links_def elim!: acc_holds_cong)
qed

lemma fold_add_edge_holds:
  assumes "acc_holds n P Q acc" "\<And>name j. index name = Some j \<Longrightarrow> j < n"
  shows "acc_holds n
     (\<lambda>i j. P i j \<or> (\<exists>e \<in> set es. index (edge_source e) = Some i \<and> links index i (edge_targets e) i j))
     (\<lambda>i. Q i \<or> (\<exists>e \<in> set es. index (edge_source e) = Some i \<and> End \<in> set (edge_targets e)))
     (fold (add_edge index) es acc)"
  using assms(1)
proof (induction es arbitrary: P Q acc)
  case Nil
  then show ?case by simp
next
  case (Cons e es)
  show ?case
  proof (cases "index (edge_source e)")
    case None
    with Cons.IH[OF Cons.prems] show ?thesis by (auto simp: add_edge_def elim!: acc_holds_cong)
  next
    case (Some i)
    have "acc_holds n (\<lambda>k j. P k j \<or> links index i (edge_targets e) k j)
        (\<lambda>k. Q k \<or> k = i \<and> End \<in> set (edge_targets e)) (add_edge index e acc)"
      using fold_add_target_holds[OF Cons.prems assms(2)[OF Some] assms(2)] Some
      by (simp add: add_edge_def)
    from Cons.IH[OF this] show ?thesis
      using Some by (auto simp: links_def elim!: acc_holds_cong)
  qed
qed

definition step_rel :: "shape \<Rightarrow> (string \<times> string) set" where
  "step_rel sh = {(a, b). \<exists>e \<in> set (edges sh). edge_source e = a \<and> Node b \<in> set (edge_targets e)}"

definition exits_of :: "shape \<Rightarrow> string set" where
  "exits_of sh = {a. \<exists>e \<in> set (edges sh). edge_source e = a \<and> End \<in> set (edge_targets e)}"

lemma index_of_eq:
  assumes "distinct (node_names sh)"
  shows "index_of sh name = Some i \<longleftrightarrow> i < length (nodes sh) \<and> node_names sh ! i = name"
proof -
  have "map fst (zip (node_names sh) [0..<length (nodes sh)]) = node_names sh"
    by (simp add: node_names_def)
  with assms have d: "distinct (map fst (zip (node_names sh) [0..<length (nodes sh)]))" by simp
  have "index_of sh name = Some i \<longleftrightarrow> (name, i) \<in> set (zip (node_names sh) [0..<length (nodes sh)])"
    using map_of_distinct_iff[OF d] by (simp add: index_of_def collect_map_eq_map_of[OF d, unfolded node_names_def] node_names_def)
  also have "\<dots> \<longleftrightarrow> i < length (nodes sh) \<and> node_names sh ! i = name"
    by (auto simp: in_set_zip node_names_def)
  finally show ?thesis .
qed

lemma reach_graph_holds:
  assumes "distinct (node_names sh)"
  shows "acc_holds (length (nodes sh))
     (\<lambda>i j. i < length (nodes sh) \<and> j < length (nodes sh) \<and>
        (node_names sh ! i, node_names sh ! j) \<in> step_rel sh)
     (\<lambda>i. i < length (nodes sh) \<and> node_names sh ! i \<in> exits_of sh)
     (reach_graph sh)"
proof -
  let ?n = "length (nodes sh)"
  have lt: "j < ?n" if "index_of sh name = Some j" for name j
    using that index_of_eq[OF assms] by simp
  have start: "acc_holds ?n (\<lambda>_ _. False) (\<lambda>_. False) (replicate ?n [], replicate ?n [], [])"
    by (simp add: acc_holds_def acc_defs)
  from fold_add_edge_holds[OF start lt, where es = "edges sh"] show ?thesis
    unfolding reach_graph_def Let_def
    by (rule acc_holds_cong) (fastforce simp: index_of_eq[OF assms] links_def step_rel_def exits_of_def)+
qed

section \<open>The two reachability rules\<close>

lemma acc_holds_rel:
  assumes "acc_holds n P Q acc"
  shows "adj_rel (fwd acc) = {(i, j). i < n \<and> P i j}" "adj_rel (bwd acc) = {(j, i). j < n \<and> P i j}"
    "length (fwd acc) = n" "length (bwd acc) = n" "set (outs acc) = {i. Q i}"
  using assms by (auto simp: acc_holds_def adj_rel_def)

lemma acc_holds_ok:
  assumes "acc_holds n P Q acc" "\<And>i j. P i j \<Longrightarrow> i < n \<and> j < n"
  shows "adj_ok (fwd acc)" "adj_ok (bwd acc)"
proof -
  have len: "length (fwd acc) = n" "length (bwd acc) = n" using assms(1) by (simp_all add: acc_holds_def)
  have "\<forall>i < n. \<forall>j \<in> set (fwd acc ! i). j < n" using assms by (auto simp: acc_holds_def)
  then show "adj_ok (fwd acc)" unfolding adj_ok_def all_set_conv_all_nth[of "fwd acc"] len .
  have "\<forall>j < n. \<forall>i \<in> set (bwd acc ! j). i < n" using assms by (auto simp: acc_holds_def)
  then show "adj_ok (bwd acc)" unfolding adj_ok_def all_set_conv_all_nth[of "bwd acc"] len .
qed

lemma ex_position:
  assumes "\<forall>e \<in> A. \<exists>k < (n::nat). f k = e"
  shows "(\<exists>k < n. f k \<in> A \<and> Q (f k)) \<longleftrightarrow> (\<exists>e \<in> A. Q e)"
  using assms by fast

lemma nth_node_names: "i < length (nodes sh) \<Longrightarrow> node_names sh ! i = node_name (nodes sh ! i)"
  by (simp add: node_names_def)

text \<open>Paths between positions are paths between names.\<close>

lemma positions_rtrancl:
  assumes d: "distinct (node_names sh)" and R: "R \<subseteq> set (node_names sh) \<times> set (node_names sh)"
    and E: "\<And>i j. (i, j) \<in> E \<longleftrightarrow> i < length (nodes sh) \<and> j < length (nodes sh) \<and>
      (node_names sh ! i, node_names sh ! j) \<in> R"
    and ij: "i < length (nodes sh)" "j < length (nodes sh)"
  shows "(i, j) \<in> E\<^sup>* \<longleftrightarrow> (node_names sh ! i, node_names sh ! j) \<in> R\<^sup>*"
proof
  show "(node_names sh ! i, node_names sh ! j) \<in> R\<^sup>*" if "(i, j) \<in> E\<^sup>*"
    using that
  proof (induction rule: rtrancl_induct)
    case (step y z)
    from step(2) E have "(node_names sh ! y, node_names sh ! z) \<in> R" by blast
    with step(3) show ?case by (rule rtrancl_into_rtrancl)
  qed simp
  have len: "length (node_names sh) = length (nodes sh)" by (simp add: node_names_def)
  have "\<forall>k < length (nodes sh). node_names sh ! k = b \<longrightarrow> (i, k) \<in> E\<^sup>*"
    if "(node_names sh ! i, b) \<in> R\<^sup>*" for b
    using that
  proof (induction rule: rtrancl_induct)
    case base
    have "k = i" if "k < length (nodes sh)" "node_names sh ! k = node_names sh ! i" for k
      using that d ij(1) len nth_eq_iff_index_eq by metis
    then show ?case by blast
  next
    case (step y z)
    from step(2) R have "y \<in> set (node_names sh)" by auto
    then obtain m where m: "m < length (nodes sh)" "node_names sh ! m = y"
      using len by (auto simp: in_set_conv_nth)
    have "(i, k) \<in> E\<^sup>*" if "k < length (nodes sh)" "node_names sh ! k = z" for k
    proof (rule rtrancl_into_rtrancl)
      show "(i, m) \<in> E\<^sup>*" using step(3) m by blast
      show "(m, k) \<in> E" using E m that step(2) by blast
    qed
    then show ?case by blast
  qed
  then show "(i, j) \<in> E\<^sup>*" if "(node_names sh ! i, node_names sh ! j) \<in> R\<^sup>*" using that ij by blast
qed

definition all_reached :: "shape \<Rightarrow> bool" where
  "all_reached sh \<longleftrightarrow> set (node_names sh) \<subseteq> (step_rel sh)\<^sup>* `` set (entries sh)"

definition all_exit :: "shape \<Rightarrow> bool" where
  "all_exit sh \<longleftrightarrow> (\<forall>name \<in> set (node_names sh). \<exists>last \<in> exits_of sh. (name, last) \<in> (step_rel sh)\<^sup>*)"

lemma step_rel_subset: "well_formed sh \<Longrightarrow> step_rel sh \<subseteq> set (node_names sh) \<times> set (node_names sh)"
  by (fastforce simp: well_formed_def step_rel_def valid_edge_def target_known_def list_all_iff)

lemma exits_of_subset: "well_formed sh \<Longrightarrow> exits_of sh \<subseteq> set (node_names sh)"
  by (fastforce simp: well_formed_def exits_of_def valid_edge_def list_all_iff)

lemma all_positions: "(\<forall>x \<in> set (node_names sh). p x) \<longleftrightarrow> (\<forall>i < length (nodes sh). p (node_names sh ! i))"
  by (simp add: node_names_def all_set_conv_all_nth)

lemma flood_forward:
  assumes wf: "well_formed sh" and i: "i < length (nodes sh)"
  shows "flood (fwd (reach_graph sh)) (List.map_filter (index_of sh) (entries sh)) ! i \<longleftrightarrow>
    node_names sh ! i \<in> (step_rel sh)\<^sup>* `` set (entries sh)"
proof -
  let ?n = "length (nodes sh)" and ?seeds = "List.map_filter (index_of sh) (entries sh)"
  have d: "distinct (node_names sh)" using wf by (simp add: well_formed_def)
  note rel = acc_holds_rel[OF reach_graph_holds[OF d]]
  have len: "length (node_names sh) = ?n" by (simp add: node_names_def)
  have seeds: "set ?seeds = {k. k < ?n \<and> node_names sh ! k \<in> set (entries sh)}"
    by (auto simp: in_set_map_filter index_of_eq[OF d])
  have ok: "adj_ok (fwd (reach_graph sh))"
    using acc_holds_ok(1)[OF reach_graph_holds[OF d]] by simp
  have path: "(k, i) \<in> (adj_rel (fwd (reach_graph sh)))\<^sup>* \<longleftrightarrow>
      (node_names sh ! k, node_names sh ! i) \<in> (step_rel sh)\<^sup>*" if "k < ?n" for k
    by (rule positions_rtrancl[OF d step_rel_subset[OF wf] _ that i]) (simp add: rel(1))
  have "flood (fwd (reach_graph sh)) ?seeds ! i \<longleftrightarrow> i \<in> (adj_rel (fwd (reach_graph sh)))\<^sup>* `` set ?seeds"
    by (rule flood_reaches(2)[OF ok]) (simp_all add: seeds rel(3) i)
  also have "\<dots> \<longleftrightarrow> (\<exists>k < ?n. node_names sh ! k \<in> set (entries sh) \<and>
      (node_names sh ! k, node_names sh ! i) \<in> (step_rel sh)\<^sup>*)"
    unfolding seeds using path by blast
  also have "\<dots> \<longleftrightarrow> node_names sh ! i \<in> (step_rel sh)\<^sup>* `` set (entries sh)"
  proof -
    have "\<forall>e \<in> set (entries sh). \<exists>k < ?n. node_names sh ! k = e"
      using wf len by (auto simp: well_formed_def subset_iff in_set_conv_nth)
    from ex_position[OF this, of "\<lambda>x. (x, node_names sh ! i) \<in> (step_rel sh)\<^sup>*"]
    show ?thesis by (simp only: Image_iff)
  qed
  finally show ?thesis .
qed

lemma flood_backward:
  assumes wf: "well_formed sh" and i: "i < length (nodes sh)"
  shows "flood (bwd (reach_graph sh)) (outs (reach_graph sh)) ! i \<longleftrightarrow>
    (\<exists>last \<in> exits_of sh. (node_names sh ! i, last) \<in> (step_rel sh)\<^sup>*)"
proof -
  let ?n = "length (nodes sh)" and ?seeds = "outs (reach_graph sh)"
  have d: "distinct (node_names sh)" using wf by (simp add: well_formed_def)
  note rel = acc_holds_rel[OF reach_graph_holds[OF d]]
  have len: "length (node_names sh) = ?n" by (simp add: node_names_def)
  have conv: "adj_rel (bwd (reach_graph sh)) = (adj_rel (fwd (reach_graph sh)))\<inverse>"
    unfolding rel(1,2) by auto
  have ok: "adj_ok (bwd (reach_graph sh))"
    using acc_holds_ok(2)[OF reach_graph_holds[OF d]] by simp
  have path: "(i, k) \<in> (adj_rel (fwd (reach_graph sh)))\<^sup>* \<longleftrightarrow>
      (node_names sh ! i, node_names sh ! k) \<in> (step_rel sh)\<^sup>*" if "k < ?n" for k
    by (rule positions_rtrancl[OF d step_rel_subset[OF wf] _ i that]) (simp add: rel(1))
  have "flood (bwd (reach_graph sh)) ?seeds ! i \<longleftrightarrow> i \<in> (adj_rel (bwd (reach_graph sh)))\<^sup>* `` set ?seeds"
    by (rule flood_reaches(2)[OF ok]) (simp_all add: rel(4,5) i)
  also have "\<dots> \<longleftrightarrow> (\<exists>k < ?n. node_names sh ! k \<in> exits_of sh \<and>
      (node_names sh ! i, node_names sh ! k) \<in> (step_rel sh)\<^sup>*)"
    unfolding conv rel(5) rtrancl_converse using path by blast
  also have "\<dots> \<longleftrightarrow> (\<exists>last \<in> exits_of sh. (node_names sh ! i, last) \<in> (step_rel sh)\<^sup>*)"
  proof -
    have "\<forall>e \<in> exits_of sh. \<exists>k < ?n. node_names sh ! k = e"
      using exits_of_subset[OF wf] len by (auto simp: subset_iff in_set_conv_nth)
    from ex_position[OF this] show ?thesis .
  qed
  finally show ?thesis .
qed

lemma flood_lengths:
  assumes wf: "well_formed sh"
  shows "length (flood (fwd (reach_graph sh)) (List.map_filter (index_of sh) (entries sh))) = length (nodes sh)"
    and "length (flood (bwd (reach_graph sh)) (outs (reach_graph sh))) = length (nodes sh)"
proof -
  have d: "distinct (node_names sh)" using wf by (simp add: well_formed_def)
  note rel = acc_holds_rel[OF reach_graph_holds[OF d]]
  have "adj_ok (fwd (reach_graph sh))" "adj_ok (bwd (reach_graph sh))"
    using acc_holds_ok[OF reach_graph_holds[OF d]] by simp_all
  moreover have "\<forall>s \<in> set (List.map_filter (index_of sh) (entries sh)). s < length (nodes sh)"
    by (auto simp: in_set_map_filter index_of_eq[OF d])
  ultimately show
    "length (flood (fwd (reach_graph sh)) (List.map_filter (index_of sh) (entries sh))) = length (nodes sh)"
    "length (flood (bwd (reach_graph sh)) (outs (reach_graph sh))) = length (nodes sh)"
    using flood_reaches(1) rel(3-5) by auto
qed

lemma position_of_Not:
  "length xs = n \<Longrightarrow> position_of Not xs = None \<longleftrightarrow> (\<forall>i < n. xs ! i)"
  by (auto simp: position_of_None_iff list_all_length)

lemma reach_check_eq:
  "reach_check sh =
    (case position_of Not (flood (fwd (reach_graph sh)) (List.map_filter (index_of sh) (entries sh))) of
       Some p \<Rightarrow> Inl (UnreachableNode (node_name (nodes sh ! p)))
     | None \<Rightarrow> (case position_of Not (flood (bwd (reach_graph sh)) (outs (reach_graph sh))) of
         Some p \<Rightarrow> Inl (EndUnreachable (node_name (nodes sh ! p)))
       | None \<Rightarrow> Inr ()))"
  unfolding reach_check_def acc_defs by (simp only: case_prod_unfold)

lemma reach_check_ok_iff:
  assumes wf: "well_formed sh"
  shows "reach_check sh = Inr () \<longleftrightarrow> all_reached sh \<and> all_exit sh"
proof -
  let ?f = "flood (fwd (reach_graph sh)) (List.map_filter (index_of sh) (entries sh))"
  let ?b = "flood (bwd (reach_graph sh)) (outs (reach_graph sh))"
  have "reach_check sh = Inr () \<longleftrightarrow> position_of Not ?f = None \<and> position_of Not ?b = None"
    by (simp add: reach_check_eq split: option.splits)
  also have "\<dots> \<longleftrightarrow> all_reached sh \<and> all_exit sh"
    unfolding position_of_Not[OF flood_lengths(1)[OF wf]] position_of_Not[OF flood_lengths(2)[OF wf]]
      all_reached_def all_exit_def subset_iff Ball_def[symmetric] all_positions
    using flood_forward[OF wf] flood_backward[OF wf] by auto
  finally show ?thesis .
qed

end
