(* ===== verification/State_Value.thy ===== *)
theory State_Value
  imports Targets
begin

text \<open>
  \<open>br-graph-contract/src/state\<close>: the state that holds the fields of a runner.

  The trait \<open>Fields\<close> is implemented by the host, and serde by a library: both are the record
  \<open>fields_ops\<close>, an argument of every operation. \<open>ser_chunks\<close> is what \<open>serde_json::to_writer\<close>
  writes, one byte list for each call of \<open>write\<close>; \<open>serde_json::to_vec\<close> is the same serializer
  writing to a vector, so it gives their concatenation. \<open>de_slice\<close> is \<open>serde_json::from_slice\<close>.
  Every host function can panic (\<open>Inl\<close> of \<open>clone_of\<close>, \<open>Panic\<close> elsewhere).
\<close>

section \<open>The trait Fields\<close>

record ('f, 'u) fields_ops =
  empty_update :: "'u"
  validate :: "'f \<Rightarrow> (unit, reason) comp"
  apply_fields :: "'f \<Rightarrow> 'u \<Rightarrow> ('f, reason) comp"
  clone_of :: "'f \<Rightarrow> string + 'f"
  ser_chunks :: "'f \<Rightarrow> (string list, string) comp"
  de_slice :: "string \<Rightarrow> ('f, string) comp"

section \<open>Errors\<close>

datatype invalid_state = InvalidState (invalid_reason: reason)

datatype apply_error = Refused reason | InvalidStateErr invalid_state

definition oversize :: "nat \<Rightarrow> nat \<Rightarrow> invalid_state" where
  "oversize sz lim = InvalidState (Reason (''serialized fields take '' @ show_nat sz
     @ '' bytes, over the limit of '' @ show_nat lim @ '' bytes''))"

definition unserializable :: "string \<Rightarrow> invalid_state" where
  "unserializable e = InvalidState (Reason (''fields cannot be serialized: '' @ e))"

definition show_invalid_state :: "invalid_state \<Rightarrow> string" where
  "show_invalid_state e = ''invalid state: '' @ as_str (invalid_reason e)"

definition show_apply_error :: "apply_error \<Rightarrow> string" where
  "show_apply_error e = (case e of
     Refused r \<Rightarrow> ''update refused by the fields: '' @ as_str r
   | InvalidStateErr i \<Rightarrow> show_invalid_state i)"

section \<open>Measuring the serialized form\<close>

text \<open>\<open>Counter::write\<close> adds with \<open>saturating_add\<close> on \<open>usize\<close>.\<close>

definition counter_write :: "nat \<Rightarrow> string \<Rightarrow> nat" where
  "counter_write bytes buf = usize_sat (bytes + length buf)"

definition serialized_size ::
  "('f, 'u) fields_ops \<Rightarrow> 'f \<Rightarrow> nat \<Rightarrow> (nat, invalid_state) comp" where
  "serialized_size F f lim =
     bind_comp (map_err unserializable (ser_chunks F f)) (\<lambda>chunks.
       let bytes = foldl counter_write 0 chunks in
       if bytes > lim then Err (oversize bytes lim) else Ret bytes)"

definition serialize :: "('f, 'u) fields_ops \<Rightarrow> 'f \<Rightarrow> (string, invalid_state) comp" where
  "serialize F f = bind_comp (map_err unserializable (ser_chunks F f)) (\<lambda>chunks. Ret (concat chunks))"

section \<open>The state\<close>

record 'f state =
  fields_of :: "'f"
  limit_of :: nat
  size_of :: nat

definition DEFAULT_STATE_LIMIT :: nat where
  "DEFAULT_STATE_LIMIT = 131072"

definition create_with_limit ::
  "('f, 'u) fields_ops \<Rightarrow> 'f \<Rightarrow> nat \<Rightarrow> ('f state, invalid_state) comp" where
  "create_with_limit F f lim =
     bind_comp (map_err InvalidState (validate F f)) (\<lambda>_.
     bind_comp (serialized_size F f lim) (\<lambda>sz.
       Ret \<lparr>fields_of = f, limit_of = lim, size_of = sz\<rparr>))"

definition create :: "('f, 'u) fields_ops \<Rightarrow> 'f \<Rightarrow> ('f state, invalid_state) comp" where
  "create F f = create_with_limit F f DEFAULT_STATE_LIMIT"

definition rebuild_with_limit ::
  "('f, 'u) fields_ops \<Rightarrow> string \<Rightarrow> nat \<Rightarrow> ('f state, invalid_state) comp" where
  "rebuild_with_limit F json lim =
     bind_comp (map_err (\<lambda>e. InvalidState (Reason (''malformed state: '' @ e))) (de_slice F json))
       (\<lambda>f. create_with_limit F f lim)"

definition rebuild :: "('f, 'u) fields_ops \<Rightarrow> string \<Rightarrow> ('f state, invalid_state) comp" where
  "rebuild F json = rebuild_with_limit F json DEFAULT_STATE_LIMIT"

text \<open>\<open>State::apply\<close> works on a clone of the fields: the state itself is never changed.\<close>

definition apply_update ::
  "('f, 'u) fields_ops \<Rightarrow> 'f state \<Rightarrow> 'u \<Rightarrow> ('f state, apply_error) comp" where
  "apply_update F s u =
     bind_comp (of_caught (clone_of F (fields_of s))) (\<lambda>f.
     bind_comp (map_err Refused (apply_fields F f u)) (\<lambda>f'.
       map_err InvalidStateErr (create_with_limit F f' (limit_of s))))"

definition to_json :: "('f, 'u) fields_ops \<Rightarrow> 'f state \<Rightarrow> (string, invalid_state) comp" where
  "to_json F s = serialize F (fields_of s)"

section \<open>Lemmas\<close>

lemma counter_write_foldl:
  "b \<le> usize_max \<Longrightarrow> foldl counter_write b chunks = min usize_max (b + length (concat chunks))"
  by (induction chunks arbitrary: b) (auto simp: counter_write_def usize_sat_def)

lemma counter_is_length:
  "foldl counter_write 0 chunks = min usize_max (length (concat chunks))"
  using counter_write_foldl[of 0 chunks] by simp

lemma serialized_size_Ret_iff:
  "serialized_size F f lim = Ret sz \<longleftrightarrow>
   (\<exists>json. serialize F f = Ret json \<and> sz = min usize_max (length json) \<and> sz \<le> lim)"
  by (cases "ser_chunks F f")
     (auto simp: serialized_size_def serialize_def Let_def counter_is_length)

text \<open>A state is well formed when it could have been created as it is.\<close>

definition state_ok :: "('f, 'u) fields_ops \<Rightarrow> 'f state \<Rightarrow> bool" where
  "state_ok F s \<longleftrightarrow> validate F (fields_of s) = Ret () \<and>
     (case serialize F (fields_of s) of
        Ret json \<Rightarrow> size_of s = min usize_max (length json) \<and> size_of s \<le> limit_of s
      | _ \<Rightarrow> False)"

lemma create_with_limit_Ret_iff:
  "create_with_limit F f lim = Ret s \<longleftrightarrow> state_ok F s \<and> fields_of s = f \<and> limit_of s = lim"
  by (cases s; cases "serialize F f")
     (auto simp: create_with_limit_def bind_comp_Ret_iff serialized_size_Ret_iff state_ok_def)

lemma rebuild_with_limit_Ret_iff:
  "rebuild_with_limit F json lim = Ret s \<longleftrightarrow>
   de_slice F json = Ret (fields_of s) \<and> state_ok F s \<and> limit_of s = lim"
  by (auto simp: rebuild_with_limit_def bind_comp_Ret_iff create_with_limit_Ret_iff)

lemma apply_update_Ret_iff:
  "apply_update F s u = Ret s' \<longleftrightarrow>
   (\<exists>f. clone_of F (fields_of s) = Inr f \<and> apply_fields F f u = Ret (fields_of s'))
   \<and> state_ok F s' \<and> limit_of s' = limit_of s"
  by (cases "clone_of F (fields_of s)")
     (auto simp: apply_update_def bind_comp_Ret_iff create_with_limit_Ret_iff)

lemma state_ok_to_json: "state_ok F s \<Longrightarrow> \<exists>json. to_json F s = Ret json"
  by (auto simp: state_ok_def to_json_def split: comp.splits)

text \<open>Every state a program can hold: created or rebuilt, then updated any number of times.\<close>

inductive built_state :: "('f, 'u) fields_ops \<Rightarrow> 'f state \<Rightarrow> bool" for F where
  created: "create_with_limit F f lim = Ret s \<Longrightarrow> built_state F s"
| rebuilt: "rebuild_with_limit F json lim = Ret s \<Longrightarrow> built_state F s"
| applied: "built_state F s \<Longrightarrow> apply_update F s u = Ret s' \<Longrightarrow> built_state F s'"

lemma built_state_ok: "built_state F s \<Longrightarrow> state_ok F s"
  by (induction rule: built_state.induct)
     (auto simp: create_with_limit_Ret_iff rebuild_with_limit_Ret_iff apply_update_Ret_iff)

section \<open>A concrete runner for the witnesses\<close>

text \<open>Fields that hold a number, valid below 100, written in decimal.\<close>

definition nat_fields :: "(nat, nat) fields_ops" where
  "nat_fields = \<lparr>empty_update = 0,
     validate = (\<lambda>n. if n < 100 then Ret () else Err (Reason ''too big'')),
     apply_fields = (\<lambda>n u. if u = 13 then Err (Reason ''unlucky'') else
        if u = 77 then Panic ''boom'' else Ret (n + u)),
     clone_of = Inr,
     ser_chunks = (\<lambda>n. Ret [show_nat n]),
     de_slice = (\<lambda>json. case find (\<lambda>n. show_nat n = json) [0..<100] of
        Some n \<Rightarrow> Ret n | None \<Rightarrow> Err ''expected value'')\<rparr>"

text \<open>
  C5: every state a program can build, by \<open>create\<close>, \<open>rebuild\<close> and any number of \<open>apply\<close>, holds
  fields its own validation accepts, whose serialized form exists, takes exactly the recorded size
  (saturated at \<open>usize::MAX\<close>) and is within the limit.
\<close>

theorem built_state_invariant:
  assumes "built_state F s"
  shows "validate F (fields_of s) = Ret () \<and>
    (\<exists>json. to_json F s = Ret json \<and> size_of s = min usize_max (length json) \<and> size_of s \<le> limit_of s)"
  using built_state_ok[OF assms] by (auto simp: state_ok_def to_json_def split: comp.splits)

lemma nat_fields_ok:
  "n < 100 \<Longrightarrow> state_ok nat_fields \<lparr>fields_of = n, limit_of = 131072, size_of = length (show_nat n)\<rparr>
    \<longleftrightarrow> length (show_nat n) \<le> 131072"
  by (auto simp: state_ok_def nat_fields_def serialize_def usize_max_def)

theorem built_state_invariant_witness:
  "built_state nat_fields \<lparr>fields_of = 7, limit_of = 131072, size_of = 1\<rparr> \<and>
   validate nat_fields 7 = Ret ()"
proof -
  have len: "length (show_nat 7) = 1" by (simp add: show_nat.simps)
  have c: "create_with_limit nat_fields 7 131072 = Ret \<lparr>fields_of = 7, limit_of = 131072, size_of = 1\<rparr>"
    using nat_fields_ok[of 7] by (simp add: create_with_limit_Ret_iff len)
  have b: "built_state nat_fields \<lparr>fields_of = 7, limit_of = 131072, size_of = 1\<rparr>"
    using c by (rule built_state.created)
  from built_state_invariant[OF b] b show ?thesis by simp
qed

text \<open>
  C6: a state that was serialized is rebuilt as it was, under the limit it had, for fields whose
  deserializer reads back what their serializer wrote.
\<close>

theorem rebuild_to_json:
  assumes "built_state F s"
    and "\<And>json. to_json F s = Ret json \<Longrightarrow> de_slice F json = Ret (fields_of s)"
  shows "\<exists>json. to_json F s = Ret json \<and> rebuild_with_limit F json (limit_of s) = Ret s"
proof -
  from assms(1) have ok: "state_ok F s" by (rule built_state_ok)
  then obtain json where json: "to_json F s = Ret json" using state_ok_to_json by blast
  with assms(2) ok show ?thesis by (auto simp: rebuild_with_limit_Ret_iff)
qed

theorem rebuild_to_json_witness:
  "\<exists>json. to_json nat_fields \<lparr>fields_of = 42, limit_of = 131072, size_of = 2\<rparr> = Ret json \<and>
     rebuild_with_limit nat_fields json 131072 = Ret \<lparr>fields_of = 42, limit_of = 131072, size_of = 2\<rparr>"
proof -
  let ?s = "\<lparr>fields_of = 42, limit_of = 131072, size_of = 2\<rparr> :: nat state"
  have len: "length (show_nat 42) = 2" by (simp add: show_nat.simps)
  have "create_with_limit nat_fields 42 131072 = Ret ?s"
    using nat_fields_ok[of 42] by (simp add: create_with_limit_Ret_iff len)
  then have b: "built_state nat_fields ?s" by (rule built_state.created)
  have d: "de_slice nat_fields (show_nat 42) = Ret 42" by code_simp
  have "de_slice nat_fields json = Ret (fields_of ?s)" if "to_json nat_fields ?s = Ret json" for json
    using that d by (simp add: to_json_def serialize_def nat_fields_def)
  from rebuild_to_json[OF b this] show ?thesis by simp
qed

end
