(* ===== verification/Graph_Value.thy ===== *)
theory Graph_Value
  imports Graph_Reach State_Value
begin

text \<open>
  \<open>br-graph-contract/src/graph\<close>: the validated structure (\<open>structure.rs\<close>, \<open>check.rs\<close>), the
  builder, the graph and the checked evaluation of an edge. A node and an edge of the host are
  trait objects: the records \<open>node_impl\<close> and \<open>edge_impl\<close> hold what their methods give. An opaque
  cause (\<open>Box<dyn Error>\<close>) is what its \<open>Display\<close> gives, a text or a panic.
\<close>

section \<open>The structure\<close>

definition validate_shape :: "shape \<Rightarrow> build_error + unit" where
  "validate_shape sh =
     (if \<not> is_version (version sh) then Inl (InvalidVersion (version sh))
      else bind_sum (check_nodes sh) (\<lambda>node_names.
           bind_sum (check_entries sh node_names) (\<lambda>_.
           bind_sum (check_edges sh node_names) (\<lambda>_.
             reach_check sh))))"

text \<open>\<open>Structure\<close> has the four fields of \<open>Shape\<close>; its values come from \<open>from_shape\<close> only.\<close>

type_synonym graph_structure = shape

definition sorted_shape :: "shape \<Rightarrow> shape" where
  "sorted_shape sh = sh\<lparr>entries := sort (entries sh), nodes := sort_key node_name (nodes sh),
     edges := sort_key edge_name (edges sh)\<rparr>"

definition from_shape :: "shape \<Rightarrow> build_error + graph_structure" where
  "from_shape sh = (let sh' = sorted_shape sh in bind_sum (validate_shape sh') (\<lambda>_. Inr sh'))"

section \<open>Nodes, edges and the builder\<close>

datatype cause = Cause (display: "string + string")

record 'i node_impl =
  ni_name :: string
  ni_kind :: string
  ni_subkind :: string
  ni_create :: "'i"

record 'f edge_impl =
  ei_name :: string
  ei_source :: string
  ei_targets :: "target list"
  ei_evaluate :: "'f state \<Rightarrow> (target list, cause) comp"

record ('f, 'i) graph_builder =
  b_version :: string
  b_nodes :: "(structure_node \<times> 'i node_impl) list"
  b_edges :: "(structure_edge \<times> 'f edge_impl) list"
  b_entries :: "string list"

definition builder_new :: "string \<Rightarrow> ('f, 'i) graph_builder" where
  "builder_new v = \<lparr>b_version = v, b_nodes = [], b_edges = [], b_entries = []\<rparr>"

definition builder_node ::
  "('f, 'i) graph_builder \<Rightarrow> 'i node_impl \<Rightarrow> ('f, 'i) graph_builder" where
  "builder_node b n = b\<lparr>b_nodes := b_nodes b @
     [(\<lparr>node_name = ni_name n, node_kind = ni_kind n, node_subkind = ni_subkind n\<rparr>, n)]\<rparr>"

definition builder_edge ::
  "('f, 'i) graph_builder \<Rightarrow> 'f edge_impl \<Rightarrow> ('f, 'i) graph_builder" where
  "builder_edge b e = b\<lparr>b_edges := b_edges b @
     [(\<lparr>edge_name = ei_name e, edge_source = ei_source e, edge_targets = ei_targets e\<rparr>, e)]\<rparr>"

definition builder_entry :: "('f, 'i) graph_builder \<Rightarrow> string \<Rightarrow> ('f, 'i) graph_builder" where
  "builder_entry b name = b\<lparr>b_entries := b_entries b @ [name]\<rparr>"

record 'f edge_entry =
  ee_edge :: "'f edge_impl"
  ee_declared :: "target list"
  ee_positions :: "target \<Rightarrow> nat option"

definition edge_entry_new :: "'f edge_impl \<Rightarrow> target list \<Rightarrow> 'f edge_entry" where
  "edge_entry_new e declared = \<lparr>ee_edge = e, ee_declared = declared,
     ee_positions = collect_map (zip declared [0..<length declared])\<rparr>"

record ('f, 'i) graph =
  g_structure :: graph_structure
  g_nodes :: "string \<Rightarrow> 'i node_impl option"
  g_edges :: "string \<Rightarrow> 'f edge_entry option"

definition builder_shape :: "('f, 'i) graph_builder \<Rightarrow> shape" where
  "builder_shape b = \<lparr>version = b_version b, entries = b_entries b,
     nodes = map fst (b_nodes b), edges = map fst (b_edges b)\<rparr>"

definition build :: "('f, 'i) graph_builder \<Rightarrow> build_error + ('f, 'i) graph" where
  "build b = bind_sum (from_shape (builder_shape b)) (\<lambda>st.
     Inr \<lparr>g_structure = st,
       g_nodes = collect_map (map (\<lambda>(meta, n). (node_name meta, n)) (b_nodes b)),
       g_edges = collect_map (map (\<lambda>(meta, e).
         (edge_source meta, edge_entry_new e (edge_targets meta))) (b_edges b))\<rparr>)"

section \<open>Evaluating an edge\<close>

datatype edge_error =
  EdgeUnknownNode string
| EdgeUndeclaredTarget string target
| EdgeEmptyTargets string
| EdgeEndMixedWithNodes string
| EdgeFailed cause

definition choose_target ::
  "string \<Rightarrow> 'f edge_entry \<Rightarrow> bool list \<Rightarrow> target \<Rightarrow> edge_error + bool list" where
  "choose_target node entry chosen t = (case ee_positions entry t of
     None \<Rightarrow> Inl (EdgeUndeclaredTarget node t)
   | Some p \<Rightarrow> Inr (chosen[p := True]))"

definition check_returned ::
  "string \<Rightarrow> 'f edge_entry \<Rightarrow> target list \<Rightarrow> edge_error + target list" where
  "check_returned node entry returned =
     (if returned = [] then Inl (EdgeEmptyTargets node)
      else if list_ex is_end returned \<and> list_ex (\<lambda>t. \<not> is_end t) returned
        then Inl (EdgeEndMixedWithNodes node)
      else bind_sum (for_each (choose_target node entry)
             (replicate (length (ee_declared entry)) False) returned) (\<lambda>chosen.
           Inr (map fst (filter snd (zip (ee_declared entry) chosen)))))"

definition evaluate_edge ::
  "('f, 'i) graph \<Rightarrow> string \<Rightarrow> 'f state \<Rightarrow> (target list, edge_error) comp" where
  "evaluate_edge g node s = (case g_edges g node of
     None \<Rightarrow> Err (EdgeUnknownNode node)
   | Some entry \<Rightarrow>
       bind_comp (map_err EdgeFailed (ei_evaluate (ee_edge entry) s)) (\<lambda>returned.
         case check_returned node entry returned of Inl e \<Rightarrow> Err e | Inr ts \<Rightarrow> Ret ts))"

section \<open>What a valid structure is\<close>

definition valid_shape :: "shape \<Rightarrow> bool" where
  "valid_shape sh \<longleftrightarrow> is_version (version sh) \<and> well_formed sh \<and> all_reached sh \<and> all_exit sh"

lemma validate_shape_iff: "validate_shape sh = Inr () \<longleftrightarrow> valid_shape sh"
proof -
  have "validate_shape sh = Inr () \<longleftrightarrow> is_version (version sh) \<and> well_formed sh \<and> reach_check sh = Inr ()"
    by (auto simp: validate_shape_def bind_sum_Inr_iff checks_well_formed)
  then show ?thesis by (auto simp: valid_shape_def reach_check_ok_iff)
qed

lemma valid_shape_sorted: "valid_shape (sorted_shape sh) \<longleftrightarrow> valid_shape sh"
proof -
  have s: "set (node_names (sorted_shape sh)) = set (node_names sh)"
    by (simp add: node_names_def sorted_shape_def)
  have "well_formed (sorted_shape sh) \<longleftrightarrow> well_formed sh"
    using s by (simp add: well_formed_def node_names_def sorted_shape_def list_all_iff)
  moreover have "step_rel (sorted_shape sh) = step_rel sh" "exits_of (sorted_shape sh) = exits_of sh"
    by (simp_all add: step_rel_def exits_of_def sorted_shape_def)
  ultimately show ?thesis
    using s by (simp add: valid_shape_def all_reached_def all_exit_def sorted_shape_def)
qed

lemma from_shape_Inr_iff: "from_shape sh = Inr st \<longleftrightarrow> valid_shape sh \<and> st = sorted_shape sh"
  by (auto simp: from_shape_def Let_def bind_sum_Inr_iff validate_shape_iff valid_shape_sorted)

lemma valid_shapeD:
  assumes "valid_shape sh"
  shows "well_formed sh" "distinct (node_names sh)" "distinct (map edge_source (edges sh))"
    "set (map edge_source (edges sh)) = set (node_names sh)" "node_names sh \<noteq> []"
  using assms by (auto simp: valid_shape_def well_formed_def node_names_def)

section \<open>The checked evaluation\<close>

lemma edge_entry_position:
  assumes "distinct declared"
  shows "ee_positions (edge_entry_new e declared) t = Some i \<longleftrightarrow> i < length declared \<and> declared ! i = t"
proof -
  have d: "distinct (map fst (zip declared [0..<length declared]))" using assms by simp
  show ?thesis
    unfolding edge_entry_new_def using map_of_distinct_iff[OF d, of t i]
    by (auto simp: collect_map_eq_map_of[OF d] in_set_zip)
qed

lemma edge_entry_position_None:
  assumes "distinct declared"
  shows "ee_positions (edge_entry_new e declared) t = None \<longleftrightarrow> t \<notin> set declared"
proof
  assume none: "ee_positions (edge_entry_new e declared) t = None"
  show "t \<notin> set declared"
  proof
    assume "t \<in> set declared"
    then obtain i where "i < length declared" "declared ! i = t" by (auto simp: in_set_conv_nth)
    with none edge_entry_position[OF assms, of e t i] show False by simp
  qed
next
  assume out: "t \<notin> set declared"
  show "ee_positions (edge_entry_new e declared) t = None"
  proof (cases "ee_positions (edge_entry_new e declared) t")
    case (Some i)
    with out edge_entry_position[OF assms, of e t i] show ?thesis by auto
  qed simp
qed

text \<open>The marks after the loop: a declared target is marked exactly when it was returned.\<close>

lemma for_each_choose:
  assumes d: "distinct declared" and len: "length chosen = length declared"
  shows "for_each (choose_target node (edge_entry_new e declared)) chosen returned =
    (case find (\<lambda>t. t \<notin> set declared) returned of
       Some t \<Rightarrow> Inl (EdgeUndeclaredTarget node t)
     | None \<Rightarrow> Inr (map2 (\<lambda>c t. c \<or> t \<in> set returned) chosen declared))"
  using len
proof (induction returned arbitrary: chosen)
  case Nil
  then show ?case by (simp add: list_eq_iff_nth_eq)
next
  case (Cons t returned)
  show ?case
  proof (cases "ee_positions (edge_entry_new e declared) t")
    case None
    moreover from None have "t \<notin> set declared" using edge_entry_position_None[OF d] by blast
    ultimately show ?thesis by (simp add: choose_target_def)
  next
    case (Some i)
    then have i: "i < length declared" "declared ! i = t" using edge_entry_position[OF d] by blast+
    then have t: "t \<in> set declared" by auto
    have step: "choose_target node (edge_entry_new e declared) chosen t = Inr (chosen[i := True])"
      using Some by (simp add: choose_target_def)
    have marks: "map2 (\<lambda>c u. c \<or> u \<in> set returned) (chosen[i := True]) declared
        = map2 (\<lambda>c u. c \<or> u \<in> set (t # returned)) chosen declared"
      using i d Cons.prems by (auto simp: list_eq_iff_nth_eq nth_list_update nth_eq_iff_index_eq)
    have "length (chosen[i := True]) = length declared" using Cons.prems by simp
    note ih = Cons.IH[OF this]
    have "find (\<lambda>t. t \<notin> set declared) (t # returned) = find (\<lambda>t. t \<notin> set declared) returned"
      using t by simp
    then show ?thesis by (simp only: for_each.simps step sum.case ih marks)
  qed
qed

lemma filter_zip_marks:
  "map fst (filter snd (zip xs (map2 (\<lambda>c t. c \<or> p t) (replicate (length xs) False) xs))) = filter p xs"
  by (induction xs) auto

lemma check_returned_eq:
  assumes "distinct declared"
  shows "check_returned node (edge_entry_new e declared) returned =
    (if returned = [] then Inl (EdgeEmptyTargets node)
     else if End \<in> set returned \<and> (\<exists>t \<in> set returned. t \<noteq> End) then Inl (EdgeEndMixedWithNodes node)
     else case find (\<lambda>t. t \<notin> set declared) returned of
       Some t \<Rightarrow> Inl (EdgeUndeclaredTarget node t)
     | None \<Rightarrow> Inr (filter (\<lambda>t. t \<in> set returned) declared))"
proof -
  have len: "length (replicate (length declared) False) = length declared" by simp
  have decl: "ee_declared (edge_entry_new e declared) = declared" by (simp add: edge_entry_new_def)
  show ?thesis
    unfolding check_returned_def decl for_each_choose[OF assms len]
    by (auto simp: list_ex_iff is_end_iff filter_zip_marks split: option.splits)
qed

section \<open>Graphs that exist\<close>

text \<open>
  What a graph given by \<open>build\<close> satisfies: its structure is valid and sorted, it holds a node for
  each name and, for each edge of the structure, an entry with the declared targets.
\<close>

definition graph_ok :: "('f, 'i) graph \<Rightarrow> bool" where
  "graph_ok g \<longleftrightarrow> valid_shape (g_structure g) \<and> sorted_shape (g_structure g) = g_structure g
     \<and> dom (g_nodes g) = set (node_names (g_structure g))
     \<and> dom (g_edges g) = set (node_names (g_structure g))
     \<and> (\<forall>name entry. g_edges g name = Some entry \<longrightarrow>
          (\<exists>m \<in> set (edges (g_structure g)). edge_source m = name
             \<and> (\<exists>e. entry = edge_entry_new e (edge_targets m))))"

lemma sorted_shape_idem: "sorted_shape (sorted_shape sh) = sorted_shape sh"
  by (simp add: sorted_shape_def sort_key_id)

lemma build_Inr_iff:
  "build b = Inr g \<longleftrightarrow> valid_shape (builder_shape b) \<and>
   g = \<lparr>g_structure = sorted_shape (builder_shape b),
       g_nodes = collect_map (map (\<lambda>(meta, n). (node_name meta, n)) (b_nodes b)),
       g_edges = collect_map (map (\<lambda>(meta, e).
         (edge_source meta, edge_entry_new e (edge_targets meta))) (b_edges b))\<rparr>"
  by (auto simp: build_def bind_sum_Inr_iff from_shape_Inr_iff)

lemma build_graph_ok:
  assumes "build b = Inr g"
  shows "graph_ok g"
proof -
  let ?sh = "builder_shape b"
  from assms have v: "valid_shape ?sh" and g: "g_structure g = sorted_shape ?sh"
    and n: "g_nodes g = collect_map (map (\<lambda>(meta, n). (node_name meta, n)) (b_nodes b))"
    and e: "g_edges g = collect_map (map (\<lambda>(meta, e).
         (edge_source meta, edge_entry_new e (edge_targets meta))) (b_edges b))"
    by (simp_all add: build_Inr_iff)
  have names: "set (node_names (sorted_shape ?sh)) = set (node_names ?sh)"
    by (simp add: node_names_def sorted_shape_def)
  have dn: "dom (g_nodes g) = set (node_names ?sh)"
    by (auto simp: n dom_collect_map node_names_def builder_shape_def image_iff split: prod.splits)
       force+
  have de: "dom (g_edges g) = set (map edge_source (edges ?sh))"
    by (auto simp: e dom_collect_map builder_shape_def image_iff split: prod.splits) force+
  have ent: "\<exists>m \<in> set (edges ?sh). edge_source m = name \<and> (\<exists>e. entry = edge_entry_new e (edge_targets m))"
    if "g_edges g name = Some entry" for name entry
  proof -
    from that have "(name, entry) \<in> set (map (\<lambda>(meta, e).
         (edge_source meta, edge_entry_new e (edge_targets meta))) (b_edges b))"
      by (auto simp: e collect_map_def dest: map_of_SomeD)
    then show ?thesis by (force simp: builder_shape_def)
  qed
  show ?thesis
    unfolding graph_ok_def g names dn de
    using v ent valid_shapeD(4)[OF v]
    by (simp add: valid_shape_sorted sorted_shape_idem) (simp add: sorted_shape_def)
qed

lemma graph_ok_declared:
  assumes "graph_ok g" "g_edges g name = Some entry"
  shows "\<exists>e m. entry = edge_entry_new e (edge_targets m) \<and> m \<in> set (edges (g_structure g))
    \<and> edge_source m = name \<and> valid_edge (set (node_names (g_structure g))) m"
  using assms valid_shapeD(1)[of "g_structure g"]
  by (fastforce simp: graph_ok_def well_formed_def list_all_iff)

lemma graph_ok_entry:
  assumes "graph_ok g" "node \<in> set (node_names (g_structure g))"
  shows "\<exists>entry. g_edges g node = Some entry"
  using assms by (auto simp: graph_ok_def)

lemma sort_key_perm:
  fixes f :: "'a \<Rightarrow> 'k::linorder"
  assumes "mset xs = mset ys" "distinct (map f xs)"
  shows "sort_key f xs = sort_key f ys"
  using assms by (intro sort_key_inj_key_eq) (simp_all add: distinct_map)

section \<open>A concrete graph for the witnesses\<close>

text \<open>Two nodes: \<open>ask\<close> goes to \<open>tell\<close> and then ends, \<open>tell\<close> ends.\<close>

definition demo_node :: "string \<Rightarrow> 'i \<Rightarrow> 'i node_impl" where
  "demo_node name mk = \<lparr>ni_name = name, ni_kind = ''k'', ni_subkind = ''s'', ni_create = mk\<rparr>"

definition demo_ask :: "nat edge_impl" where
  "demo_ask = \<lparr>ei_name = ''from_ask'', ei_source = ''ask'', ei_targets = [Node ''tell'', End],
     ei_evaluate = (\<lambda>s. if fields_of s = 5 then Ret [End] else if fields_of s = 6 then Ret []
       else Ret [Node ''tell'', Node ''tell''])\<rparr>"

definition demo_tell :: "nat edge_impl" where
  "demo_tell = \<lparr>ei_name = ''from_tell'', ei_source = ''tell'', ei_targets = [End],
     ei_evaluate = (\<lambda>s. Ret [End])\<rparr>"

definition demo_builder :: "'i \<Rightarrow> (nat, 'i) graph_builder" where
  "demo_builder mk = builder_entry (builder_edge (builder_edge (builder_node (builder_node
     (builder_new ''1'') (demo_node ''tell'' mk)) (demo_node ''ask'' mk)) demo_tell) demo_ask)
     ''ask''"

definition demo_graph :: "'i \<Rightarrow> (nat, 'i) graph" where
  "demo_graph mk = (case build (demo_builder mk) of Inr g \<Rightarrow> g)"

lemma demo_is_ok: "is_ok (build (demo_builder ()))"
  by code_simp

lemma returned_targets_ok:
  assumes "(if returned = [] then Inl (EdgeEmptyTargets node)
     else if End \<in> set returned \<and> (\<exists>t \<in> set returned. t \<noteq> End) then Inl (EdgeEndMixedWithNodes node)
     else case find (\<lambda>t. t \<notin> set declared) returned of
       Some t \<Rightarrow> Inl (EdgeUndeclaredTarget node t)
     | None \<Rightarrow> Inr (filter (\<lambda>t. t \<in> set returned) declared)) = Inr ts"
    and d: "distinct declared" and known: "\<And>t. t \<in> set declared \<Longrightarrow> target_known names t"
  shows "ts = [End] \<or> (ts \<noteq> [] \<and> distinct ts \<and> set ts \<subseteq> Node ` names)"
proof -
  from assms(1) have ne: "returned \<noteq> []" and ts: "ts = filter (\<lambda>t. t \<in> set returned) declared"
    and sub: "set returned \<subseteq> set declared" and pure: "End \<notin> set returned \<or> set returned \<subseteq> {End}"
    by (auto split: if_splits option.splits simp: find_None_iff)
  have set_ts: "set ts = set returned" using sub by (auto simp: ts)
  have dts: "distinct ts" using d by (simp add: ts)
  show ?thesis
  proof (cases "End \<in> set returned")
    case True
    with pure have "set ts = {End}" using set_ts by auto
    with dts have "length ts = 1" using distinct_card[of ts] by simp
    with \<open>set ts = {End}\<close> show ?thesis by (cases ts) auto
  next
    case False
    have "t \<in> Node ` names" if "t \<in> set ts" for t
    proof -
      have "t \<in> set declared" "t \<noteq> End" using that False set_ts sub by auto
      with known[of t] show ?thesis by (cases t) (auto simp: target_known_def)
    qed
    with dts set_ts ne show ?thesis by auto
  qed
qed

lemma check_returned_no_unknown: "check_returned node entry returned \<noteq> Inl (EdgeUnknownNode n)"
  "check_returned node entry returned \<noteq> Inl (EdgeFailed c)"
proof -
  have "for_each (choose_target node entry) chosen returned \<noteq> Inl (EdgeUnknownNode n)
     \<and> for_each (choose_target node entry) chosen returned \<noteq> Inl (EdgeFailed c)" for chosen
    by (induction returned arbitrary: chosen) (auto simp: choose_target_def split: option.splits)
  then show "check_returned node entry returned \<noteq> Inl (EdgeUnknownNode n)"
    "check_returned node entry returned \<noteq> Inl (EdgeFailed c)"
    by (auto simp: check_returned_def bind_sum_Inl_iff)
qed

lemma validate_shape_Inl: "validate_shape sh = Inl e \<Longrightarrow> \<not> valid_shape sh"
  using validate_shape_iff[of sh] by simp

lemma build_edge_entry:
  assumes "build b = Inr g" and "(m, e) \<in> set (b_edges b)"
  shows "g_edges g (edge_source m) = Some (edge_entry_new e (edge_targets m))"
proof -
  let ?kvs = "map (\<lambda>(meta, e). (edge_source meta, edge_entry_new e (edge_targets meta))) (b_edges b)"
  from assms(1) have v: "valid_shape (builder_shape b)" and ge: "g_edges g = collect_map ?kvs"
    by (auto simp: build_Inr_iff)
  have "map fst ?kvs = map edge_source (edges (builder_shape b))"
    by (simp add: builder_shape_def case_prod_unfold)
  then have "distinct (map fst ?kvs)" using valid_shapeD(3)[OF v] by simp
  moreover have "(edge_source m, edge_entry_new e (edge_targets m)) \<in> set ?kvs"
    using assms(2) by force
  ultimately show ?thesis by (simp only: ge collect_map_eq_map_of map_of_is_SomeI)
qed

lemma demo_build: "build (demo_builder ()) = Inr (demo_graph ())"
  using demo_is_ok by (cases "build (demo_builder ())") (auto simp: demo_graph_def)

text \<open>
  C1: \<open>GraphBuilder::build\<close> gives a graph exactly when the description obeys every build rule:
  the version and the names are legal, node names, edge names and entries are distinct, entries,
  sources and targets name nodes, every node has exactly one edge, every node is reached from an
  entry and \<open>END\<close> is reached from every node. The structure of the graph is then the description,
  sorted by name.
\<close>

theorem build_iff_valid:
  "case build b of
     Inr g \<Rightarrow> valid_shape (builder_shape b) \<and> g_structure g = sorted_shape (builder_shape b)
   | Inl _ \<Rightarrow> \<not> valid_shape (builder_shape b)"
  by (auto simp: build_def from_shape_def Let_def validate_shape_iff valid_shape_sorted bind_sum_def
      split: sum.splits dest: validate_shape_Inl)

text \<open>
  C3: the structure does not depend on the order in which nodes, edges and entries were
  registered: two valid descriptions with the same elements give the same structure.
\<close>

theorem from_shape_order_irrelevant:
  assumes "from_shape a = Inr st"
    and "version b = version a" "mset (entries b) = mset (entries a)"
    and "mset (nodes b) = mset (nodes a)" "mset (edges b) = mset (edges a)"
  shows "from_shape b = Inr st"
proof -
  from assms(1) have v: "valid_shape a" and st: "st = sorted_shape a" by (simp_all add: from_shape_Inr_iff)
  have "sort (entries b) = sort (entries a)" using assms(3) by (metis sorted_list_of_multiset_mset)
  moreover have "sort_key node_name (nodes b) = sort_key node_name (nodes a)"
    using assms(4) valid_shapeD(2)[OF v] sort_key_perm[of "nodes a" "nodes b" node_name]
    by (simp add: node_names_def)
  moreover have "sort_key edge_name (edges b) = sort_key edge_name (edges a)"
    using assms(5) valid_shapeD(1)[OF v] sort_key_perm[of "edges a" "edges b" edge_name]
    by (simp add: well_formed_def)
  ultimately have "sorted_shape b = sorted_shape a"
    using assms(2) by (simp add: sorted_shape_def)
  then show ?thesis using assms(1) by (simp add: from_shape_def)
qed

theorem from_shape_order_irrelevant_witness:
  "from_shape (builder_shape (demo_builder ())\<lparr>nodes := rev (nodes (builder_shape (demo_builder ())))\<rparr>)
   = Inr (g_structure (demo_graph ()))"
proof -
  have a: "from_shape (builder_shape (demo_builder ())) = Inr (g_structure (demo_graph ()))"
    using demo_build by (auto simp: build_Inr_iff from_shape_Inr_iff)
  show ?thesis by (rule from_shape_order_irrelevant[OF a]) simp_all
qed

text \<open>
  C2: evaluating an edge of a built graph checks what the edge returned against its declaration.
  An empty answer, \<open>END\<close> together with nodes, and a target the edge did not declare (the first of
  them is named) are errors in this order; otherwise the targets are given once each, in the
  order of the declaration. An error or a panic of the edge itself comes out as it is.
\<close>

theorem evaluate_edge_checks:
  assumes "build b = Inr g" and "(m, e) \<in> set (b_edges b)"
  shows "evaluate_edge g (edge_source m) s = (case ei_evaluate e s of
      Panic t \<Rightarrow> Panic t
    | Err c \<Rightarrow> Err (EdgeFailed c)
    | Ret returned \<Rightarrow>
        if returned = [] then Err (EdgeEmptyTargets (edge_source m))
        else if End \<in> set returned \<and> (\<exists>t \<in> set returned. t \<noteq> End)
          then Err (EdgeEndMixedWithNodes (edge_source m))
        else case find (\<lambda>t. t \<notin> set (edge_targets m)) returned of
          Some t \<Rightarrow> Err (EdgeUndeclaredTarget (edge_source m) t)
        | None \<Rightarrow> Ret (filter (\<lambda>t. t \<in> set returned) (edge_targets m)))"
proof -
  from assms(1) have v: "valid_shape (builder_shape b)" by (auto simp: build_Inr_iff)
  have ent: "g_edges g (edge_source m) = Some (edge_entry_new e (edge_targets m))"
    by (rule build_edge_entry[OF assms])
  have "valid_edge (set (node_names (builder_shape b))) m"
    using valid_shapeD(1)[OF v] assms(2) by (force simp: well_formed_def list_all_iff builder_shape_def)
  then have dm: "distinct (edge_targets m)" by (simp add: valid_edge_def)
  have edge: "ee_edge (edge_entry_new e (edge_targets m)) = e" by (simp add: edge_entry_new_def)
  show ?thesis
    unfolding evaluate_edge_def ent option.case edge check_returned_eq[OF dm]
    by (auto simp: bind_comp_def map_err_def split: comp.splits option.splits)
qed

theorem evaluate_edge_checks_witness:
  "evaluate_edge (demo_graph ()) ''ask'' \<lparr>fields_of = 1, limit_of = 9, size_of = 1\<rparr> = Ret [Node ''tell'']"
proof -
  let ?m = "\<lparr>edge_name = ''from_ask'', edge_source = ''ask'', edge_targets = [Node ''tell'', End]\<rparr>"
  have "(?m, demo_ask) \<in> set (b_edges (demo_builder ()))"
    by (simp add: demo_builder_def builder_entry_def builder_edge_def builder_node_def
         builder_new_def demo_ask_def)
  from evaluate_edge_checks[OF demo_build this, of "\<lparr>fields_of = 1, limit_of = 9, size_of = 1\<rparr>"]
  show ?thesis by (simp add: demo_ask_def)
qed

lemma graph_ok_targets:
  assumes ok: "graph_ok g"
  shows "(case evaluate_edge g node s of
      Ret ts \<Rightarrow> node \<in> set (node_names (g_structure g)) \<and>
        (ts = [End] \<or> (ts \<noteq> [] \<and> distinct ts
          \<and> set ts \<subseteq> Node ` set (node_names (g_structure g))))
    | Err (EdgeUnknownNode n) \<Rightarrow> n = node \<and> node \<notin> set (node_names (g_structure g))
    | _ \<Rightarrow> node \<in> set (node_names (g_structure g)))"
proof (cases "g_edges g node")
  case None
  then have "node \<notin> dom (g_edges g)" by blast
  then have "node \<notin> set (node_names (g_structure g))"
    using ok by (simp add: graph_ok_def)
  with None show ?thesis by (simp add: evaluate_edge_def)
next
  case (Some entry)
  then have node: "node \<in> set (node_names (g_structure g))"
    using ok by (auto simp: graph_ok_def)
  from graph_ok_declared[OF ok Some] obtain e m where
    entry: "entry = edge_entry_new e (edge_targets m)" and "valid_edge (set (node_names (g_structure g))) m"
    by blast
  then have d: "distinct (edge_targets m)"
    and known: "\<And>t. t \<in> set (edge_targets m) \<Longrightarrow> target_known (set (node_names (g_structure g))) t"
    by (auto simp: valid_edge_def list_all_iff)
  have given: "ts = [End] \<or> (ts \<noteq> [] \<and> distinct ts \<and> set ts \<subseteq> Node ` set (node_names (g_structure g)))"
    if "check_returned node entry returned = Inr ts" for returned ts
    using that d known unfolding entry check_returned_eq[OF d]
    by (rule returned_targets_ok)
  show ?thesis
    using node given unfolding evaluate_edge_def Some
    by (cases "ei_evaluate (ee_edge entry) s") (auto simp: check_returned_no_unknown split: sum.split edge_error.split)
qed

text \<open>
  what an evaluation of a built graph gives can always be followed: it is \<open>[END]\<close> alone, or a
  non-empty list of distinct nodes of the graph. \<open>UnknownNode\<close> is given only for a name that is
  not a node of the graph.
\<close>

theorem evaluate_edge_targets_exist:
  assumes "build b = Inr g"
  shows "(case evaluate_edge g node s of
      Ret ts \<Rightarrow> node \<in> set (node_names (g_structure g)) \<and>
        (ts = [End] \<or> (ts \<noteq> [] \<and> distinct ts
          \<and> set ts \<subseteq> Node ` set (node_names (g_structure g))))
    | Err (EdgeUnknownNode n) \<Rightarrow> n = node \<and> node \<notin> set (node_names (g_structure g))
    | _ \<Rightarrow> node \<in> set (node_names (g_structure g)))"
  by (rule graph_ok_targets[OF build_graph_ok[OF assms]])

theorem evaluate_edge_targets_exist_witness:
  "\<exists>ts. evaluate_edge (demo_graph ()) ''ask'' \<lparr>fields_of = 5, limit_of = 9, size_of = 1\<rparr> = Ret ts \<and> ts = [End]"
proof -
  have "evaluate_edge (demo_graph ()) ''ask'' \<lparr>fields_of = 5, limit_of = 9, size_of = 1\<rparr> = Ret [End]"
    by code_simp
  with evaluate_edge_targets_exist[OF demo_build, of "''ask''" "\<lparr>fields_of = 5, limit_of = 9, size_of = 1\<rparr>"]
  show ?thesis by simp
qed

end
