(* ===== verification/Graph_Wire.thy ===== *)
theory Graph_Wire
  imports Graph_Value
begin

text \<open>
  The stored form of a structure: \<open>graph/wire.rs\<close>, the \<open>Serialize\<close> derives of
  \<open>graph/structure.rs\<close> and the (de)serializers of \<open>target.rs\<close>, over a JSON document. Turning text
  into a document is serde_json's work and the parameter \<open>read_json\<close>; a member of an object keeps
  its place, and a name may occur twice. The data errors are the constructors serde has for them.
\<close>

section \<open>Documents and errors\<close>

datatype json =
  JNull
| JBool bool
| JNum string
| JStr string
| JArr "json list"
| JObj "(string \<times> json) list"

datatype wire_error =
  InvalidType string
| UnknownField string
| DuplicateField string
| MissingField string

section \<open>Serializing\<close>

definition ser_target :: "target \<Rightarrow> json" where
  "ser_target t = JStr (target_as_str t)"

definition ser_node :: "structure_node \<Rightarrow> json" where
  "ser_node n = JObj [(''name'', JStr (node_name n)), (''kind'', JStr (node_kind n)),
     (''subkind'', JStr (node_subkind n))]"

definition ser_edge :: "structure_edge \<Rightarrow> json" where
  "ser_edge e = JObj [(''name'', JStr (edge_name e)), (''source'', JStr (edge_source e)),
     (''targets'', JArr (map ser_target (edge_targets e)))]"

definition ser_structure :: "graph_structure \<Rightarrow> json" where
  "ser_structure st = JObj [(''version'', JStr (version st)),
     (''entries'', JArr (map JStr (entries st))),
     (''nodes'', JArr (map ser_node (nodes st))),
     (''edges'', JArr (map ser_edge (edges st)))]"

section \<open>Deserializing\<close>

definition de_string :: "json \<Rightarrow> wire_error + string" where
  "de_string j = (case j of JStr s \<Rightarrow> Inr s | _ \<Rightarrow> Inl (InvalidType ''a string''))"

fun de_all :: "('j \<Rightarrow> wire_error + 'a) \<Rightarrow> 'j list \<Rightarrow> wire_error + 'a list" where
  "de_all d [] = Inr []"
| "de_all d (j # js) = bind_sum (d j) (\<lambda>x. bind_sum (de_all d js) (\<lambda>xs. Inr (x # xs)))"

definition de_list :: "(json \<Rightarrow> wire_error + 'a) \<Rightarrow> json \<Rightarrow> wire_error + 'a list" where
  "de_list d j = (case j of JArr js \<Rightarrow> de_all d js | _ \<Rightarrow> Inl (InvalidType ''a sequence''))"

definition de_target :: "json \<Rightarrow> wire_error + target" where
  "de_target j = bind_sum (de_string j) (\<lambda>s. Inr (target_from s))"

text \<open>\<open>fill\<close> refuses a field seen before without reading its value.\<close>

definition fill ::
  "'a option \<Rightarrow> string \<Rightarrow> (json \<Rightarrow> wire_error + 'a) \<Rightarrow> json \<Rightarrow> wire_error + 'a option" where
  "fill slot field d j =
     (if slot \<noteq> None then Inl (DuplicateField field) else bind_sum (d j) (\<lambda>x. Inr (Some x)))"

definition required :: "'a option \<Rightarrow> string \<Rightarrow> wire_error + 'a" where
  "required slot field = (case slot of None \<Rightarrow> Inl (MissingField field) | Some x \<Rightarrow> Inr x)"

text \<open>\<open>deserialize_struct\<close> with a visitor that has only \<open>visit_map\<close>: a document that is not an
  object, a positional array among them, is refused.\<close>

definition visit_map ::
  "string \<Rightarrow> ('s \<Rightarrow> string \<times> json \<Rightarrow> wire_error + 's) \<Rightarrow> 's \<Rightarrow> ('s \<Rightarrow> wire_error + 'a) \<Rightarrow>
     json \<Rightarrow> wire_error + 'a" where
  "visit_map expected step s done_with j = (case j of
     JObj kvs \<Rightarrow> bind_sum (for_each step s kvs) done_with
   | _ \<Rightarrow> Inl (InvalidType expected))"

datatype node_field = NFName | NFKind | NFSubkind
datatype edge_field = EFName | EFSource | EFTargets
datatype shape_field = SFVersion | SFEntries | SFNodes | SFEdges

definition node_field_of :: "string \<Rightarrow> wire_error + node_field" where
  "node_field_of k = (if k = ''name'' then Inr NFName else if k = ''kind'' then Inr NFKind
     else if k = ''subkind'' then Inr NFSubkind else Inl (UnknownField k))"

definition edge_field_of :: "string \<Rightarrow> wire_error + edge_field" where
  "edge_field_of k = (if k = ''name'' then Inr EFName else if k = ''source'' then Inr EFSource
     else if k = ''targets'' then Inr EFTargets else Inl (UnknownField k))"

definition shape_field_of :: "string \<Rightarrow> wire_error + shape_field" where
  "shape_field_of k = (if k = ''version'' then Inr SFVersion else if k = ''entries'' then Inr SFEntries
     else if k = ''nodes'' then Inr SFNodes else if k = ''edges'' then Inr SFEdges
     else Inl (UnknownField k))"

record node_slots =
  ns_name :: "string option"
  ns_kind :: "string option"
  ns_subkind :: "string option"

definition node_slot_step :: "node_slots \<Rightarrow> string \<times> json \<Rightarrow> wire_error + node_slots" where
  "node_slot_step s kv = bind_sum (node_field_of (fst kv)) (\<lambda>f. case f of
     NFName \<Rightarrow> bind_sum (fill (ns_name s) ''name'' de_string (snd kv)) (\<lambda>x. Inr (s\<lparr>ns_name := x\<rparr>))
   | NFKind \<Rightarrow> bind_sum (fill (ns_kind s) ''kind'' de_string (snd kv)) (\<lambda>x. Inr (s\<lparr>ns_kind := x\<rparr>))
   | NFSubkind \<Rightarrow>
       bind_sum (fill (ns_subkind s) ''subkind'' de_string (snd kv)) (\<lambda>x. Inr (s\<lparr>ns_subkind := x\<rparr>)))"

definition de_node :: "json \<Rightarrow> wire_error + structure_node" where
  "de_node = visit_map ''a map with name, kind and subkind'' node_slot_step
     \<lparr>ns_name = None, ns_kind = None, ns_subkind = None\<rparr> (\<lambda>s.
       bind_sum (required (ns_name s) ''name'') (\<lambda>n.
       bind_sum (required (ns_kind s) ''kind'') (\<lambda>k.
       bind_sum (required (ns_subkind s) ''subkind'') (\<lambda>sk.
         Inr \<lparr>node_name = n, node_kind = k, node_subkind = sk\<rparr>))))"

record edge_slots =
  es_name :: "string option"
  es_source :: "string option"
  es_targets :: "target list option"

definition edge_slot_step :: "edge_slots \<Rightarrow> string \<times> json \<Rightarrow> wire_error + edge_slots" where
  "edge_slot_step s kv = bind_sum (edge_field_of (fst kv)) (\<lambda>f. case f of
     EFName \<Rightarrow> bind_sum (fill (es_name s) ''name'' de_string (snd kv)) (\<lambda>x. Inr (s\<lparr>es_name := x\<rparr>))
   | EFSource \<Rightarrow> bind_sum (fill (es_source s) ''source'' de_string (snd kv)) (\<lambda>x. Inr (s\<lparr>es_source := x\<rparr>))
   | EFTargets \<Rightarrow> bind_sum (fill (es_targets s) ''targets'' (de_list de_target) (snd kv))
       (\<lambda>x. Inr (s\<lparr>es_targets := x\<rparr>)))"

definition de_edge :: "json \<Rightarrow> wire_error + structure_edge" where
  "de_edge = visit_map ''a map with name, source and targets'' edge_slot_step
     \<lparr>es_name = None, es_source = None, es_targets = None\<rparr> (\<lambda>s.
       bind_sum (required (es_name s) ''name'') (\<lambda>n.
       bind_sum (required (es_source s) ''source'') (\<lambda>src.
       bind_sum (required (es_targets s) ''targets'') (\<lambda>ts.
         Inr \<lparr>edge_name = n, edge_source = src, edge_targets = ts\<rparr>))))"

record shape_slots =
  ss_version :: "string option"
  ss_entries :: "string list option"
  ss_nodes :: "structure_node list option"
  ss_edges :: "structure_edge list option"

definition shape_slot_step :: "shape_slots \<Rightarrow> string \<times> json \<Rightarrow> wire_error + shape_slots" where
  "shape_slot_step s kv = bind_sum (shape_field_of (fst kv)) (\<lambda>f. case f of
     SFVersion \<Rightarrow> bind_sum (fill (ss_version s) ''version'' de_string (snd kv))
       (\<lambda>x. Inr (s\<lparr>ss_version := x\<rparr>))
   | SFEntries \<Rightarrow> bind_sum (fill (ss_entries s) ''entries'' (de_list de_string) (snd kv))
       (\<lambda>x. Inr (s\<lparr>ss_entries := x\<rparr>))
   | SFNodes \<Rightarrow> bind_sum (fill (ss_nodes s) ''nodes'' (de_list de_node) (snd kv))
       (\<lambda>x. Inr (s\<lparr>ss_nodes := x\<rparr>))
   | SFEdges \<Rightarrow> bind_sum (fill (ss_edges s) ''edges'' (de_list de_edge) (snd kv))
       (\<lambda>x. Inr (s\<lparr>ss_edges := x\<rparr>)))"

definition de_shape :: "json \<Rightarrow> wire_error + shape" where
  "de_shape = visit_map ''a map with version, entries, nodes and edges'' shape_slot_step
     \<lparr>ss_version = None, ss_entries = None, ss_nodes = None, ss_edges = None\<rparr> (\<lambda>s.
       bind_sum (required (ss_version s) ''version'') (\<lambda>v.
       bind_sum (required (ss_entries s) ''entries'') (\<lambda>en.
       bind_sum (required (ss_nodes s) ''nodes'') (\<lambda>ns.
       bind_sum (required (ss_edges s) ''edges'') (\<lambda>es.
         Inr \<lparr>version = v, entries = en, nodes = ns, edges = es\<rparr>)))))"

datatype structure_error = Malformed wire_error | Rule build_error

text \<open>\<open>Structure::from_json_slice\<close> on a document that serde_json could read; other text is malformed
  before these checks.\<close>

definition from_json :: "json \<Rightarrow> structure_error + graph_structure" where
  "from_json j = bind_sum (map_inl Malformed (de_shape j)) (\<lambda>sh. map_inl Rule (from_shape sh))"

section \<open>Lemmas\<close>

lemma de_string_JStr [simp]: "de_string (JStr s) = Inr s"
  by (simp add: de_string_def)

lemma de_all_map: "(\<And>x. x \<in> set xs \<Longrightarrow> d (f x) = Inr x) \<Longrightarrow> de_all d (map f xs) = Inr xs"
  by (induction xs) auto

lemmas slot_defs = visit_map_def fill_def required_def de_list_def

lemma de_node_ser: "de_node (ser_node n) = Inr n"
  by (simp add: de_node_def ser_node_def slot_defs node_slot_step_def node_field_of_def)

lemma de_target_ser: "t \<noteq> Node END_NAME \<Longrightarrow> de_target (ser_target t) = Inr t"
  by (simp add: de_target_def ser_target_def de_string_def target_from_as_str)

lemma de_edge_ser:
  assumes "Node END_NAME \<notin> set (edge_targets e)"
  shows "de_edge (ser_edge e) = Inr e"
proof -
  have "de_all de_target (map ser_target (edge_targets e)) = Inr (edge_targets e)"
    using assms by (intro de_all_map de_target_ser) auto
  then show ?thesis
    by (simp add: de_edge_def ser_edge_def slot_defs edge_slot_step_def edge_field_of_def)
qed

lemma de_shape_ser:
  assumes "\<And>e. e \<in> set (edges st) \<Longrightarrow> Node END_NAME \<notin> set (edge_targets e)"
  shows "de_shape (ser_structure st) = Inr st"
proof -
  have "de_all de_edge (map ser_edge (edges st)) = Inr (edges st)"
    using assms by (intro de_all_map de_edge_ser)
  moreover have "de_all de_node (map ser_node (nodes st)) = Inr (nodes st)"
    by (intro de_all_map de_node_ser)
  moreover have "de_all de_string (map JStr (entries st)) = Inr (entries st)"
    by (intro de_all_map) (simp add: de_string_def)
  ultimately show ?thesis
    by (simp add: de_shape_def ser_structure_def slot_defs shape_slot_step_def shape_field_of_def)
qed

lemma valid_shape_no_end_node:
  assumes "valid_shape st" "e \<in> set (edges st)"
  shows "Node END_NAME \<notin> set (edge_targets e)"
proof
  assume "Node END_NAME \<in> set (edge_targets e)"
  moreover have "valid_edge (set (node_names st)) e"
    using assms valid_shapeD(1) by (auto simp: well_formed_def list_all_iff)
  ultimately have "END_NAME \<in> set (node_names st)"
    by (auto simp: valid_edge_def list_all_iff target_known_def)
  then have "is_node_name END_NAME"
    using valid_shapeD(1)[OF assms(1)]
    by (auto simp: well_formed_def list_all_iff node_names_def valid_node_def)
  then show False using node_name_not_END by blast
qed

text \<open>A loop whose step fills one free slot, named by the key, fills each slot once.\<close>

lemma for_each_fills:
  assumes "\<And>s k v s'. step s (k, v) = Inr s' \<Longrightarrow>
      k \<in> names \<and> k \<notin> filled s \<and> filled s' = insert k (filled s)"
  shows "for_each step s kvs = Inr s' \<Longrightarrow>
    distinct (map fst kvs) \<and> set (map fst kvs) \<subseteq> names \<and> set (map fst kvs) \<inter> filled s = {}
    \<and> filled s' = filled s \<union> set (map fst kvs)"
proof (induction kvs arbitrary: s)
  case Nil
  then show ?case by simp
next
  case (Cons kv kvs)
  obtain k v where kv: "kv = (k, v)" by (cases kv)
  from Cons.prems obtain s1 where s1: "step s (k, v) = Inr s1" and rest: "for_each step s1 kvs = Inr s'"
    by (auto simp: kv split: sum.splits)
  from assms[OF s1] Cons.IH[OF rest] show ?case by (auto simp: kv)
qed

definition opt_name :: "'a option \<Rightarrow> string \<Rightarrow> string set" where
  "opt_name slot k = (case slot of None \<Rightarrow> {} | Some _ \<Rightarrow> {k})"

lemma opt_name_simps [simp]: "opt_name None k = {}" "opt_name (Some x) k = {k}"
  by (simp_all add: opt_name_def)

lemma in_opt_name: "x \<in> opt_name slot k \<longleftrightarrow> slot \<noteq> None \<and> x = k"
  by (cases slot) auto

definition shape_filled :: "shape_slots \<Rightarrow> string set" where
  "shape_filled s = opt_name (ss_version s) ''version'' \<union> opt_name (ss_entries s) ''entries''
     \<union> opt_name (ss_nodes s) ''nodes'' \<union> opt_name (ss_edges s) ''edges''"

definition shape_names :: "string set" where
  "shape_names = {''version''} \<union> {''entries''} \<union> {''nodes''} \<union> {''edges''}"

lemma fill_Inr_iff: "fill slot f d j = Inr x \<longleftrightarrow> slot = None \<and> (\<exists>y. d j = Inr y \<and> x = Some y)"
  by (auto simp: fill_def bind_sum_Inr_iff)

lemma shape_field_of_Inr:
  "shape_field_of k = Inr f \<longleftrightarrow> k = (case f of SFVersion \<Rightarrow> ''version'' | SFEntries \<Rightarrow> ''entries''
     | SFNodes \<Rightarrow> ''nodes'' | SFEdges \<Rightarrow> ''edges'')"
  by (cases f) (simp_all add: shape_field_of_def)

lemma shape_slot_step_fills:
  assumes "shape_slot_step s (k, v) = Inr s'"
  shows "k \<in> shape_names \<and> k \<notin> shape_filled s \<and> shape_filled s' = insert k (shape_filled s)"
proof -
  from assms obtain f where f: "shape_field_of k = Inr f"
    by (auto simp: shape_slot_step_def bind_sum_Inr_iff)
  then have k: "k = (case f of SFVersion \<Rightarrow> ''version'' | SFEntries \<Rightarrow> ''entries''
     | SFNodes \<Rightarrow> ''nodes'' | SFEdges \<Rightarrow> ''edges'')" by (simp only: shape_field_of_Inr)
  note unfold = shape_slot_step_def fst_conv snd_conv f bind_sum_simps shape_field.case bind_sum_Inr_iff
    fill_Inr_iff
  show ?thesis
  proof (cases f)
    case SFVersion
    from assms obtain x where "ss_version s = None" "s' = s\<lparr>ss_version := Some x\<rparr>"
      unfolding unfold SFVersion by auto
    then show ?thesis
      unfolding k SFVersion by (simp add: shape_names_def shape_filled_def in_opt_name)
  next
    case SFEntries
    from assms obtain x where "ss_entries s = None" "s' = s\<lparr>ss_entries := Some x\<rparr>"
      unfolding unfold SFEntries by auto
    then show ?thesis
      unfolding k SFEntries by (simp add: shape_names_def shape_filled_def in_opt_name)
  next
    case SFNodes
    from assms obtain x where "ss_nodes s = None" "s' = s\<lparr>ss_nodes := Some x\<rparr>"
      unfolding unfold SFNodes by auto
    then show ?thesis
      unfolding k SFNodes by (simp add: shape_names_def shape_filled_def in_opt_name)
  next
    case SFEdges
    from assms obtain x where "ss_edges s = None" "s' = s\<lparr>ss_edges := Some x\<rparr>"
      unfolding unfold SFEdges by auto
    then show ?thesis
      unfolding k SFEdges by (simp add: shape_names_def shape_filled_def in_opt_name)
  qed
qed

lemma shape_names_eq: "shape_names = {''version'', ''entries'', ''nodes'', ''edges''}"
proof -
  have "{a} \<union> {b} \<union> {c} \<union> {d} = {a, b, c, d}" for a b c d :: string by blast
  then show ?thesis by (simp only: shape_names_def)
qed

lemma de_shape_all_fields:
  assumes "de_shape j = Inr sh"
  shows "\<exists>kvs. j = JObj kvs \<and> distinct (map fst kvs) \<and> set (map fst kvs) = shape_names"
proof -
  let ?s0 = "\<lparr>ss_version = None, ss_entries = None, ss_nodes = None, ss_edges = None\<rparr>"
  from assms obtain kvs s where j: "j = JObj kvs"
    and loop: "for_each shape_slot_step ?s0 kvs = Inr s"
    and full: "ss_version s \<noteq> None" "ss_entries s \<noteq> None" "ss_nodes s \<noteq> None" "ss_edges s \<noteq> None"
    by (auto simp: de_shape_def visit_map_def bind_sum_Inr_iff required_def
        split: json.splits option.splits)
  have "shape_filled ?s0 = {}" by (simp add: shape_filled_def)
  with for_each_fills[where names = shape_names and filled = shape_filled,
      OF shape_slot_step_fills loop]
  have "distinct (map fst kvs)" "shape_filled s = set (map fst kvs)" by auto
  moreover have "shape_filled s = shape_names"
    using full by (clarsimp simp: shape_filled_def shape_names_def)
  ultimately show ?thesis using j by simp
qed

text \<open>
  a structure that was stored is read back as it was: for every structure the crate can hold,
  reading the document its \<open>Serialize\<close> writes gives the same structure.
\<close>

theorem structure_roundtrip:
  assumes "from_shape sh = Inr st"
  shows "from_json (ser_structure st) = Inr st"
proof -
  from assms have v: "valid_shape sh" and st: "st = sorted_shape sh" by (simp_all add: from_shape_Inr_iff)
  then have vs: "valid_shape st" by (simp add: valid_shape_sorted)
  have "de_shape (ser_structure st) = Inr st"
    by (rule de_shape_ser) (rule valid_shape_no_end_node[OF vs])
  moreover have "from_shape st = Inr st"
    using vs by (simp add: from_shape_Inr_iff st sorted_shape_idem)
  ultimately show ?thesis by (simp add: from_json_def)
qed

theorem structure_roundtrip_witness:
  "from_json (ser_structure (g_structure (demo_graph ()))) = Inr (g_structure (demo_graph ()))"
proof -
  have "from_shape (builder_shape (demo_builder ())) = Inr (g_structure (demo_graph ()))"
    using demo_build by (auto simp: build_Inr_iff from_shape_Inr_iff)
  then show ?thesis by (rule structure_roundtrip)
qed

text \<open>
  only a complete description is read: a document accepted as a structure is an object with
  each of the four fields exactly once and no other field, and what it describes obeys the build
  rules. A positional array is refused.
\<close>

theorem from_json_strict:
  assumes "from_json j = Inr st"
  shows "\<exists>kvs. j = JObj kvs \<and> distinct (map fst kvs)
      \<and> set (map fst kvs) = {''version'', ''entries'', ''nodes'', ''edges''}
      \<and> valid_shape st \<and> sorted_shape st = st"
proof -
  from assms obtain sh where sh: "de_shape j = Inr sh" and st: "from_shape sh = Inr st"
    by (auto simp: from_json_def bind_sum_Inr_iff)
  from st have ok: "valid_shape st" "sorted_shape st = st"
    by (auto simp: from_shape_Inr_iff valid_shape_sorted sorted_shape_idem)
  with de_shape_all_fields[OF sh] show ?thesis unfolding shape_names_eq by blast
qed

theorem from_json_strict_witness:
  "\<exists>st kvs. from_json (JObj [(''edges'', JArr [JObj [(''targets'', JArr [JStr ''END'']),
       (''source'', JStr ''a''), (''name'', JStr ''e'')]]),
     (''nodes'', JArr [JObj [(''subkind'', JStr ''s''), (''name'', JStr ''a''), (''kind'', JStr ''k'')]]),
     (''version'', JStr ''1''), (''entries'', JArr [JStr ''a''])]) = Inr st \<and> valid_shape st"
  (is "\<exists>st kvs. from_json ?j = _ \<and> _")
proof -
  have "is_ok (from_json ?j)" by code_simp
  then obtain st where "from_json ?j = Inr st" by (cases "from_json ?j") auto
  with from_json_strict[OF this] show ?thesis by blast
qed

end
