(* ===== verification/Wakers.thy ===== *)
theory Wakers
  imports Prelude "HOL-Library.Word" "HOL-Library.AList"
begin

text \<open>
  Wakers of tasks: \<open>br-graph-contract/src/waiters.rs\<close> and \<open>remember\<close> of
  \<open>instance/lifecycle.rs\<close>. A waker is the task it wakes and, for a waker whose \<open>wake\<close> panics, the
  text of the panic; \<open>will_wake\<close> is equality. What an operation hands back to be dropped after
  the lock is released is its last result.
\<close>

section \<open>Waking\<close>

datatype waker = Waker (task: nat) (wake_panic: "string option")

fun wake_all_loop :: "waker list \<Rightarrow> waker list \<Rightarrow> string option \<Rightarrow> waker list \<times> string option" where
  "wake_all_loop [] woken first_panic = (woken, first_panic)"
| "wake_all_loop (w # ws) woken first_panic = wake_all_loop ws (woken @ [w])
     (case wake_panic w of
        None \<Rightarrow> first_panic
      | Some payload \<Rightarrow> (case first_panic of None \<Rightarrow> Some payload | Some p \<Rightarrow> Some p))"

definition wake_all_isolated :: "waker list \<Rightarrow> waker list \<times> string option" where
  "wake_all_isolated ws = wake_all_loop ws [] None"

lemma wake_all_loop_eq:
  "wake_all_loop ws woken p = (woken @ ws,
     case p of Some t \<Rightarrow> Some t | None \<Rightarrow> (case List.map_filter wake_panic ws of [] \<Rightarrow> None | t # _ \<Rightarrow> Some t))"
  by (induction ws arbitrary: woken p) (auto simp: List.map_filter_simps split: option.splits list.splits)

lemma wake_all_isolated_eq:
  "wake_all_isolated ws =
     (ws, case List.map_filter wake_panic ws of [] \<Rightarrow> None | t # _ \<Rightarrow> Some t)"
  by (simp add: wake_all_isolated_def wake_all_loop_eq)

text \<open>\<open>remember\<close>: the waker kept and the one handed back.\<close>

definition remember :: "waker option \<Rightarrow> waker \<Rightarrow> waker option \<times> waker option" where
  "remember slot w = (case slot of
     Some existing \<Rightarrow> if existing = w then (Some existing, Some w) else (Some w, Some existing)
   | None \<Rightarrow> (Some w, None))"

lemma remember_keeps [simp]: "fst (remember slot w) = Some w"
  by (auto simp: remember_def split: option.splits)

section \<open>The registry of waiters\<close>

record waiters =
  next_key :: "64 word"
  slots :: "(64 word \<times> waker) list"

definition waiters_default :: waiters where
  "waiters_default = \<lparr>next_key = 0, slots = []\<rparr>"

definition register ::
  "waiters \<Rightarrow> 64 word option \<Rightarrow> waker \<Rightarrow> waiters \<times> 64 word option \<times> waker option" where
  "register ws key w = (case key of
     None \<Rightarrow> (ws\<lparr>next_key := next_key ws + 1, slots := AList.update (next_key ws) w (slots ws)\<rparr>,
              Some (next_key ws), None)
   | Some existing \<Rightarrow> (case map_of (slots ws) existing of
       Some slot \<Rightarrow> if slot = w then (ws, key, Some w)
         else (ws\<lparr>slots := AList.update existing w (slots ws)\<rparr>, key, Some slot)
     | None \<Rightarrow> (ws\<lparr>slots := AList.update existing w (slots ws)\<rparr>, key, None)))"

definition remove_waiter :: "waiters \<Rightarrow> 64 word \<Rightarrow> waiters \<times> waker option" where
  "remove_waiter ws key = (ws\<lparr>slots := AList.delete key (slots ws)\<rparr>, map_of (slots ws) key)"

definition drain_waiters :: "waiters \<Rightarrow> waiters \<times> waker list" where
  "drain_waiters ws = (ws\<lparr>slots := []\<rparr>, map snd (slots ws))"

definition held :: "waiters \<Rightarrow> 64 word \<Rightarrow> waker option" where
  "held ws = map_of (slots ws)"

definition waiters_ok :: "waiters \<Rightarrow> bool" where
  "waiters_ok ws \<longleftrightarrow> distinct (map fst (slots ws))"

section \<open>The contract of a registry\<close>

text \<open>
  What the instance channel and the cancellation token rely on: a registered waker is held under
  its key, other keys are left alone, a removed key holds nothing, and draining hands out every
  held waker and leaves none.
\<close>

locale waiter_registry =
  fixes reg :: "'r \<Rightarrow> 'k option \<Rightarrow> 'w \<Rightarrow> 'r \<times> 'k option \<times> 'w option"
    and rem :: "'r \<Rightarrow> 'k \<Rightarrow> 'r \<times> 'w option"
    and drn :: "'r \<Rightarrow> 'r \<times> 'w list"
    and look :: "'r \<Rightarrow> 'k \<Rightarrow> 'w option"
    and ok :: "'r \<Rightarrow> bool"
  assumes reg_ok: "ok r \<Longrightarrow> ok (fst (reg r key w))"
    and reg_key: "\<exists>k. fst (snd (reg r key w)) = Some k \<and> (key = None \<or> key = Some k)"
    and reg_look: "ok r \<Longrightarrow> fst (snd (reg r key w)) = Some k \<Longrightarrow>
      look (fst (reg r key w)) = (look r)(k \<mapsto> w)"
    and rem_ok: "ok r \<Longrightarrow> ok (fst (rem r k))"
    and rem_look: "ok r \<Longrightarrow> look (fst (rem r k)) = (look r)(k := None)"
    and drn_ok: "ok r \<Longrightarrow> ok (fst (drn r))"
    and drn_look: "ok r \<Longrightarrow> look (fst (drn r)) = Map.empty"
    and drn_all: "ok r \<Longrightarrow> set (snd (drn r)) = ran (look r)"
begin

lemma drained_after_register:
  assumes "ok r"
  shows "w \<in> set (snd (drn (fst (reg r key w))))"
proof -
  obtain k where k: "fst (snd (reg r key w)) = Some k" using reg_key by blast
  have "look (fst (reg r key w)) k = Some w" using reg_look[OF assms k] by simp
  then show ?thesis using drn_all[OF reg_ok[OF assms]] by (auto simp: ran_def)
qed

lemma held_is_drained: "ok r \<Longrightarrow> look r k = Some w \<Longrightarrow> w \<in> set (snd (drn r))"
  by (auto simp: drn_all ran_def)

lemma register_keeps:
  assumes "ok r" "look r k = Some v" "key \<noteq> Some k" "fst (snd (reg r key w)) \<noteq> Some k"
  shows "look (fst (reg r key w)) k = Some v"
proof -
  obtain k' where k': "fst (snd (reg r key w)) = Some k'" using reg_key by blast
  with assms(4) reg_look[OF assms(1) k'] assms(2) show ?thesis by simp
qed

lemma remove_keeps: "ok r \<Longrightarrow> look r k = Some v \<Longrightarrow> k' \<noteq> k \<Longrightarrow> look (fst (rem r k')) k = Some v"
  by (simp add: rem_look)

lemma remove_forgets:
  assumes "ok r" "\<And>k'. k' \<noteq> k \<Longrightarrow> look r k' \<noteq> Some w"
  shows "w \<notin> set (snd (drn (fst (rem r k))))"
  using assms by (auto simp: drn_all rem_ok rem_look ran_def)

end

lemma waiters_lookup [simp]: "held (ws\<lparr>slots := xs\<rparr>) = map_of xs"
  by (simp add: held_def)

interpretation wr: waiter_registry register remove_waiter drain_waiters held waiters_ok
proof unfold_locales
  fix r key w k
  show "\<exists>k. fst (snd (register r key w)) = Some k \<and> (key = None \<or> key = Some k)"
    by (auto simp: register_def split: option.splits)
  assume ok: "waiters_ok r"
  then show "waiters_ok (fst (register r key w))"
    by (auto simp: register_def waiters_ok_def distinct_update split: option.splits)
  show "held (fst (register r key w)) = (held r)(k \<mapsto> w)" if "fst (snd (register r key w)) = Some k"
    using that by (auto simp: register_def held_def update_conv' split: option.splits if_splits)
  show "waiters_ok (fst (remove_waiter r k))"
    using ok by (simp add: remove_waiter_def waiters_ok_def distinct_delete)
  show "held (fst (remove_waiter r k)) = (held r)(k := None)"
    by (simp add: remove_waiter_def held_def delete_conv')
  show "waiters_ok (fst (drain_waiters r))"
    by (simp add: drain_waiters_def waiters_ok_def)
  show "held (fst (drain_waiters r)) = Map.empty"
    by (simp add: drain_waiters_def)
  show "set (snd (drain_waiters r)) = ran (held r)"
    using ok by (force simp: drain_waiters_def held_def waiters_ok_def ran_distinct)
qed

lemma waiters_default_ok [simp]: "waiters_ok waiters_default" "held waiters_default = Map.empty"
  by (simp_all add: waiters_default_def waiters_ok_def held_def)

section \<open>Keys\<close>

text \<open>
  Keys given out come from a counter that wraps at 2^64. Until it wraps, a fresh key is one no
  waiter has: \<open>keys_below n\<close> holds after \<open>n\<close> registrations without a key.
\<close>

definition keys_below :: "nat \<Rightarrow> waiters \<Rightarrow> bool" where
  "keys_below n ws \<longleftrightarrow> unat (next_key ws) = n \<and> (\<forall>k \<in> dom (held ws). unat k < n)"

lemma keys_below_register:
  assumes "keys_below n ws" "Suc n < 2 ^ 64"
  shows "held ws (next_key ws) = None" "keys_below (Suc n) (fst (register ws None w))"
proof -
  show none: "held ws (next_key ws) = None"
    using assms(1) by (fastforce simp: keys_below_def dom_def)
  have "unat (next_key ws + 1) = Suc n"
    using assms by (simp add: keys_below_def unat_word_ariths)
  moreover have "\<forall>k \<in> dom ((held ws)(next_key ws \<mapsto> w)). unat k < Suc n"
    using assms(1) by (auto simp: keys_below_def less_Suc_eq)
  ultimately show "keys_below (Suc n) (fst (register ws None w))"
    by (simp add: keys_below_def register_def held_def update_conv')
qed

text \<open>
  waking a batch of tasks is not cut short by a waker that panics: every waker of the batch is
  woken, in order, and the panic handed on is the one of the first waker that panicked.
\<close>

theorem wake_all_isolated_wakes_all:
  "fst (wake_all_isolated ws) = ws \<and>
   snd (wake_all_isolated ws) = (case find (\<lambda>w. wake_panic w \<noteq> None) ws of
      None \<Rightarrow> None | Some w \<Rightarrow> wake_panic w)"
proof -
  have "(case List.map_filter wake_panic ws of [] \<Rightarrow> None | t # _ \<Rightarrow> Some t) =
      (case find (\<lambda>w. wake_panic w \<noteq> None) ws of None \<Rightarrow> None | Some w \<Rightarrow> wake_panic w)"
    by (induction ws) (auto simp: List.map_filter_simps split: option.splits)
  then show ?thesis by (simp add: wake_all_isolated_eq)
qed

end
