(* ===== verification/Instance_Core.thy ===== *)
theory Instance_Core
  imports Wakers
begin

text \<open>
  The core that an instance's four ends share: \<open>br-graph-contract/src/instance/core.rs\<close> and
  \<open>instance/lifecycle.rs\<close>. \<open>'i\<close> is the type of inputs, \<open>'e\<close> of terminal events. Each operation
  locks the core, changes it and returns what it does after the lock is released: \<open>outside\<close> holds
  the wakers to wake and the inputs and the event to drop.
\<close>

section \<open>State\<close>

datatype gate = Open | Closed

datatype 'e node_side = Working gate | Sent 'e | Ended | Vanished

datatype executor = Attached | Dropped

record ('i, 'e) inner =
  queue :: "'i list"
  node_side :: "'e node_side"
  executor :: executor
  reader_waker :: "waker option"
  event_waker :: "waker option"
  dropped_waiters :: waiters

datatype input_closed = InputClosed

datatype event_end_error = Finished | EndVanished

datatype 'a poll = Ready 'a | Pending

record ('i, 'e) outside =
  o_wakers :: "waker list"
  o_inputs :: "'i list"
  o_event :: "'e option"

definition outside_default :: "('i, 'e) outside" where
  "outside_default = \<lparr>o_wakers = [], o_inputs = [], o_event = None\<rparr>"

definition core_new :: "('i, 'e) inner" where
  "core_new = \<lparr>queue = [], node_side = Working Open, executor = Attached, reader_waker = None,
     event_waker = None, dropped_waiters = waiters_default\<rparr>"

definition accepts_input :: "('i, 'e) inner \<Rightarrow> bool" where
  "accepts_input c = (case node_side c of Working Open \<Rightarrow> True | _ \<Rightarrow> False)"

definition opt_list :: "'a option \<Rightarrow> 'a list" where
  "opt_list x = (case x of None \<Rightarrow> [] | Some a \<Rightarrow> [a])"

lemma opt_list_simps [simp]: "opt_list None = []" "opt_list (Some x) = [x]"
  by (simp_all add: opt_list_def)

section \<open>Operations\<close>

definition retire ::
  "('i, 'e) inner \<Rightarrow> ('i, 'e) outside \<Rightarrow> ('i, 'e) inner \<times> ('i, 'e) outside" where
  "retire c out = (c\<lparr>queue := [], reader_waker := None, event_waker := None\<rparr>,
     out\<lparr>o_inputs := queue c,
         o_wakers := o_wakers out @ opt_list (reader_waker c) @ opt_list (event_waker c)\<rparr>)"

definition give ::
  "('i, 'e) inner \<Rightarrow> 'i \<Rightarrow> ('i, 'e) inner \<times> (input_closed + unit) \<times> waker list" where
  "give c input = (if \<not> accepts_input c then (c, Inl InputClosed, [])
     else (c\<lparr>queue := queue c @ [input], reader_waker := None\<rparr>, Inr (), opt_list (reader_waker c)))"

definition close_input :: "('i, 'e) inner \<Rightarrow> ('i, 'e) inner \<times> waker list" where
  "close_input c = (case node_side c of
     Working Open \<Rightarrow>
       (c\<lparr>node_side := Working Closed, reader_waker := None\<rparr>, opt_list (reader_waker c))
   | _ \<Rightarrow> (c, []))"

definition poll_next ::
  "('i, 'e) inner \<Rightarrow> waker \<Rightarrow> ('i, 'e) inner \<times> 'i option poll \<times> waker option" where
  "poll_next c w = (case queue c of
     i # rest \<Rightarrow> (c\<lparr>queue := rest\<rparr>, Ready (Some i), None)
   | [] \<Rightarrow>
      if \<not> accepts_input c then (c, Ready None, None)
      else (case remember (reader_waker c) w of
        (kept, replaced) \<Rightarrow> (c\<lparr>reader_waker := kept\<rparr>, Pending, replaced)))"

definition forget_reader_waker :: "('i, 'e) inner \<Rightarrow> ('i, 'e) inner" where
  "forget_reader_waker c = c\<lparr>reader_waker := None\<rparr>"

definition drain :: "('i, 'e) inner \<Rightarrow> ('i, 'e) inner \<times> 'i list" where
  "drain c = (c\<lparr>queue := []\<rparr>, queue c)"

definition is_working :: "'e node_side \<Rightarrow> bool" where
  "is_working n = (case n of Working _ \<Rightarrow> True | _ \<Rightarrow> False)"

definition finish :: "('i, 'e) inner \<Rightarrow> 'e \<Rightarrow> ('i, 'e) inner \<times> ('i, 'e) outside" where
  "finish c event =
     (if is_working (node_side c) then retire (c\<lparr>node_side := Sent event\<rparr>) outside_default
      else retire c (outside_default\<lparr>o_event := Some event\<rparr>))"

definition sender_gone :: "('i, 'e) inner \<Rightarrow> ('i, 'e) inner \<times> ('i, 'e) outside" where
  "sender_gone c =
     retire (if is_working (node_side c) then c\<lparr>node_side := Vanished\<rparr> else c) outside_default"

definition detach :: "('i, 'e) inner \<Rightarrow> bool \<Rightarrow> ('i, 'e) inner \<times> ('i, 'e) outside" where
  "detach c discard_event =
     (let c = c\<lparr>executor := Dropped\<rparr>;
          (c, out) = (case node_side c of
             Sent event \<Rightarrow>
               if discard_event then (c\<lparr>node_side := Ended\<rparr>, outside_default\<lparr>o_event := Some event\<rparr>)
               else (c, outside_default)
           | Vanished \<Rightarrow> (c, outside_default)
           | _ \<Rightarrow> (c\<lparr>node_side := Ended\<rparr>, outside_default));
          (c, out) = retire c out;
          (ws, drained) = drain_waiters (dropped_waiters c)
      in (c\<lparr>dropped_waiters := ws\<rparr>, out\<lparr>o_wakers := o_wakers out @ drained\<rparr>))"

definition input_end_dropped :: "('i, 'e) inner \<Rightarrow> ('i, 'e) inner \<times> ('i, 'e) outside" where
  "input_end_dropped c = detach c False"

definition event_end_dropped :: "('i, 'e) inner \<Rightarrow> ('i, 'e) inner \<times> ('i, 'e) outside" where
  "event_end_dropped c = detach c True"

definition poll_recv ::
  "('i, 'e) inner \<Rightarrow> waker \<Rightarrow> ('i, 'e) inner \<times> (event_end_error + 'e) poll \<times> waker option" where
  "poll_recv c w = (case node_side c of
     Sent event \<Rightarrow> (c\<lparr>node_side := Ended\<rparr>, Ready (Inr event), None)
   | Ended \<Rightarrow> (c, Ready (Inl Finished), None)
   | Vanished \<Rightarrow> (c, Ready (Inl EndVanished), None)
   | Working gate \<Rightarrow> (case remember (event_waker c) w of
       (kept, replaced) \<Rightarrow> (c\<lparr>event_waker := kept\<rparr>, Pending, replaced)))"

definition forget_event_waker :: "('i, 'e) inner \<Rightarrow> ('i, 'e) inner" where
  "forget_event_waker c = c\<lparr>event_waker := None\<rparr>"

definition is_dropped :: "('i, 'e) inner \<Rightarrow> bool" where
  "is_dropped c = (executor c = Dropped)"

definition poll_dropped ::
  "('i, 'e) inner \<Rightarrow> 64 word option \<Rightarrow> waker \<Rightarrow>
     ('i, 'e) inner \<times> 64 word option \<times> unit poll \<times> waker option" where
  "poll_dropped c key w =
     (if executor c = Dropped then (c, key, Ready (), None)
      else (case register (dropped_waiters c) key w of
        (ws, key', replaced) \<Rightarrow> (c\<lparr>dropped_waiters := ws\<rparr>, key', Pending, replaced)))"

definition remove_dropped_waiter :: "('i, 'e) inner \<Rightarrow> 64 word \<Rightarrow> ('i, 'e) inner" where
  "remove_dropped_waiter c key =
     c\<lparr>dropped_waiters := fst (remove_waiter (dropped_waiters c) key)\<rparr>"

text \<open>\<open>Outside::settle\<close>: the wakers are woken, then the inputs and the event are dropped.\<close>

definition settle :: "('i, 'e) outside \<Rightarrow> waker list \<times> string option" where
  "settle out = wake_all_isolated (o_wakers out)"

section \<open>Well-formed cores\<close>

text \<open>
  A waker is kept only while its task has something to wait for: the reader while the queue is
  empty and open, the executor while no terminal event came, \<open>dropped\<close> while the executor is
  attached. Inputs are queued only while the node works for an attached executor.
\<close>

definition core_ok :: "('i, 'e) inner \<Rightarrow> bool" where
  "core_ok c \<longleftrightarrow>
     (reader_waker c \<noteq> None \<longrightarrow> queue c = [] \<and> accepts_input c)
     \<and> (event_waker c \<noteq> None \<longrightarrow> is_working (node_side c))
     \<and> (queue c \<noteq> [] \<longrightarrow> is_working (node_side c))
     \<and> (executor c = Dropped \<longrightarrow> \<not> is_working (node_side c) \<and> held (dropped_waiters c) = Map.empty)
     \<and> waiters_ok (dropped_waiters c)"

lemma is_working_simps [simp]:
  "is_working (Working g)" "\<not> is_working (Sent e)" "\<not> is_working Ended" "\<not> is_working Vanished"
  by (simp_all add: is_working_def)

lemma accepts_working: "accepts_input c \<Longrightarrow> is_working (node_side c)"
  by (auto simp: accepts_input_def split: node_side.splits)

lemma accepts_input_iff: "accepts_input c \<longleftrightarrow> node_side c = Working Open"
  by (auto simp: accepts_input_def split: node_side.splits gate.splits)

named_theorems core_ops
declare give_def [core_ops] close_input_def [core_ops] poll_next_def [core_ops]
  forget_reader_waker_def [core_ops] drain_def [core_ops] finish_def [core_ops]
  sender_gone_def [core_ops] retire_def [core_ops] poll_recv_def [core_ops]
  forget_event_waker_def [core_ops] poll_dropped_def [core_ops] remove_dropped_waiter_def [core_ops]
  input_end_dropped_def [core_ops] event_end_dropped_def [core_ops] outside_default_def [core_ops]

lemma detach_eq:
  "detach c d = (
     c\<lparr>executor := Dropped, queue := [], reader_waker := None, event_waker := None,
       node_side := (case node_side c of Sent e \<Rightarrow> if d then Ended else Sent e | Vanished \<Rightarrow> Vanished | _ \<Rightarrow> Ended),
       dropped_waiters := fst (drain_waiters (dropped_waiters c))\<rparr>,
     \<lparr>o_wakers = opt_list (reader_waker c) @ opt_list (event_waker c) @ snd (drain_waiters (dropped_waiters c)),
       o_inputs = queue c,
       o_event = (case node_side c of Sent e \<Rightarrow> if d then Some e else None | _ \<Rightarrow> None)\<rparr>)"
  by (auto simp: detach_def retire_def outside_default_def drain_waiters_def split: node_side.splits)

lemma core_new_ok [simp]: "core_ok core_new"
  by (simp add: core_ok_def core_new_def)

lemma give_ok: "core_ok c \<Longrightarrow> core_ok (fst (give c i))"
  by (auto simp: core_ok_def core_ops accepts_input_iff)

lemma close_input_ok: "core_ok c \<Longrightarrow> core_ok (fst (close_input c))"
  by (auto simp: core_ok_def core_ops accepts_input_iff split: node_side.splits gate.splits)

lemma poll_next_ok: "core_ok c \<Longrightarrow> core_ok (fst (poll_next c w))"
  by (auto simp: core_ok_def core_ops accepts_input_iff split: list.splits prod.splits)

lemma forget_reader_waker_ok: "core_ok c \<Longrightarrow> core_ok (forget_reader_waker c)"
  by (auto simp: core_ok_def core_ops)

lemma drain_ok: "core_ok c \<Longrightarrow> core_ok (fst (drain c))"
  by (auto simp: core_ok_def core_ops accepts_input_iff)

lemma finish_ok: "core_ok c \<Longrightarrow> core_ok (fst (finish c e))"
  by (auto simp: core_ok_def core_ops)

lemma sender_gone_ok: "core_ok c \<Longrightarrow> core_ok (fst (sender_gone c))"
  by (auto simp: core_ok_def core_ops)

lemma detach_ok: "core_ok c \<Longrightarrow> core_ok (fst (detach c d))"
  by (auto simp: core_ok_def detach_eq wr.drn_ok wr.drn_look split: node_side.splits)

lemma poll_recv_ok: "core_ok c \<Longrightarrow> core_ok (fst (poll_recv c w))"
  by (auto simp: core_ok_def core_ops accepts_input_iff split: node_side.splits prod.splits)

lemma forget_event_waker_ok: "core_ok c \<Longrightarrow> core_ok (forget_event_waker c)"
  by (auto simp: core_ok_def core_ops accepts_input_iff)

lemma poll_dropped_ok: "core_ok c \<Longrightarrow> core_ok (fst (poll_dropped c key w))"
  using wr.reg_ok[of "dropped_waiters c" key w]
  by (cases "executor c") (auto simp: core_ok_def core_ops accepts_input_iff split: prod.splits)

lemma remove_dropped_waiter_ok: "core_ok c \<Longrightarrow> core_ok (remove_dropped_waiter c key)"
  by (auto simp: core_ok_def core_ops accepts_input_iff wr.rem_ok wr.rem_look)

lemmas core_ops_ok = give_ok close_input_ok poll_next_ok forget_reader_waker_ok drain_ok finish_ok
  sender_gone_ok detach_ok poll_recv_ok forget_event_waker_ok poll_dropped_ok
  remove_dropped_waiter_ok

section \<open>The contract of an input end\<close>

text \<open>
  What the executor and a node rely on: inputs put in while the end is open are read in order,
  closing keeps those already there, and after that the reader sees the end.
\<close>

fun read_n :: "('s \<Rightarrow> 's \<times> 'i option poll) \<Rightarrow> nat \<Rightarrow> 's \<Rightarrow> 's \<times> 'i option poll list" where
  "read_n rd 0 s = (s, [])"
| "read_n rd (Suc n) s = (let (s1, p) = rd s; (s2, ps) = read_n rd n s1 in (s2, p # ps))"

locale input_gate =
  fixes put :: "'s \<Rightarrow> 'i \<Rightarrow> 's"
    and shut :: "'s \<Rightarrow> 's"
    and rd :: "'s \<Rightarrow> 's \<times> 'i option poll"
    and waiting :: "'s \<Rightarrow> 'i list"
    and is_open :: "'s \<Rightarrow> bool"
  assumes put_open: "is_open s \<Longrightarrow> waiting (put s i) = waiting s @ [i] \<and> is_open (put s i)"
    and put_shut: "\<not> is_open s \<Longrightarrow> put s i = s"
    and shut_law: "is_open s \<Longrightarrow> waiting (shut s) = waiting s \<and> \<not> is_open (shut s)"
    and rd_some: "waiting s = i # is \<Longrightarrow>
      snd (rd s) = Ready (Some i) \<and> waiting (fst (rd s)) = is \<and> is_open (fst (rd s)) = is_open s"
    and rd_end: "waiting s = [] \<Longrightarrow> \<not> is_open s \<Longrightarrow> rd s = (s, Ready None)"
begin

lemma put_all: "is_open s \<Longrightarrow> waiting (foldl put s is) = waiting s @ is \<and> is_open (foldl put s is)"
  by (induction "is" arbitrary: s) (simp_all add: put_open)

lemma put_all_shut: "\<not> is_open s \<Longrightarrow> foldl put s is = s"
  by (induction "is" arbitrary: s) (simp_all add: put_shut)

lemma read_all:
  "waiting s = is \<Longrightarrow> \<not> is_open s \<Longrightarrow>
   snd (read_n rd (Suc (length is)) s) = map (\<lambda>i. Ready (Some i)) is @ [Ready None]"
proof (induction "is" arbitrary: s)
  case Nil
  then show ?case by (simp add: rd_end)
next
  case (Cons i "is")
  with rd_some[OF Cons.prems(1)] Cons.IH[of "fst (rd s)"] show ?case
    by (simp add: case_prod_unfold Let_def)
qed

lemma given_then_read:
  assumes "is_open s"
  shows "snd (read_n rd (Suc (length (waiting s @ is))) (foldl put (shut (foldl put s is)) later)) =
     map (\<lambda>i. Ready (Some i)) (waiting s @ is) @ [Ready None]"
proof -
  from put_all[OF assms] have o: "is_open (foldl put s is)" "waiting (foldl put s is) = waiting s @ is"
    by blast+
  then have c: "\<not> is_open (shut (foldl put s is))" "waiting (shut (foldl put s is)) = waiting s @ is"
    using shut_law by auto
  show ?thesis unfolding put_all_shut[OF c(1)] by (rule read_all[OF c(2,1)])
qed

end

interpretation ig: input_gate "\<lambda>c i. fst (give c i)" "\<lambda>c. fst (close_input c)"
  "\<lambda>c. (fst (poll_next c w), fst (snd (poll_next c w)))" queue accepts_input for w
  by unfold_locales (auto simp: core_ops accepts_input_iff)

text \<open>
  what was given before the input end closed is read to the last input, in the order it was
  given; later inputs are refused and then the reader sees the end.
\<close>

theorem given_inputs_are_read:
  assumes "accepts_input c"
  shows "snd (read_n (\<lambda>c. (fst (poll_next c w), fst (snd (poll_next c w)))) (Suc (length (queue c @ is)))
       (foldl (\<lambda>c i. fst (give c i)) (fst (close_input (foldl (\<lambda>c i. fst (give c i)) c is))) later)) =
     map (\<lambda>i. Ready (Some i)) (queue c @ is) @ [Ready None]"
  using assms by (rule ig.given_then_read)

theorem given_inputs_are_read_witness:
  "snd (read_n (\<lambda>c. (fst (poll_next c (Waker 1 None)), fst (snd (poll_next c (Waker 1 None))))) 3
       (foldl (\<lambda>c i. fst (give c i)) (fst (close_input (foldl (\<lambda>c i. fst (give c i))
          (core_new :: (nat, string) inner) [4, 5]))) [6])) =
     [Ready (Some 4), Ready (Some 5), Ready None]"
proof -
  have "accepts_input (core_new :: (nat, string) inner)" by (simp add: accepts_input_def core_new_def)
  from given_inputs_are_read[OF this, of "Waker 1 None" "[4, 5]" "[6]"]
  show ?thesis by (simp add: core_new_def numeral_3_eq_3)
qed

text \<open>
  a node that waits for the executor to leave is woken when it does: whichever of its ends the
  executor drops, every waker left with \<open>dropped\<close> is among those woken, and polling again is ready.
\<close>

theorem dropped_wakeup:
  assumes "core_ok c" "poll_dropped c key w = (c', key', Pending, replaced)"
  shows "w \<in> set (o_wakers (snd (detach c' discard))) \<and>
    fst (snd (snd (poll_dropped (fst (detach c' discard)) key' w))) = Ready ()"
proof -
  have ok: "waiters_ok (dropped_waiters c)" using assms(1) by (simp add: core_ok_def)
  have "dropped_waiters c' = fst (register (dropped_waiters c) key w)"
    using assms(2) by (auto simp: poll_dropped_def split: if_splits prod.splits)
  then show ?thesis using wr.drained_after_register[OF ok, of w key]
    by (simp add: detach_eq poll_dropped_def)
qed

theorem dropped_wakeup_witness:
  "Waker 3 None \<in> set (o_wakers (snd (input_end_dropped
     (fst (poll_dropped (core_new :: (nat, string) inner) None (Waker 3 None))))))"
proof -
  let ?p = "poll_dropped (core_new :: (nat, string) inner) None (Waker 3 None)"
  have "fst (snd (snd ?p)) = Pending"
    by (simp add: poll_dropped_def core_new_def case_prod_unfold)
  then have "?p = (fst ?p, fst (snd ?p), Pending, snd (snd (snd ?p)))" by (metis prod.collapse)
  from dropped_wakeup[OF core_new_ok this] show ?thesis by (simp add: input_end_dropped_def)
qed

end
