(* ===== verification/Instance_Channel.thy ===== *)
theory Instance_Channel
  imports Instance_Core
begin

text \<open>
  The four ends of an instance (\<open>instance/mod.rs\<close>, \<open>input_end.rs\<close>, \<open>event_end.rs\<close>, \<open>reader.rs\<close>,
  \<open>sender.rs\<close>, \<open>dropped.rs\<close>) over the shared core, as one state with one step per call. An end that
  was dropped or consumed has no steps left. The history of a channel (inputs accepted, read and
  discarded, events finished, delivered and dropped, wakers woken) is kept beside it for the
  statements. Every operation holds the lock of the core for its whole change, so any
  interleaving of the threads that own the ends is a sequence of these steps.
\<close>

section \<open>Channels\<close>

datatype sender = SenderLive | SenderFinishing | SenderGone

record ('i, 'e) channel =
  core :: "('i, 'e) inner"
  has_input :: bool
  has_events :: bool
  has_reader :: bool
  sender :: sender
  watchers :: "64 word option option list"
  accepted :: "'i list"
  taken :: "'i list"
  discarded :: "'i list"
  finished :: "'e list"
  delivered :: "'e list"
  dropped_events :: "'e list"
  woken :: "waker list"

definition channel_new :: "('i, 'e) channel" where
  "channel_new = \<lparr>core = core_new, has_input = True, has_events = True, has_reader = True,
     sender = SenderLive, watchers = [], accepted = [], taken = [], discarded = [],
     finished = [], delivered = [], dropped_events = [], woken = []\<rparr>"

datatype ('i, 'e) chan_op =
  OpGive 'i
| OpReaderClose
| OpSenderClose
| OpPollNext waker
| OpForgetNext
| OpDrain
| OpDropReader
| OpFinish 'e
| OpDropSender
| OpPollRecv waker
| OpForgetRecv
| OpDropInput
| OpDropEvents
| OpWatch
| OpPollDropped nat waker
| OpDropWatch nat

datatype ('i, 'e) chan_out =
  ONone
| OGive "input_closed + unit"
| ONext "'i option poll"
| ODrained "'i list"
| ORecv "(event_end_error + 'e) poll"
| ODropped "unit poll"

definition settle_outside ::
  "('i, 'e) channel \<Rightarrow> ('i, 'e) inner \<times> ('i, 'e) outside \<Rightarrow> ('i, 'e) channel" where
  "settle_outside ch res = ch\<lparr>core := fst res,
     discarded := discarded ch @ o_inputs (snd res),
     dropped_events := dropped_events ch @ opt_list (o_event (snd res)),
     woken := woken ch @ fst (settle (snd res))\<rparr>"

definition input_end_give :: "('i, 'e) channel \<Rightarrow> 'i \<Rightarrow> (('i, 'e) channel \<times> ('i, 'e) chan_out) option" where
  [simp]: "input_end_give ch i = (if \<not> has_input ch then None else
     (case give (core ch) i of (c, res, ws) \<Rightarrow>
        Some (ch\<lparr>core := c, accepted := accepted ch @ (if is_ok res then [i] else []),
                 woken := woken ch @ ws\<rparr>, OGive res)))"

definition reader_close :: "('i, 'e) channel \<Rightarrow> (('i, 'e) channel \<times> ('i, 'e) chan_out) option" where
  [simp]: "reader_close ch = (if \<not> has_reader ch then None else
     (case close_input (core ch) of (c, ws) \<Rightarrow>
        Some (ch\<lparr>core := c, woken := woken ch @ ws\<rparr>, ONone)))"

definition sender_close_input :: "('i, 'e) channel \<Rightarrow> (('i, 'e) channel \<times> ('i, 'e) chan_out) option" where
  [simp]: "sender_close_input ch = (if sender ch \<noteq> SenderLive then None else
     (case close_input (core ch) of (c, ws) \<Rightarrow>
        Some (ch\<lparr>core := c, woken := woken ch @ ws\<rparr>, ONone)))"

definition next_poll :: "('i, 'e) channel \<Rightarrow> waker \<Rightarrow> (('i, 'e) channel \<times> ('i, 'e) chan_out) option" where
  [simp]: "next_poll ch w = (if \<not> has_reader ch then None else
     (case poll_next (core ch) w of (c, res, _) \<Rightarrow>
        Some (ch\<lparr>core := c,
          taken := taken ch @ (case res of Ready (Some i) \<Rightarrow> [i] | _ \<Rightarrow> [])\<rparr>, ONext res)))"

definition next_drop :: "('i, 'e) channel \<Rightarrow> (('i, 'e) channel \<times> ('i, 'e) chan_out) option" where
  [simp]: "next_drop ch = (if \<not> has_reader ch then None else
     Some (ch\<lparr>core := forget_reader_waker (core ch)\<rparr>, ONone))"

definition reader_drain :: "('i, 'e) channel \<Rightarrow> (('i, 'e) channel \<times> ('i, 'e) chan_out) option" where
  [simp]: "reader_drain ch = (if \<not> has_reader ch then None else
     (case drain (core ch) of (c, is) \<Rightarrow> Some (ch\<lparr>core := c, taken := taken ch @ is\<rparr>, ODrained is)))"

definition reader_drop :: "('i, 'e) channel \<Rightarrow> (('i, 'e) channel \<times> ('i, 'e) chan_out) option" where
  [simp]: "reader_drop ch = (if \<not> has_reader ch then None else
     (case close_input (core ch) of (c, ws) \<Rightarrow>
        Some (ch\<lparr>core := c, has_reader := False, woken := woken ch @ ws\<rparr>, ONone)))"

definition sender_finish :: "('i, 'e) channel \<Rightarrow> 'e \<Rightarrow> (('i, 'e) channel \<times> ('i, 'e) chan_out) option" where
  [simp]: "sender_finish ch e = (if sender ch \<noteq> SenderLive then None else
     Some ((settle_outside ch (finish (core ch) e))\<lparr>sender := SenderFinishing,
        finished := finished ch @ [e]\<rparr>, ONone))"

definition sender_drop :: "('i, 'e) channel \<Rightarrow> (('i, 'e) channel \<times> ('i, 'e) chan_out) option" where
  [simp]: "sender_drop ch = (if sender ch = SenderGone then None else
     Some ((settle_outside ch (sender_gone (core ch)))\<lparr>sender := SenderGone\<rparr>, ONone))"

definition recv_poll :: "('i, 'e) channel \<Rightarrow> waker \<Rightarrow> (('i, 'e) channel \<times> ('i, 'e) chan_out) option" where
  [simp]: "recv_poll ch w = (if \<not> has_events ch then None else
     (case poll_recv (core ch) w of (c, res, _) \<Rightarrow>
        Some (ch\<lparr>core := c,
          delivered := delivered ch @ (case res of Ready (Inr e) \<Rightarrow> [e] | _ \<Rightarrow> [])\<rparr>, ORecv res)))"

definition recv_drop :: "('i, 'e) channel \<Rightarrow> (('i, 'e) channel \<times> ('i, 'e) chan_out) option" where
  [simp]: "recv_drop ch = (if \<not> has_events ch then None else
     Some (ch\<lparr>core := forget_event_waker (core ch)\<rparr>, ONone))"

definition input_end_drop :: "('i, 'e) channel \<Rightarrow> (('i, 'e) channel \<times> ('i, 'e) chan_out) option" where
  [simp]: "input_end_drop ch = (if \<not> has_input ch then None else
     Some ((settle_outside ch (input_end_dropped (core ch)))\<lparr>has_input := False\<rparr>, ONone))"

definition event_end_drop :: "('i, 'e) channel \<Rightarrow> (('i, 'e) channel \<times> ('i, 'e) chan_out) option" where
  [simp]: "event_end_drop ch = (if \<not> has_events ch then None else
     Some ((settle_outside ch (event_end_dropped (core ch)))\<lparr>has_events := False\<rparr>, ONone))"

definition sender_dropped :: "('i, 'e) channel \<Rightarrow> (('i, 'e) channel \<times> ('i, 'e) chan_out) option" where
  [simp]: "sender_dropped ch = (if sender ch = SenderGone then None else
     Some (ch\<lparr>watchers := watchers ch @ [Some None]\<rparr>, ONone))"

definition dropped_poll :: "('i, 'e) channel \<Rightarrow> nat \<Rightarrow> waker \<Rightarrow> (('i, 'e) channel \<times> ('i, 'e) chan_out) option" where
  [simp]: "dropped_poll ch n w = (if n \<ge> length (watchers ch) then None else
     (case watchers ch ! n of
        None \<Rightarrow> None
      | Some key \<Rightarrow> (case poll_dropped (core ch) key w of (c, key', res, _) \<Rightarrow>
          Some (ch\<lparr>core := c, watchers := (watchers ch)[n := Some key']\<rparr>, ODropped res))))"

definition dropped_drop :: "('i, 'e) channel \<Rightarrow> nat \<Rightarrow> (('i, 'e) channel \<times> ('i, 'e) chan_out) option" where
  [simp]: "dropped_drop ch n = (if n \<ge> length (watchers ch) then None else
     (case watchers ch ! n of
        None \<Rightarrow> None
      | Some key \<Rightarrow> Some (ch\<lparr>watchers := (watchers ch)[n := None],
          core := (case key of None \<Rightarrow> core ch | Some k \<Rightarrow> remove_dropped_waiter (core ch) k)\<rparr>, ONone)))"

fun chan_step ::
  "('i, 'e) channel \<Rightarrow> ('i, 'e) chan_op \<Rightarrow> (('i, 'e) channel \<times> ('i, 'e) chan_out) option" where
  "chan_step ch (OpGive i) = input_end_give ch i"
| "chan_step ch OpReaderClose = reader_close ch"
| "chan_step ch OpSenderClose = sender_close_input ch"
| "chan_step ch (OpPollNext w) = next_poll ch w"
| "chan_step ch OpForgetNext = next_drop ch"
| "chan_step ch OpDrain = reader_drain ch"
| "chan_step ch OpDropReader = reader_drop ch"
| "chan_step ch (OpFinish e) = sender_finish ch e"
| "chan_step ch OpDropSender = sender_drop ch"
| "chan_step ch (OpPollRecv w) = recv_poll ch w"
| "chan_step ch OpForgetRecv = recv_drop ch"
| "chan_step ch OpDropInput = input_end_drop ch"
| "chan_step ch OpDropEvents = event_end_drop ch"
| "chan_step ch OpWatch = sender_dropped ch"
| "chan_step ch (OpPollDropped n w) = dropped_poll ch n w"
| "chan_step ch (OpDropWatch n) = dropped_drop ch n"

inductive chan_reach :: "('i, 'e) channel \<Rightarrow> bool" where
  chan_start: "chan_reach channel_new"
| chan_next: "chan_reach ch \<Longrightarrow> chan_step ch op = Some (ch', out) \<Longrightarrow> chan_reach ch'"

fun chan_run :: "('i, 'e) channel \<Rightarrow> ('i, 'e) chan_op list \<Rightarrow> ('i, 'e) channel option" where
  "chan_run ch [] = Some ch"
| "chan_run ch (op # ops) = (case chan_step ch op of None \<Rightarrow> None | Some (ch', _) \<Rightarrow> chan_run ch' ops)"

section \<open>The invariant\<close>

definition pending_event :: "('i, 'e) channel \<Rightarrow> 'e list" where
  "pending_event ch = (case node_side (core ch) of Sent e \<Rightarrow> [e] | _ \<Rightarrow> [])"

definition inputs_ok :: "('i, 'e) channel \<Rightarrow> bool" where
  "inputs_ok ch \<longleftrightarrow> accepted ch = taken ch @ discarded ch @ queue (core ch)
     \<and> (discarded ch \<noteq> [] \<longrightarrow> \<not> is_working (node_side (core ch)))"

definition events_ok :: "('i, 'e) channel \<Rightarrow> bool" where
  "events_ok ch \<longleftrightarrow>
     finished ch = delivered ch @ dropped_events ch @ pending_event ch
     \<and> length (finished ch) \<le> 1
     \<and> (sender ch = SenderLive \<longrightarrow> finished ch = [])
     \<and> (is_working (node_side (core ch)) \<longrightarrow> sender ch = SenderLive \<and> finished ch = [])
     \<and> (node_side (core ch) = Vanished \<longrightarrow> sender ch = SenderGone \<and> finished ch = [])
     \<and> (dropped_events ch \<noteq> [] \<longrightarrow> executor (core ch) = Dropped)
     \<and> (\<not> has_input ch \<or> \<not> has_events ch \<longleftrightarrow> executor (core ch) = Dropped)
     \<and> (\<not> has_events ch \<longrightarrow> pending_event ch = [])
     \<and> (node_side (core ch) = Ended \<longrightarrow> delivered ch \<noteq> [] \<or> executor (core ch) = Dropped)"

definition chan_ok :: "('i, 'e) channel \<Rightarrow> bool" where
  "chan_ok ch \<longleftrightarrow> core_ok (core ch) \<and> inputs_ok ch \<and> events_ok ch"

lemma settle_outside_simps [simp]:
  "core (settle_outside ch res) = fst res"
  "sender (settle_outside ch res) = sender ch"
  "has_input (settle_outside ch res) = has_input ch"
  "has_events (settle_outside ch res) = has_events ch"
  "finished (settle_outside ch res) = finished ch"
  "delivered (settle_outside ch res) = delivered ch"
  "accepted (settle_outside ch res) = accepted ch"
  "taken (settle_outside ch res) = taken ch"
  "discarded (settle_outside ch res) = discarded ch @ o_inputs (snd res)"
  "dropped_events (settle_outside ch res) = dropped_events ch @ opt_list (o_event (snd res))"
  "woken (settle_outside ch res) = woken ch @ o_wakers (snd res)"
  by (simp_all add: settle_outside_def settle_def wake_all_isolated_eq)

lemma chan_new_ok: "chan_ok channel_new"
  by (simp add: chan_ok_def inputs_ok_def events_ok_def channel_new_def pending_event_def core_new_def)
     (simp add: core_new_def[symmetric])

lemma chan_step_core_ok:
  assumes "core_ok (core ch)" "chan_step ch op = Some (ch', out)"
  shows "core_ok (core ch')"
  using assms core_ops_ok[of "core ch"]
  by (cases op) (auto simp: input_end_dropped_def event_end_dropped_def case_prod_unfold
      split: if_splits option.splits)

lemma retire_simps [simp]:
  "node_side (fst (retire c out)) = node_side c"
  "executor (fst (retire c out)) = executor c"
  "queue (fst (retire c out)) = []"
  "o_inputs (snd (retire c out)) = queue c"
  "o_event (snd (retire c out)) = o_event out"
  by (simp_all add: retire_def)

lemma detach_simps [simp]:
  "queue (fst (detach c d)) = []"
  "executor (fst (detach c d)) = Dropped"
  "o_inputs (snd (detach c d)) = queue c"
  "node_side (fst (detach c d)) =
     (case node_side c of Sent e \<Rightarrow> if d then Ended else Sent e | Vanished \<Rightarrow> Vanished | _ \<Rightarrow> Ended)"
  "o_event (snd (detach c d)) = (case node_side c of Sent e \<Rightarrow> if d then Some e else None | _ \<Rightarrow> None)"
  by (simp_all add: detach_eq)

lemma give_cases:
  "give c i = (if accepts_input c then
     (c\<lparr>queue := queue c @ [i], reader_waker := None\<rparr>, Inr (), opt_list (reader_waker c))
   else (c, Inl InputClosed, []))"
  by (simp add: give_def)

lemma core_untouched [simp]:
  "queue (fst (close_input c)) = queue c" "executor (fst (close_input c)) = executor c"
  "is_working (node_side (fst (close_input c))) = is_working (node_side c)"
  "node_side (fst (close_input c)) = Vanished \<longleftrightarrow> node_side c = Vanished"
  "node_side (fst (close_input c)) = Ended \<longleftrightarrow> node_side c = Ended"
  "node_side (fst (close_input c)) = Sent e \<longleftrightarrow> node_side c = Sent e"
  by (auto simp: close_input_def split: node_side.splits gate.splits)

lemma poll_next_simps [simp]:
  "node_side (fst (poll_next c w)) = node_side c" "executor (fst (poll_next c w)) = executor c"
  by (auto simp: poll_next_def split: list.splits prod.splits)

lemma poll_recv_simps [simp]:
  "queue (fst (poll_recv c w)) = queue c" "executor (fst (poll_recv c w)) = executor c"
  "is_working (node_side (fst (poll_recv c w))) = is_working (node_side c)"
  by (auto simp: poll_recv_def split: node_side.splits prod.splits)

lemma poll_dropped_simps [simp]:
  "queue (fst (poll_dropped c k w)) = queue c" "executor (fst (poll_dropped c k w)) = executor c"
  "node_side (fst (poll_dropped c k w)) = node_side c"
  by (auto simp: poll_dropped_def split: prod.splits)

lemma forget_simps [simp]:
  "queue (forget_reader_waker c) = queue c" "executor (forget_reader_waker c) = executor c"
  "node_side (forget_reader_waker c) = node_side c"
  "queue (forget_event_waker c) = queue c" "executor (forget_event_waker c) = executor c"
  "node_side (forget_event_waker c) = node_side c"
  "queue (remove_dropped_waiter c k) = queue c" "executor (remove_dropped_waiter c k) = executor c"
  "node_side (remove_dropped_waiter c k) = node_side c"
  by (simp_all add: forget_reader_waker_def forget_event_waker_def remove_dropped_waiter_def)

lemma poll_next_taken:
  "(case fst (snd (poll_next c w)) of Ready (Some i) \<Rightarrow> [i] | _ \<Rightarrow> []) @ queue (fst (poll_next c w)) = queue c"
  by (auto simp: poll_next_def split: list.splits prod.splits)

lemma poll_next_empty: "queue c = [] \<Longrightarrow> queue (fst (poll_next c w)) = []"
  by (auto simp: poll_next_def split: prod.splits)

lemma inputs_ok_same:
  assumes "inputs_ok ch" "accepted ch' = accepted ch" "taken ch' = taken ch"
    "discarded ch' = discarded ch" "queue (core ch') = queue (core ch)"
    "is_working (node_side (core ch')) = is_working (node_side (core ch))"
  shows "inputs_ok ch'"
  using assms by (simp add: inputs_ok_def)

lemma inputs_ok_retired:
  assumes "inputs_ok ch" "accepted ch' = accepted ch" "taken ch' = taken ch"
    "discarded ch' = discarded ch @ queue (core ch)" "queue (core ch') = []"
    "\<not> is_working (node_side (core ch'))"
  shows "inputs_ok ch'"
  using assms by (simp add: inputs_ok_def)

text \<open>The node side with its gate forgotten: what the bookkeeping of events looks at.\<close>

definition ungated :: "'e node_side \<Rightarrow> 'e node_side" where
  "ungated n = (case n of Working _ \<Rightarrow> Working Open | _ \<Rightarrow> n)"

lemma ungated_close [simp]: "ungated (node_side (fst (close_input c))) = ungated (node_side c)"
  by (auto simp: close_input_def ungated_def split: node_side.splits gate.splits)

lemma ungated_eqD:
  assumes "ungated m = ungated n"
  shows "is_working m = is_working n" "(m = Vanished) = (n = Vanished)" "(m = Ended) = (n = Ended)"
    "(case m of Sent e \<Rightarrow> [e] | _ \<Rightarrow> []) = (case n of Sent e \<Rightarrow> [e] | _ \<Rightarrow> [])"
  using assms by (cases m; cases n; simp add: ungated_def)+

lemma events_ok_same:
  assumes "events_ok ch" "finished ch' = finished ch" "delivered ch' = delivered ch"
    "dropped_events ch' = dropped_events ch" "sender ch' = sender ch"
    "has_input ch' = has_input ch" "has_events ch' = has_events ch"
    "executor (core ch') = executor (core ch)"
    "ungated (node_side (core ch')) = ungated (node_side (core ch))"
  shows "events_ok ch'"
  using assms(1) unfolding events_ok_def pending_event_def assms(2-8) ungated_eqD[OF assms(9)] .

lemma chan_step_inputs:
  assumes "core_ok (core ch)" "inputs_ok ch" "chan_step ch op = Some (ch', out)"
  shows "inputs_ok ch'"
proof (cases op)
  case (OpPollNext w)
  have "accepted ch' = accepted ch \<and> discarded ch' = discarded ch
      \<and> node_side (core ch') = node_side (core ch)
      \<and> taken ch' @ queue (core ch') = taken ch @ queue (core ch)
      \<and> (queue (core ch) = [] \<longrightarrow> queue (core ch') = [])"
    using assms(3) poll_next_taken[of "core ch" w] poll_next_empty[of "core ch" w]
    by (auto simp: OpPollNext case_prod_unfold split: if_splits)
  moreover have "discarded ch \<noteq> [] \<Longrightarrow> queue (core ch) = []"
    using assms(1,2) by (auto simp: inputs_ok_def core_ok_def)
  ultimately show ?thesis using assms(2) by (cases "discarded ch") (auto simp: inputs_ok_def)
next
  case OpDrain
  have "discarded ch \<noteq> [] \<Longrightarrow> queue (core ch) = []"
    using assms(1,2) by (auto simp: inputs_ok_def core_ok_def)
  then show ?thesis using assms(2,3)
    by (cases "discarded ch") (auto simp: OpDrain inputs_ok_def drain_def split: if_splits)
next
  case (OpGive i)
  have "discarded ch \<noteq> [] \<Longrightarrow> \<not> accepts_input (core ch)"
    using assms(2) accepts_working by (auto simp: inputs_ok_def)
  then show ?thesis using assms(2,3)
    by (auto simp: OpGive inputs_ok_def give_cases split: if_splits)
next
  case (OpFinish e)
  then show ?thesis using assms(3)
    by - (rule inputs_ok_retired[OF assms(2)]; auto simp: finish_def outside_default_def split: if_splits)
next
  case OpDropSender
  then show ?thesis using assms(3)
    by - (rule inputs_ok_retired[OF assms(2)]; auto simp: sender_gone_def split: if_splits)
next
  case OpDropInput
  then show ?thesis using assms(3)
    by - (rule inputs_ok_retired[OF assms(2)]; auto simp: input_end_dropped_def split: if_splits node_side.splits)
next
  case OpDropEvents
  then show ?thesis using assms(3)
    by - (rule inputs_ok_retired[OF assms(2)]; auto simp: event_end_dropped_def split: if_splits node_side.splits)
qed (rule inputs_ok_same[OF assms(2)];
     use assms(3) in \<open>auto simp: case_prod_unfold split: if_splits option.splits\<close>; fail)+

lemma append_le_1:
  "length xs \<le> 1 \<Longrightarrow> xs = as @ bs @ cs \<Longrightarrow>
   as = [] \<and> bs = [] \<and> cs = xs \<or> as = [] \<and> bs = xs \<and> cs = [] \<or> as = xs \<and> bs = [] \<and> cs = []"
  by (cases as; cases bs) auto

lemma events_ok_cases:
  assumes "events_ok ch"
  obtains "finished ch = []" "delivered ch = []" "dropped_events ch = []" "pending_event ch = []"
  | e where "finished ch = [e]" "delivered ch = []" "dropped_events ch = []" "pending_event ch = [e]"
  | e where "finished ch = [e]" "delivered ch = []" "dropped_events ch = [e]" "pending_event ch = []"
  | e where "finished ch = [e]" "delivered ch = [e]" "dropped_events ch = []" "pending_event ch = []"
proof -
  from assms have f: "finished ch = delivered ch @ dropped_events ch @ pending_event ch"
    and l: "length (finished ch) \<le> 1" unfolding events_ok_def by blast+
  from append_le_1[OF l f] l that show thesis
    by (cases "finished ch") auto
qed

lemma chan_step_events:
  assumes "core_ok (core ch)" "events_ok ch" "chan_step ch op = Some (ch', out)"
  shows "events_ok ch'"
proof (cases op)
  case (OpFinish e)
  then have live: "sender ch = SenderLive"
    and ch': "ch' = (settle_outside ch (finish (core ch) e))\<lparr>sender := SenderFinishing,
        finished := finished ch @ [e]\<rparr>"
    using assms(3) by (auto split: if_splits)
  have none: "finished ch = []" "delivered ch = []" "dropped_events ch = []" "pending_event ch = []"
    using assms(2) live by (auto simp: events_ok_def)
  show ?thesis
  proof (cases "is_working (node_side (core ch))")
    case True
    then have att: "executor (core ch) \<noteq> Dropped" using assms(1) by (auto simp: core_ok_def)
    then have "has_input ch" "has_events ch" using assms(2) by (auto simp: events_ok_def)
    with True att none show ?thesis
      by (simp add: ch' events_ok_def pending_event_def finish_def outside_default_def)
  next
    case False
    then have "node_side (core ch) = Ended"
      using none live assms(2) by (cases "node_side (core ch)") (auto simp: events_ok_def pending_event_def)
    with none assms(2) show ?thesis
      by (simp add: ch' events_ok_def pending_event_def finish_def outside_default_def)
  qed
next
  case OpDropSender
  then have ch': "ch' = (settle_outside ch (sender_gone (core ch)))\<lparr>sender := SenderGone\<rparr>"
    and "sender ch \<noteq> SenderGone" using assms(3) by (auto split: if_splits)
  from assms(2) show ?thesis
    by (rule events_ok_cases; use assms(2) in \<open>cases "node_side (core ch)";
      simp add: ch' events_ok_def pending_event_def sender_gone_def outside_default_def\<close>)
next
  case (OpPollRecv w)
  then have ev: "has_events ch"
    and ch': "ch' = ch\<lparr>core := fst (poll_recv (core ch) w), delivered := delivered ch @
       (case fst (snd (poll_recv (core ch) w)) of Ready (Inr e) \<Rightarrow> [e] | _ \<Rightarrow> [])\<rparr>"
    using assms(3) by (auto simp: case_prod_unfold split: if_splits)
  from assms(2) show ?thesis
    by (rule events_ok_cases; use assms(2) ev in \<open>cases "node_side (core ch)";
      simp add: ch' events_ok_def pending_event_def poll_recv_def case_prod_unfold\<close>)
next
  case OpDropInput
  then have ch': "ch' = (settle_outside ch (detach (core ch) False))\<lparr>has_input := False\<rparr>"
    using assms(3) by (auto simp: input_end_dropped_def split: if_splits)
  from assms(2) show ?thesis
    by (rule events_ok_cases; use assms(2) in \<open>cases "node_side (core ch)";
      simp add: ch' events_ok_def pending_event_def\<close>)
next
  case OpDropEvents
  then have ch': "ch' = (settle_outside ch (detach (core ch) True))\<lparr>has_events := False\<rparr>"
    using assms(3) by (auto simp: event_end_dropped_def split: if_splits)
  from assms(2) show ?thesis
    by (rule events_ok_cases; use assms(2) in \<open>cases "node_side (core ch)";
      simp add: ch' events_ok_def pending_event_def\<close>)
qed (rule events_ok_same[OF assms(2)];
     use assms(3) in \<open>auto simp: case_prod_unfold give_cases drain_def split: if_splits option.splits\<close>; fail)+

lemma chan_reach_ok: "chan_reach ch \<Longrightarrow> chan_ok ch"
proof (induction rule: chan_reach.induct)
  case chan_start
  show ?case by (rule chan_new_ok)
next
  case (chan_next ch op ch' out)
  then show ?case
    using chan_step_core_ok chan_step_inputs chan_step_events by (metis chan_ok_def)
qed

text \<open>
  C13: a terminal event is delivered at most once and only if the node sent it: in every reachable
  channel the node finished at most one event, and that event is in exactly one place: delivered,
  dropped with the executor's side, or waiting to be received. While it waits, receiving gives
  exactly it; an event is dropped only after the executor dropped an end.
\<close>

theorem event_in_one_place:
  assumes "chan_reach ch"
  shows "length (finished ch) \<le> 1 \<and>
    finished ch = delivered ch @ dropped_events ch @ pending_event ch \<and>
    (dropped_events ch = [] \<or> is_dropped (core ch)) \<and>
    (case node_side (core ch) of
       Sent e \<Rightarrow> finished ch = [e] \<and> fst (snd (poll_recv (core ch) w)) = Ready (Inr e)
     | Ended \<Rightarrow> fst (snd (poll_recv (core ch) w)) = Ready (Inl Finished)
     | Vanished \<Rightarrow> finished ch = [] \<and> sender ch = SenderGone
         \<and> fst (snd (poll_recv (core ch) w)) = Ready (Inl EndVanished)
     | Working _ \<Rightarrow> finished ch = [] \<and> sender ch = SenderLive \<and> \<not> is_dropped (core ch)
         \<and> fst (snd (poll_recv (core ch) w)) = Pending)"
proof -
  have ok: "events_ok ch" and c: "core_ok (core ch)"
    using chan_reach_ok[OF assms] by (simp_all add: chan_ok_def)
  from ok show ?thesis
    by (rule events_ok_cases; use ok c in \<open>cases "node_side (core ch)";
      simp add: events_ok_def pending_event_def poll_recv_def case_prod_unfold is_dropped_def core_ok_def\<close>)
qed

text \<open>A node that reads one input and finishes, and an executor that receives the event.\<close>

definition demo_ops :: "(nat, string) chan_op list" where
  "demo_ops = [OpGive 7, OpPollNext (Waker 1 None), OpPollNext (Waker 1 None),
     OpPollRecv (Waker 2 None), OpGive 8, OpFinish ''done'']"

definition demo_channel :: "(nat, string) channel" where
  "demo_channel = the (chan_run channel_new demo_ops)"

lemma chan_run_reach: "chan_reach ch \<Longrightarrow> chan_run ch ops = Some ch' \<Longrightarrow> chan_reach ch'"
  by (induction ops arbitrary: ch) (auto split: option.splits dest: chan_next)

lemma demo_channel_reach: "chan_reach demo_channel"
proof -
  have "chan_run (channel_new :: (nat, string) channel) demo_ops \<noteq> None" by code_simp
  then have "chan_run channel_new demo_ops = Some demo_channel" by (simp add: demo_channel_def)
  with chan_start show ?thesis by (rule chan_run_reach)
qed

theorem event_in_one_place_witness:
  "node_side (core demo_channel) = Sent ''done'' \<and>
   fst (snd (poll_recv (core demo_channel) (Waker 3 None))) = Ready (Inr ''done'')"
proof -
  have "node_side (core demo_channel) = Sent ''done''" by code_simp
  with event_in_one_place[OF demo_channel_reach, of "Waker 3 None"] show ?thesis by simp
qed

text \<open>
  C14: inputs are neither lost, duplicated nor reordered: in every reachable channel the inputs
  accepted so far are, in order, those the node took, then those discarded when the instance
  ended, then those still queued, and nothing is discarded while the node works. An input is
  refused exactly when the input end was closed, the node ended or the executor left.
\<close>

theorem inputs_fifo:
  assumes "chan_reach ch"
  shows "accepted ch = taken ch @ discarded ch @ queue (core ch) \<and>
    (discarded ch = [] \<or> queue (core ch) = [] \<and> \<not> accepts_input (core ch)) \<and>
    (is_ok (fst (snd (give (core ch) i))) = accepts_input (core ch)) \<and>
    (is_dropped (core ch) \<or> sender ch \<noteq> SenderLive \<longrightarrow> \<not> accepts_input (core ch) \<and> queue (core ch) = [])"
proof -
  have i: "inputs_ok ch" and e: "events_ok ch" and c: "core_ok (core ch)"
    using chan_reach_ok[OF assms] by (simp_all add: chan_ok_def)
  have q: "\<not> is_working (node_side (core ch)) \<Longrightarrow> queue (core ch) = [] \<and> \<not> accepts_input (core ch)"
    using c accepts_working by (auto simp: core_ok_def)
  moreover have "discarded ch \<noteq> [] \<Longrightarrow> \<not> is_working (node_side (core ch))"
    using i by (auto simp: inputs_ok_def)
  moreover have "is_dropped (core ch) \<or> sender ch \<noteq> SenderLive \<Longrightarrow> \<not> is_working (node_side (core ch))"
    using e c by (auto simp: events_ok_def core_ok_def is_dropped_def)
  moreover have "accepted ch = taken ch @ discarded ch @ queue (core ch)"
    using i by (simp add: inputs_ok_def)
  ultimately show ?thesis by (auto simp: give_cases)
qed

theorem inputs_fifo_witness:
  "accepted demo_channel = [7, 8] \<and> taken demo_channel = [7] \<and> discarded demo_channel = [8]"
proof -
  have "accepted demo_channel = [7, 8] \<and> taken demo_channel = [7] \<and> queue (core demo_channel) = []"
    by code_simp
  with inputs_fifo[OF demo_channel_reach] show ?thesis by simp
qed

section \<open>Wake-ups\<close>

text \<open>What a task that polls would see: whether its next poll is ready.\<close>

definition next_ready :: "('i, 'e) inner \<Rightarrow> bool" where
  "next_ready c = (queue c \<noteq> [] \<or> \<not> accepts_input c)"

definition recv_ready :: "('i, 'e) inner \<Rightarrow> bool" where
  "recv_ready c = (\<not> is_working (node_side c))"

lemma next_ready_poll: "next_ready c \<longleftrightarrow> fst (snd (poll_next c w)) \<noteq> Pending"
  by (auto simp: next_ready_def poll_next_def split: list.splits prod.splits)

lemma recv_ready_poll: "recv_ready c \<longleftrightarrow> fst (snd (poll_recv c w)) \<noteq> Pending"
  by (auto simp: recv_ready_def poll_recv_def split: node_side.splits prod.splits)

text \<open>The operations of the reading task itself, which may drop or replace its own waker.\<close>

definition reader_op :: "('i, 'e) chan_op \<Rightarrow> bool" where
  "reader_op op = (case op of OpPollNext _ \<Rightarrow> True | OpForgetNext \<Rightarrow> True | _ \<Rightarrow> False)"

definition receiver_op :: "('i, 'e) chan_op \<Rightarrow> bool" where
  "receiver_op op = (case op of OpPollRecv _ \<Rightarrow> True | OpForgetRecv \<Rightarrow> True | _ \<Rightarrow> False)"

lemma give_woken [simp]:
  "reader_waker (fst (give c i)) = (if accepts_input c then None else reader_waker c)"
  "event_waker (fst (give c i)) = event_waker c"
  "snd (snd (give c i)) = (if accepts_input c then opt_list (reader_waker c) else [])"
  by (simp_all add: give_def)

lemma close_woken [simp]:
  "reader_waker (fst (close_input c)) = (if accepts_input c then None else reader_waker c)"
  "event_waker (fst (close_input c)) = event_waker c"
  "snd (close_input c) = (if accepts_input c then opt_list (reader_waker c) else [])"
  by (auto simp: close_input_def accepts_input_iff split: node_side.splits gate.splits)

lemma retire_woken [simp]:
  "reader_waker (fst (retire c out)) = None" "event_waker (fst (retire c out)) = None"
  "o_wakers (snd (retire c out)) = o_wakers out @ opt_list (reader_waker c) @ opt_list (event_waker c)"
  by (simp_all add: retire_def)

lemma detach_woken [simp]:
  "reader_waker (fst (detach c d)) = None" "event_waker (fst (detach c d)) = None"
  "o_wakers (snd (detach c d)) = opt_list (reader_waker c) @ opt_list (event_waker c)
     @ snd (drain_waiters (dropped_waiters c))"
  by (simp_all add: detach_eq)

lemma step_reader_waker:
  assumes "core_ok (core ch)" "reader_waker (core ch) = Some w"
    and "chan_step ch op = Some (ch', out)" "\<not> reader_op op"
  shows "reader_waker (core ch') = Some w \<or> w \<in> set (drop (length (woken ch)) (woken ch'))"
proof -
  have acc: "accepts_input (core ch)" using assms(1,2) by (auto simp: core_ok_def)
  show ?thesis
    using assms(2-4) acc
    by (cases op) (auto simp: reader_op_def case_prod_unfold finish_def sender_gone_def
      input_end_dropped_def event_end_dropped_def drain_def poll_recv_def poll_dropped_def
      forget_event_waker_def remove_dropped_waiter_def
      split: if_splits option.splits node_side.splits)
qed

lemma step_event_waker:
  assumes "event_waker (core ch) = Some w"
    and "chan_step ch op = Some (ch', out)" "\<not> receiver_op op"
  shows "event_waker (core ch') = Some w \<or> w \<in> set (drop (length (woken ch)) (woken ch'))"
    using assms
    by (cases op) (auto simp: receiver_op_def case_prod_unfold finish_def sender_gone_def
      input_end_dropped_def event_end_dropped_def drain_def poll_next_def poll_dropped_def
      forget_reader_waker_def remove_dropped_waiter_def
      split: if_splits option.splits node_side.splits list.splits)

lemma step_woken_grows: "chan_step ch op = Some (ch', out) \<Longrightarrow> \<exists>ws. woken ch' = woken ch @ ws"
  by (cases op) (auto simp: case_prod_unfold split: if_splits option.splits)

lemma chan_run_core_ok: "core_ok (core ch) \<Longrightarrow> chan_run ch ops = Some ch' \<Longrightarrow> core_ok (core ch')"
  by (induction ops arbitrary: ch) (auto split: option.splits dest: chan_step_core_ok)

lemma chan_run_woken: "chan_run ch ops = Some ch' \<Longrightarrow> \<exists>ws. woken ch' = woken ch @ ws"
proof (induction ops arbitrary: ch)
  case (Cons op ops)
  then obtain ch1 out where "chan_step ch op = Some (ch1, out)" "chan_run ch1 ops = Some ch'"
    by (auto split: option.splits)
  with Cons.IH[of ch1] step_woken_grows[of ch op ch1 out] show ?case by auto
qed simp

text \<open>Along a run, the waker of a task that does not touch it stays or was woken.\<close>

lemma run_keeps_or_wakes:
  assumes step: "\<And>ch op ch' out. core_ok (core ch) \<Longrightarrow> field (core ch) = Some w \<Longrightarrow>
      chan_step ch op = Some (ch', out) \<Longrightarrow> \<not> own op \<Longrightarrow>
      field (core ch') = Some w \<or> w \<in> set (drop (length (woken ch)) (woken ch'))"
  shows "core_ok (core ch) \<Longrightarrow> field (core ch) = Some w \<Longrightarrow> chan_run ch ops = Some ch' \<Longrightarrow>
      list_all (\<lambda>op. \<not> own op) ops \<Longrightarrow>
      field (core ch') = Some w \<or> w \<in> set (drop (length (woken ch)) (woken ch'))"
proof (induction ops arbitrary: ch)
  case Nil
  then show ?case by simp
next
  case (Cons op ops)
  then obtain ch1 out where s: "chan_step ch op = Some (ch1, out)" and r: "chan_run ch1 ops = Some ch'"
    by (auto split: option.splits)
  obtain ws where ws: "woken ch1 = woken ch @ ws" using step_woken_grows[OF s] by blast
  obtain vs where vs: "woken ch' = woken ch1 @ vs" using chan_run_woken[OF r] by blast
  have "field (core ch1) = Some w \<or> w \<in> set (drop (length (woken ch)) (woken ch1))"
    using step[OF Cons.prems(1,2) s] Cons.prems(4) by simp
  then show ?case
  proof
    assume "field (core ch1) = Some w"
    with Cons.IH[OF chan_step_core_ok[OF Cons.prems(1) s] _ r] Cons.prems(4)
    have "field (core ch') = Some w \<or> w \<in> set (drop (length (woken ch1)) (woken ch'))" by simp
    then show ?thesis by (auto simp: ws vs)
  next
    assume "w \<in> set (drop (length (woken ch)) (woken ch1))"
    then show ?thesis by (auto simp: ws vs)
  qed
qed

text \<open>
  C15: no wake-up is lost. When the node's read was pending and later its next read would be ready
  (an input came, or the input end closed, or the instance ended), the waker it left has been
  woken, whatever the other ends did in between and in whatever order.
\<close>

theorem reader_wakeup:
  assumes "chan_reach ch" "chan_step ch (OpPollNext w) = Some (ch1, ONext Pending)"
    and "chan_run ch1 ops = Some ch2" "list_all (\<lambda>op. \<not> reader_op op) ops"
    and "next_ready (core ch2)"
  shows "w \<in> set (drop (length (woken ch1)) (woken ch2))"
proof -
  have ok: "core_ok (core ch1)"
    using chan_reach_ok[OF chan_next[OF assms(1,2)]] by (simp add: chan_ok_def)
  have "reader_waker (core ch1) = Some w"
    using assms(2) by (auto simp: poll_next_def case_prod_unfold split: if_splits list.splits)
  then have "reader_waker (core ch2) = Some w \<or> w \<in> set (drop (length (woken ch1)) (woken ch2))"
    by (rule run_keeps_or_wakes[where field = reader_waker and own = reader_op, OF _ ok _ assms(3,4), rotated])
       (erule (3) step_reader_waker)
  moreover have "reader_waker (core ch2) = None"
    using chan_run_core_ok[OF ok assms(3)] assms(5) by (auto simp: core_ok_def next_ready_def)
  ultimately show ?thesis by simp
qed

theorem reader_wakeup_witness:
  "\<exists>ch1 ch2 :: (nat, string) channel. chan_run channel_new [OpPollNext (Waker 1 None)] = Some ch1 \<and>
     chan_run ch1 [OpPollRecv (Waker 2 None), OpGive 7] = Some ch2 \<and>
     Waker 1 None \<in> set (drop (length (woken ch1)) (woken ch2))"
proof -
  let ?w = "Waker 1 None"
  define ch1 where "ch1 = fst (the (chan_step (channel_new :: (nat, string) channel) (OpPollNext ?w)))"
  define ch2 where "ch2 = the (chan_run ch1 [OpPollRecv (Waker 2 None), OpGive 7])"
  have s: "chan_step channel_new (OpPollNext ?w) = Some (ch1, ONext Pending)"
    unfolding ch1_def by (simp add: channel_new_def core_new_def poll_next_def accepts_input_def remember_def)
  have r: "chan_run ch1 [OpPollRecv (Waker 2 None), OpGive 7] = Some ch2"
    unfolding ch2_def ch1_def
    by (simp add: channel_new_def core_new_def poll_next_def accepts_input_def remember_def
        poll_recv_def give_def)
  have "next_ready (core ch2)"
    unfolding ch2_def ch1_def
    by (simp add: channel_new_def core_new_def poll_next_def accepts_input_def remember_def
        poll_recv_def give_def next_ready_def)
  from reader_wakeup[OF chan_start s r _ this] s r show ?thesis
    by (intro exI[of _ ch1] exI[of _ ch2]) (simp add: reader_op_def)
qed

text \<open>
  the executor's wake-up is not lost either: when its receive was pending and the node has
  since finished, vanished or been cut off, the waker it left has been woken.
\<close>

theorem receiver_wakeup:
  assumes "chan_reach ch" "chan_step ch (OpPollRecv w) = Some (ch1, ORecv Pending)"
    and "chan_run ch1 ops = Some ch2" "list_all (\<lambda>op. \<not> receiver_op op) ops"
    and "recv_ready (core ch2)"
  shows "w \<in> set (drop (length (woken ch1)) (woken ch2))"
proof -
  have ok: "core_ok (core ch1)"
    using chan_reach_ok[OF chan_next[OF assms(1,2)]] by (simp add: chan_ok_def)
  have "event_waker (core ch1) = Some w"
    using assms(2) by (auto simp: poll_recv_def case_prod_unfold split: if_splits node_side.splits)
  then have "event_waker (core ch2) = Some w \<or> w \<in> set (drop (length (woken ch1)) (woken ch2))"
    by (rule run_keeps_or_wakes[where field = event_waker and own = receiver_op, OF _ ok _ assms(3,4), rotated])
       (erule (2) step_event_waker)
  moreover have "event_waker (core ch2) = None"
    using chan_run_core_ok[OF ok assms(3)] assms(5) by (auto simp: core_ok_def recv_ready_def)
  ultimately show ?thesis by simp
qed

theorem receiver_wakeup_witness:
  "\<exists>ch1 ch2 :: (nat, string) channel. chan_run channel_new [OpPollRecv (Waker 2 None)] = Some ch1 \<and>
     chan_run ch1 [OpGive 7, OpDropSender] = Some ch2 \<and>
     Waker 2 None \<in> set (drop (length (woken ch1)) (woken ch2))"
proof -
  let ?w = "Waker 2 None"
  define ch1 where "ch1 = fst (the (chan_step (channel_new :: (nat, string) channel) (OpPollRecv ?w)))"
  define ch2 where "ch2 = the (chan_run ch1 [OpGive 7, OpDropSender])"
  have s: "chan_step channel_new (OpPollRecv ?w) = Some (ch1, ORecv Pending)"
    unfolding ch1_def by (simp add: channel_new_def core_new_def poll_recv_def remember_def)
  have r: "chan_run ch1 [OpGive 7, OpDropSender] = Some ch2"
    unfolding ch2_def ch1_def
    by (simp add: channel_new_def core_new_def poll_recv_def give_def accepts_input_def remember_def)
  have "recv_ready (core ch2)"
    unfolding ch2_def ch1_def
    by (simp add: channel_new_def core_new_def poll_recv_def give_def accepts_input_def remember_def recv_ready_def
        sender_gone_def)
  from receiver_wakeup[OF chan_start s r _ this] s r show ?thesis
    by (intro exI[of _ ch1] exI[of _ ch2]) (simp add: receiver_op_def)
qed

end
