(* ===== verification/Cancel_Tree.thy ===== *)
theory Cancel_Tree
  imports Wakers
begin

text \<open>
  The tree of cancellation tokens: \<open>br-graph-contract/src/cancel\<close> (\<open>shared.rs\<close>, \<open>token.rs\<close>,
  \<open>triggered.rs\<close>). The \<open>Shared\<close> nodes live in an arena, a list in order of creation; an \<open>Arc\<close> or a
  \<open>Weak\<close> is an index and \<open>strong\<close> the count of the \<open>Arc\<close>s. A child is created after its parent, so
  a parent has a smaller index: the guards \<open>p < n\<close> below only serve termination. Each operation
  that takes the lock of a node is one step, and so is each round of the loop of \<open>trigger\<close>.
\<close>

section \<open>Nodes\<close>

record shared =
  triggered :: bool
  live_children :: nat
  parent :: "nat option"
  inner_triggered :: bool
  sh_waiters :: waiters
  children :: "nat list"
  strong :: nat

type_synonym heap = "shared list"

definition PRUNE_SLACK :: nat where
  "PRUNE_SLACK = 16"

definition build_shared :: "bool \<Rightarrow> nat option \<Rightarrow> shared" where
  "build_shared t p = \<lparr>triggered = t, live_children = 0, parent = p, inner_triggered = t,
     sh_waiters = waiters_default, children = [], strong = 1\<rparr>"

definition upd :: "heap \<Rightarrow> nat \<Rightarrow> (shared \<Rightarrow> shared) \<Rightarrow> heap" where
  "upd h n f = h[n := f (h ! n)]"

definition shared_new :: "heap \<Rightarrow> bool \<Rightarrow> heap \<times> nat" where
  "shared_new h t = (h @ [build_shared t None], length h)"

definition clone_arc :: "heap \<Rightarrow> nat \<Rightarrow> heap" where
  "clone_arc h n = upd h n (\<lambda>s. s\<lparr>strong := strong s + 1\<rparr>)"

text \<open>Whether the walk from a node to its root meets a triggered node.\<close>

function is_triggered :: "heap \<Rightarrow> nat \<Rightarrow> bool" where
  "is_triggered h n = (triggered (h ! n) \<or>
     (case parent (h ! n) of Some p \<Rightarrow> if p < n then is_triggered h p else False | None \<Rightarrow> False))"
  by pat_completeness auto
termination by (relation "measure snd") auto

declare is_triggered.simps [simp del]

text \<open>
  Dropping an \<open>Arc\<close>. The last one frees the node: it releases its parent, whose count of live
  children goes down, and the \<open>Arc\<close> the node held on its parent is dropped in turn.
\<close>

definition release_parent :: "heap \<Rightarrow> nat \<Rightarrow> heap \<times> nat option" where
  "release_parent h n = (case parent (h ! n) of
     None \<Rightarrow> (h, None)
   | Some p \<Rightarrow> (upd (upd h n (\<lambda>s. s\<lparr>parent := None\<rparr>)) p
        (\<lambda>s. s\<lparr>live_children := live_children s - 1\<rparr>), Some p))"

function drop_arc :: "heap \<Rightarrow> nat \<Rightarrow> heap" where
  "drop_arc h n = (let h1 = upd h n (\<lambda>s. s\<lparr>strong := strong s - 1\<rparr>) in
     if strong (h1 ! n) > 0 then h1
     else (case release_parent h1 n of
        (h2, Some p) \<Rightarrow> if p < n then drop_arc h2 p else h2
      | (h2, None) \<Rightarrow> h2))"
  by pat_completeness auto
termination by (relation "measure snd") auto

declare drop_arc.simps [simp del]

section \<open>Triggering\<close>

definition fire :: "heap \<Rightarrow> nat \<Rightarrow> heap \<times> waker list \<times> nat list" where
  "fire h n =
     (if inner_triggered (h ! n) then (h, [], [])
      else (case drain_waiters (sh_waiters (h ! n)) of (ws, fired) \<Rightarrow>
        (upd h n (\<lambda>s. s\<lparr>inner_triggered := True, triggered := True, sh_waiters := ws, children := []\<rparr>),
         fired, children (h ! n))))"

definition upgrade_all :: "heap \<Rightarrow> nat list \<Rightarrow> heap \<times> nat list" where
  "upgrade_all h cs = (let live = filter (\<lambda>c. strong (h ! c) > 0) cs in (foldl clone_arc h live, live))"

text \<open>One round of the loop: the top of the stack (its head) is popped, fired and dropped.\<close>

definition trigger_round ::
  "heap \<Rightarrow> nat \<Rightarrow> nat list \<Rightarrow> waker list \<Rightarrow> heap \<times> nat list \<times> waker list" where
  "trigger_round h n pending wakers =
     (case fire h n of (h1, fired, cs) \<Rightarrow>
      case upgrade_all h1 cs of (h2, live) \<Rightarrow>
        (drop_arc h2 n, rev live @ pending, wakers @ fired))"

definition child_slots :: "heap \<Rightarrow> nat" where
  "child_slots h = sum_list (map (\<lambda>s. length (children s)) h)"

lemma length_upd [simp]: "length (upd h n f) = length h"
  by (simp add: upd_def)

lemma nth_upd: "m < length h \<Longrightarrow> upd h n f ! m = (if m = n then f (h ! m) else h ! m)"
  by (auto simp: upd_def nth_list_update)

lemma upd_out [simp]: "length h \<le> n \<Longrightarrow> upd h n f = h"
  by (simp add: upd_def list_update_beyond)

text \<open>What dropping and cloning leave alone.\<close>

definition same_but :: "heap \<Rightarrow> heap \<Rightarrow> bool" where
  "same_but h h' \<longleftrightarrow> length h' = length h \<and> (\<forall>m < length h.
     triggered (h' ! m) = triggered (h ! m) \<and> inner_triggered (h' ! m) = inner_triggered (h ! m)
     \<and> sh_waiters (h' ! m) = sh_waiters (h ! m) \<and> children (h' ! m) = children (h ! m))"

lemma same_but_refl [simp]: "same_but h h"
  by (simp add: same_but_def)

lemma same_but_trans: "same_but a b \<Longrightarrow> same_but b c \<Longrightarrow> same_but a c"
  by (simp add: same_but_def)

lemma same_but_upd:
  assumes "\<And>s. triggered (f s) = triggered s" "\<And>s. inner_triggered (f s) = inner_triggered s"
    "\<And>s. sh_waiters (f s) = sh_waiters s" "\<And>s. children (f s) = children s"
  shows "same_but h (upd h n f)"
  using assms by (simp add: same_but_def nth_upd)

lemma same_but_clone: "same_but h (clone_arc h n)"
  unfolding clone_arc_def by (rule same_but_upd) simp_all

lemma same_but_clones: "same_but h (foldl clone_arc h ns)"
  by (induction ns arbitrary: h) (auto intro: same_but_trans same_but_clone)

lemma same_but_release: "same_but h (fst (release_parent h n))"
  by (auto simp: release_parent_def split: option.splits intro!: same_but_trans[OF same_but_upd same_but_upd])

definition lessen :: "heap \<Rightarrow> nat \<Rightarrow> heap" where
  "lessen h n = upd h n (\<lambda>s. s\<lparr>strong := strong s - 1\<rparr>)"

lemma drop_arc_eq:
  "drop_arc h n = (if strong (lessen h n ! n) > 0 then lessen h n
     else (case release_parent (lessen h n) n of
        (h2, Some p) \<Rightarrow> if p < n then drop_arc h2 p else h2
      | (h2, None) \<Rightarrow> h2))"
  unfolding lessen_def by (subst drop_arc.simps) (simp only: Let_def)

lemma drop_arc_induct:
  assumes "\<And>h n. (\<And>h2 p. \<not> strong (lessen h n ! n) > 0 \<Longrightarrow>
      release_parent (lessen h n) n = (h2, Some p) \<Longrightarrow> p < n \<Longrightarrow> P h2 p) \<Longrightarrow> P h n"
  shows "P h n"
proof (induction n arbitrary: h rule: less_induct)
  case (less n)
  then show ?case using assms by blast
qed

lemma same_but_lessen: "same_but h (lessen h n)"
  unfolding lessen_def by (rule same_but_upd) simp_all

lemma same_but_drop: "same_but h (drop_arc h n)"
proof (induction h n rule: drop_arc_induct)
  case (1 h n)
  obtain h2 q where r: "release_parent (lessen h n) n = (h2, q)" by (cases "release_parent (lessen h n) n")
  have h2: "same_but h h2"
    using same_but_trans[OF same_but_lessen same_but_release, of h n n] by (simp add: r)
  have "\<not> strong (lessen h n ! n) > 0 \<Longrightarrow> q = Some p \<Longrightarrow> p < n \<Longrightarrow> same_but h (drop_arc h2 p)" for p
    using 1[of h2 p] h2 same_but_trans by (auto simp: r)
  with h2 show ?case
    by (subst drop_arc_eq) (auto simp: r same_but_lessen split: option.splits)
qed

lemma child_slots_same: "same_but h h' \<Longrightarrow> child_slots h' = child_slots h"
  unfolding child_slots_def same_but_def
  by (intro arg_cong[where f = sum_list]) (simp add: list_eq_iff_nth_eq)

lemma child_slots_fire:
  assumes "fire h n = (h1, fired, cs)" "n < length h"
  shows "child_slots h1 + length cs = child_slots h"
proof -
  have "child_slots (upd h n f) + length (children (h ! n)) = child_slots h"
    if "\<And>s. children (f s) = []" for f
  proof -
    have "map (\<lambda>s. length (children s)) (upd h n f) = (map (\<lambda>s. length (children s)) h)[n := 0]"
      using that by (simp add: upd_def map_update)
    then show ?thesis
      using assms(2) member_le_sum_list[of "length (children (h ! n))" "map (\<lambda>s. length (children s)) h"]
      by (simp add: child_slots_def sum_list_update)
  qed
  then show ?thesis using assms(1)
    by (auto simp: fire_def drain_waiters_def split: if_splits)
qed

lemma trigger_round_measure:
  assumes "n < length h" "trigger_round h n pending wakers = (h', pending', wakers')"
  shows "length pending' + child_slots h' < Suc (length pending) + child_slots h"
    and "length h' = length h"
proof -
  obtain h1 fired cs where f: "fire h n = (h1, fired, cs)" by (cases "fire h n")
  obtain h2 live where u: "upgrade_all h1 cs = (h2, live)" by (cases "upgrade_all h1 cs")
  have s: "same_but h1 h'" and p: "pending' = rev live @ pending"
    and l: "length live \<le> length cs"
    using assms(2) f u same_but_trans[OF same_but_clones same_but_drop]
    by (auto simp: trigger_round_def upgrade_all_def Let_def)
  then show "length pending' + child_slots h' < Suc (length pending) + child_slots h"
    using child_slots_fire[OF f assms(1)] child_slots_same[OF s] by simp
  have "length h1 = length h" using f by (auto simp: fire_def split: if_splits prod.splits)
  with s show "length h' = length h" by (simp add: same_but_def)
qed

text \<open>The whole loop. A node that is not in the arena cannot be on the stack.\<close>

function trigger_loop :: "heap \<Rightarrow> nat list \<Rightarrow> waker list \<Rightarrow> heap \<times> waker list" where
  "trigger_loop h [] wakers = (h, wakers)"
| "trigger_loop h (n # pending) wakers =
     (if n < length h then
        (case trigger_round h n pending wakers of (h', pending', wakers') \<Rightarrow>
           trigger_loop h' pending' wakers')
      else trigger_loop h pending wakers)"
  by pat_completeness auto
termination
  by (relation "measure (\<lambda>(h, pending, wakers). length pending + child_slots h)")
     (auto split: prod.splits dest: trigger_round_measure(1))

definition trigger :: "heap \<Rightarrow> nat \<Rightarrow> heap \<times> waker list" where
  "trigger h n = (case trigger_loop (clone_arc h n) [n] [] of
     (h', wakers) \<Rightarrow> (h', fst (wake_all_isolated wakers)))"

section \<open>Children and waiters\<close>

definition child :: "heap \<Rightarrow> nat \<Rightarrow> heap \<times> nat" where
  "child h n =
     (if inner_triggered (h ! n) then shared_new h True
      else
        let live = live_children (h ! n);
            limit = usize_sat (usize_sat (live * 2) + PRUNE_SLACK);
            kept = (if limit \<le> length (children (h ! n))
                    then filter (\<lambda>c. strong (h ! c) > 0) (children (h ! n))
                    else children (h ! n));
            c = length h
        in (upd h n (\<lambda>s. s\<lparr>live_children := live_children s + 1, children := kept @ [c],
              strong := strong s + 1\<rparr>) @ [build_shared False (Some n)], c))"

definition poll_triggered ::
  "heap \<Rightarrow> nat \<Rightarrow> 64 word option \<Rightarrow> waker \<Rightarrow> heap \<times> 64 word option \<times> bool" where
  "poll_triggered h n key w =
     (if is_triggered h n then (h, key, True)
      else (case register (sh_waiters (h ! n)) key w of
        (ws, key', _) \<Rightarrow> (upd h n (\<lambda>s. s\<lparr>sh_waiters := ws\<rparr>), key', False)))"

definition remove_triggered_waiter :: "heap \<Rightarrow> nat \<Rightarrow> 64 word \<Rightarrow> heap" where
  "remove_triggered_waiter h n key =
     upd h n (\<lambda>s. s\<lparr>sh_waiters := fst (remove_waiter (sh_waiters s) key)\<rparr>)"
section \<open>The invariant of the arena\<close>

text \<open>
  \<open>linked\<close> is the heart of it: a live node that is not triggered is listed by its parent, or its
  parent was triggered and the node waits on the stack of a trigger that is still running
  (\<open>pend\<close>, the nodes on all stacks).
\<close>

definition parents_below :: "heap \<Rightarrow> bool" where
  "parents_below h \<longleftrightarrow> (\<forall>n < length h. \<forall>p. parent (h ! n) = Some p \<longrightarrow> p < n)"

definition shared_ok :: "shared \<Rightarrow> bool" where
  "shared_ok s \<longleftrightarrow> inner_triggered s = triggered s \<and> waiters_ok (sh_waiters s)
     \<and> (triggered s \<longrightarrow> held (sh_waiters s) = Map.empty \<and> children s = [])
     \<and> (strong s = 0 \<longrightarrow> parent s = None)"

definition slots_ok :: "heap \<Rightarrow> bool" where
  "slots_ok h \<longleftrightarrow> (\<forall>p < length h. distinct (children (h ! p)) \<and> (\<forall>c \<in> set (children (h ! p)).
     c < length h \<and> (strong (h ! c) > 0 \<longrightarrow> parent (h ! c) = Some p)))"

definition linked :: "heap \<Rightarrow> nat set \<Rightarrow> bool" where
  "linked h pend \<longleftrightarrow> (\<forall>n < length h. \<forall>p. parent (h ! n) = Some p \<and> strong (h ! n) > 0
     \<and> \<not> triggered (h ! n) \<longrightarrow> n \<in> (if triggered (h ! p) then pend else set (children (h ! p))))"

definition child_count :: "heap \<Rightarrow> nat \<Rightarrow> nat" where
  "child_count h p = card {c. c < length h \<and> parent (h ! c) = Some p}"

definition counted :: "heap \<Rightarrow> bool" where
  "counted h \<longleftrightarrow> (\<forall>p < length h. live_children (h ! p) = child_count h p)"

definition tree_ok :: "heap \<Rightarrow> nat set \<Rightarrow> bool" where
  "tree_ok h pend \<longleftrightarrow> parents_below h \<and> (\<forall>s \<in> set h. shared_ok s) \<and> slots_ok h
     \<and> linked h pend \<and> counted h"

lemma tree_ok_mono: "tree_ok h A \<Longrightarrow> A \<subseteq> B \<Longrightarrow> tree_ok h B"
  unfolding tree_ok_def linked_def by (metis subsetD)

lemma tree_okD:
  assumes "tree_ok h pend" "n < length h"
  shows "shared_ok (h ! n)" "parent (h ! n) = Some p \<Longrightarrow> p < n"
    "live_children (h ! n) = child_count h n" "distinct (children (h ! n))"
  using assms by (auto simp: tree_ok_def parents_below_def counted_def slots_ok_def)

lemma linkedD:
  assumes "tree_ok h pend" "n < length h" "parent (h ! n) = Some q \<and> 0 < strong (h ! n) \<and> \<not> triggered (h ! n)"
  shows "n \<in> (if triggered (h ! q) then pend else set (children (h ! q)))"
  using assms unfolding tree_ok_def linked_def by blast

text \<open>Changes of the count of \<open>Arc\<close>s that free nothing, and changes of waiters.\<close>

lemma tree_ok_cong:
  assumes ok: "tree_ok h pend" and len: "length h' = length h"
    and same: "\<And>m. m < length h \<Longrightarrow> parent (h' ! m) = parent (h ! m) \<and> triggered (h' ! m) = triggered (h ! m)
      \<and> inner_triggered (h' ! m) = inner_triggered (h ! m) \<and> children (h' ! m) = children (h ! m)
      \<and> live_children (h' ! m) = live_children (h ! m) \<and> (strong (h' ! m) > 0) = (strong (h ! m) > 0)"
    and wait: "\<And>m. m < length h \<Longrightarrow> waiters_ok (sh_waiters (h' ! m)) \<and>
      (triggered (h ! m) \<longrightarrow> held (sh_waiters (h' ! m)) = Map.empty)"
  shows "tree_ok h' pend"
proof -
  have p: "\<And>m. m < length h \<Longrightarrow> parent (h' ! m) = parent (h ! m)"
    and t: "\<And>m. m < length h \<Longrightarrow> triggered (h' ! m) = triggered (h ! m)"
    and i: "\<And>m. m < length h \<Longrightarrow> inner_triggered (h' ! m) = inner_triggered (h ! m)"
    and c: "\<And>m. m < length h \<Longrightarrow> children (h' ! m) = children (h ! m)"
    and l: "\<And>m. m < length h \<Longrightarrow> live_children (h' ! m) = live_children (h ! m)"
    and s: "\<And>m. m < length h \<Longrightarrow> (strong (h' ! m) > 0) = (strong (h ! m) > 0)"
    using same by blast+
  have 1: "parents_below h'" using ok by (simp add: tree_ok_def parents_below_def len p)
  have "shared_ok (h' ! m)" if "m < length h" for m
    using tree_okD(1)[OF ok that] wait[OF that] that s[OF that] by (auto simp: shared_ok_def p t i c)
  then have 2: "\<forall>s \<in> set h'. shared_ok s" by (simp add: all_set_conv_all_nth len)
  have 3: "slots_ok h'" using ok unfolding tree_ok_def slots_ok_def len
    by (metis c p s)
  have par: "p < length h" if "n < length h" "parent (h ! n) = Some p" for n p
    using tree_okD(2)[OF ok that] that(1) by simp
  have 4: "linked h' pend" unfolding linked_def len
  proof (intro allI impI)
    fix n q assume n: "n < length h" and A: "parent (h' ! n) = Some q \<and> 0 < strong (h' ! n) \<and> \<not> triggered (h' ! n)"
    then have "parent (h ! n) = Some q \<and> 0 < strong (h ! n) \<and> \<not> triggered (h ! n)"
      by (simp add: p t s)
    moreover from this have "q < length h" using par n by blast
    ultimately show "n \<in> (if triggered (h' ! q) then pend else set (children (h' ! q)))"
      using linkedD[OF ok n] by (simp add: t c split: if_splits)
  qed
  have "child_count h' q = child_count h q" for q
  proof -
    have "{c. c < length h \<and> parent (h' ! c) = Some q} = {c. c < length h \<and> parent (h ! c) = Some q}"
      using p by auto
    then show ?thesis by (simp add: child_count_def len)
  qed
  then have 5: "counted h'" using ok by (simp add: tree_ok_def counted_def len l)
  from 1 2 3 4 5 show ?thesis by (simp add: tree_ok_def)
qed

lemma tree_ok_strong:
  assumes "tree_ok h pend" "\<And>s. f s = s\<lparr>strong := g (strong s)\<rparr>" "(g (strong (h ! n)) > 0) = (strong (h ! n) > 0)"
  shows "tree_ok (upd h n f) pend"
proof (cases "n < length h")
  case True
  show ?thesis
    by (rule tree_ok_cong[OF assms(1)])
       (use tree_okD(1)[OF assms(1)] assms(2,3) in \<open>auto simp: nth_upd shared_ok_def\<close>)
qed (use assms(1) in simp)

lemma tree_ok_clone: "tree_ok h pend \<Longrightarrow> strong (h ! n) > 0 \<Longrightarrow> tree_ok (clone_arc h n) pend"
  unfolding clone_arc_def by (rule tree_ok_strong[where g = Suc]) simp_all

lemma strong_clone: "m < length h \<Longrightarrow> strong (clone_arc h n ! m) = (if m = n then Suc (strong (h ! m)) else strong (h ! m))"
  by (simp add: clone_arc_def nth_upd)

lemma tree_ok_clones:
  "tree_ok h pend \<Longrightarrow> \<forall>c \<in> set cs. c < length h \<and> strong (h ! c) > 0 \<Longrightarrow> tree_ok (foldl clone_arc h cs) pend"
proof (induction cs arbitrary: h)
  case (Cons c cs)
  have "tree_ok (clone_arc h c) pend" using Cons.prems by (intro tree_ok_clone) simp_all
  moreover have "\<forall>d \<in> set cs. d < length (clone_arc h c) \<and> strong (clone_arc h c ! d) > 0"
    using Cons.prems by (simp add: strong_clone) (simp add: clone_arc_def)
  ultimately show ?case using Cons.IH by simp
qed simp

text \<open>Freeing a node that has a parent: both change.\<close>

lemma tree_ok_release:
  assumes ok: "tree_ok h pend" and n: "n < length h" and p: "parent (h ! n) = Some p"
    and h': "h' = upd (upd (upd h n (\<lambda>s. s\<lparr>strong := 0\<rparr>)) n (\<lambda>s. s\<lparr>parent := None\<rparr>)) p
        (\<lambda>s. s\<lparr>live_children := live_children s - 1\<rparr>)"
  shows "tree_ok h' pend"
proof -
  have pn: "p < n" using tree_okD(2)[OF ok n p] .
  have nth: "h' ! m = (if m = n then (h ! m)\<lparr>strong := 0, parent := None\<rparr>
      else if m = p then (h ! m)\<lparr>live_children := live_children (h ! m) - 1\<rparr> else h ! m)"
    if "m < length h" for m
    using that n pn by (simp add: h' nth_upd)
  have len: "length h' = length h" by (simp add: h')
  have 1: "parents_below h'" using ok by (auto simp: tree_ok_def parents_below_def len nth)
  have "shared_ok (h' ! m)" if "m < length h" for m
    using tree_okD(1)[OF ok that] that by (auto simp: shared_ok_def nth)
  then have 2: "\<forall>s \<in> set h'. shared_ok s" by (simp add: all_set_conv_all_nth len)
  have ch: "children (h' ! m) = children (h ! m)" "triggered (h' ! m) = triggered (h ! m)"
    if "m < length h" for m using that by (simp_all add: nth)
  have 3: "slots_ok h'" unfolding slots_ok_def len
  proof (intro allI impI conjI ballI)
    fix q assume q: "q < length h"
    show "distinct (children (h' ! q))" using tree_okD(4)[OF ok q] by (simp add: ch q)
    fix c assume "c \<in> set (children (h' ! q))"
    then have "c < length h \<and> (strong (h ! c) > 0 \<longrightarrow> parent (h ! c) = Some q)"
      using ok q by (simp add: tree_ok_def slots_ok_def ch)
    then show "c < length h" "0 < strong (h' ! c) \<Longrightarrow> parent (h' ! c) = Some q"
      by (auto simp: nth split: if_splits)
  qed
  have 4: "linked h' pend" unfolding linked_def len
  proof (intro allI impI)
    fix m q assume m: "m < length h" and A: "parent (h' ! m) = Some q \<and> 0 < strong (h' ! m) \<and> \<not> triggered (h' ! m)"
    then have B: "parent (h ! m) = Some q \<and> 0 < strong (h ! m) \<and> \<not> triggered (h ! m)"
      by (auto simp: nth split: if_splits)
    then have "q < length h" using tree_okD(2)[OF ok m] m by fastforce
    with B show "m \<in> (if triggered (h' ! q) then pend else set (children (h' ! q)))"
      using linkedD[OF ok m] by (simp add: ch split: if_splits)
  qed
  have cc: "child_count h' q = child_count h q - (if q = p then 1 else 0)" for q
  proof -
    have "{c. c < length h \<and> parent (h' ! c) = Some q} = {c. c < length h \<and> parent (h ! c) = Some q} - {n}"
      by (auto simp: nth split: if_splits)
    moreover have "n \<in> {c. c < length h \<and> parent (h ! c) = Some q} \<longleftrightarrow> q = p" using n p by auto
    ultimately show ?thesis by (simp add: child_count_def len card_Diff_singleton_if)
  qed
  have 5: "counted h'"
    unfolding counted_def len
    using tree_okD(3)[OF ok] pn by (auto simp: nth cc)
  from 1 2 3 4 5 show ?thesis by (simp add: tree_ok_def)
qed

lemma tree_ok_free_root:
  assumes ok: "tree_ok h pend" and n: "n < length h" and none: "parent (h ! n) = None"
    and h': "h' = upd h n (\<lambda>s. s\<lparr>strong := 0\<rparr>)"
  shows "tree_ok h' pend"
proof -
  have nth: "h' ! m = (if m = n then (h ! m)\<lparr>strong := 0\<rparr> else h ! m)" if "m < length h" for m
    using that by (simp add: h' nth_upd)
  have len: "length h' = length h" by (simp add: h')
  have f: "parent (h' ! m) = parent (h ! m)" "children (h' ! m) = children (h ! m)"
    "triggered (h' ! m) = triggered (h ! m)" "live_children (h' ! m) = live_children (h ! m)"
    if "m < length h" for m using that by (simp_all add: nth)
  have 1: "parents_below h'" using ok by (simp add: tree_ok_def parents_below_def len f)
  have "shared_ok (h' ! m)" if "m < length h" for m
    using tree_okD(1)[OF ok that] that none by (auto simp: shared_ok_def nth)
  then have 2: "\<forall>s \<in> set h'. shared_ok s" by (simp add: all_set_conv_all_nth len)
  have 3: "slots_ok h'" using ok by (auto simp: tree_ok_def slots_ok_def len nth)
  have 4: "linked h' pend" unfolding linked_def len
  proof (intro allI impI)
    fix m q assume m: "m < length h" and A: "parent (h' ! m) = Some q \<and> 0 < strong (h' ! m) \<and> \<not> triggered (h' ! m)"
    then have B: "parent (h ! m) = Some q \<and> 0 < strong (h ! m) \<and> \<not> triggered (h ! m)"
      by (auto simp: nth split: if_splits)
    then have "q < length h" using tree_okD(2)[OF ok m] m by fastforce
    with B show "m \<in> (if triggered (h' ! q) then pend else set (children (h' ! q)))"
      using linkedD[OF ok m] by (simp add: f split: if_splits)
  qed
  have "child_count h' q = child_count h q" for q
  proof -
    have "{c. c < length h \<and> parent (h' ! c) = Some q} = {c. c < length h \<and> parent (h ! c) = Some q}"
      using f by auto
    then show ?thesis by (simp add: child_count_def len)
  qed
  then have 5: "counted h'" using ok by (simp add: tree_ok_def counted_def len f)
  from 1 2 3 4 5 show ?thesis by (simp add: tree_ok_def)
qed

lemma tree_ok_drop: "tree_ok h pend \<Longrightarrow> n < length h \<Longrightarrow> tree_ok (drop_arc h n) pend"
proof (induction h n rule: drop_arc_induct)
  case (1 h n)
  show ?case
  proof (cases "strong (lessen h n ! n) > 0")
    case True
    then have "strong (h ! n) - 1 > 0" using 1(3) by (simp add: lessen_def nth_upd)
    then have "tree_ok (lessen h n) pend" unfolding lessen_def
      by (intro tree_ok_strong[where g = "\<lambda>k. k - 1", OF 1(2)]) simp_all
    with True show ?thesis by (subst drop_arc_eq) simp
  next
    case False
    then have z: "strong (h ! n) - 1 = 0" using 1(3) by (simp add: lessen_def nth_upd)
    have l: "lessen h n = upd h n (\<lambda>s. s\<lparr>strong := 0\<rparr>)" using z by (simp add: lessen_def upd_def)
    have par: "parent (lessen h n ! n) = parent (h ! n)" using 1(3) by (simp add: lessen_def nth_upd)
    show ?thesis
    proof (cases "parent (h ! n)")
      case None
      have "tree_ok (lessen h n) pend" by (rule tree_ok_free_root[OF 1(2,3) None l])
      then show ?thesis using False None par by (subst drop_arc_eq) (simp add: release_parent_def)
    next
      case (Some p)
      let ?h2 = "upd (upd (lessen h n) n (\<lambda>s. s\<lparr>parent := None\<rparr>)) p
        (\<lambda>s. s\<lparr>live_children := live_children s - 1\<rparr>)"
      have r: "release_parent (lessen h n) n = (?h2, Some p)"
        using Some par by (simp add: release_parent_def)
      have pn: "p < n" using tree_okD(2)[OF 1(2,3) Some] .
      have "tree_ok ?h2 pend" by (rule tree_ok_release[OF 1(2,3) Some]) (simp add: l)
      then have "tree_ok (drop_arc ?h2 p) pend"
        using 1(1)[OF False r pn] pn 1(3) by (simp add: lessen_def)
      then show ?thesis using False r pn by (subst drop_arc_eq) simp
    qed
  qed
qed

text \<open>Firing a node: what it listed moves to the stack.\<close>

lemma tree_ok_fire:
  assumes ok: "tree_ok h pend" and n: "n < length h" and f: "fire h n = (h1, fired, cs)"
  shows "tree_ok h1 (pend - {n} \<union> {c \<in> set cs. strong (h ! c) > 0})"
    and "length h1 = length h" and "triggered (h1 ! n)"
    and "\<forall>c \<in> set cs. c < length h"
    and "\<And>m. m < length h \<Longrightarrow> strong (h1 ! m) = strong (h ! m)"
proof -
  let ?pend = "pend - {n} \<union> {c \<in> set cs. strong (h ! c) > 0}"
  have both: "inner_triggered (h ! n) = triggered (h ! n)"
    using tree_okD(1)[OF ok n] by (simp add: shared_ok_def)
  have "tree_ok h1 ?pend \<and> length h1 = length h \<and> triggered (h1 ! n) \<and> (\<forall>c \<in> set cs. c < length h)
    \<and> (\<forall>m < length h. strong (h1 ! m) = strong (h ! m))"
  proof (cases "triggered (h ! n)")
    case True
    then have h1: "h1 = h" "cs = []" using f both by (simp_all add: fire_def)
    have "linked h (pend - {n})" unfolding linked_def
    proof (intro allI impI)
      fix m q assume m: "m < length h"
        and A: "parent (h ! m) = Some q \<and> 0 < strong (h ! m) \<and> \<not> triggered (h ! m)"
      then have "m \<noteq> n" using True by auto
      with linkedD[OF ok m A] show "m \<in> (if triggered (h ! q) then pend - {n} else set (children (h ! q)))"
        by (simp split: if_splits)
    qed
    then have "tree_ok h (pend - {n})" using ok by (simp add: tree_ok_def)
    then show ?thesis using True h1 tree_ok_mono[of h "pend - {n}" ?pend] by simp
  next
    case False
    let ?ws = "fst (drain_waiters (sh_waiters (h ! n)))"
    have h1: "h1 = upd h n (\<lambda>s. s\<lparr>inner_triggered := True, triggered := True, sh_waiters := ?ws, children := []\<rparr>)"
      and cs: "cs = children (h ! n)"
      using f both False by (auto simp: fire_def split: prod.splits)
    have len: "length h1 = length h" by (simp add: h1)
    have nth: "h1 ! m = (if m = n then (h ! m)\<lparr>inner_triggered := True, triggered := True, sh_waiters := ?ws, children := []\<rparr>
        else h ! m)" if "m < length h" for m
      using that by (simp add: h1 nth_upd)
    have g: "parent (h1 ! m) = parent (h ! m)" "strong (h1 ! m) = strong (h ! m)"
      "live_children (h1 ! m) = live_children (h ! m)" if "m < length h" for m
      using that by (simp_all add: nth)
    have 1: "parents_below h1" using ok by (simp add: tree_ok_def parents_below_def len g)
    have "shared_ok (h1 ! m)" if "m < length h" for m
      using tree_okD(1)[OF ok that] that
      by (auto simp: shared_ok_def nth wr.drn_ok wr.drn_look)
    then have 2: "\<forall>s \<in> set h1. shared_ok s" by (simp add: all_set_conv_all_nth len)
    have 3: "slots_ok h1" using ok by (auto simp: tree_ok_def slots_ok_def len nth)
    have 4: "linked h1 ?pend" unfolding linked_def len
    proof (intro allI impI)
      fix m q assume m: "m < length h"
        and A: "parent (h1 ! m) = Some q \<and> 0 < strong (h1 ! m) \<and> \<not> triggered (h1 ! m)"
      then have mn: "m \<noteq> n" and B: "parent (h ! m) = Some q \<and> 0 < strong (h ! m) \<and> \<not> triggered (h ! m)"
        by (auto simp: nth split: if_splits)
      then have "q < length h" using tree_okD(2)[OF ok m] m by fastforce
      with linkedD[OF ok m B] B mn False show "m \<in> (if triggered (h1 ! q) then ?pend else set (children (h1 ! q)))"
        by (auto simp: nth cs split: if_splits)
    qed
    have "child_count h1 q = child_count h q" for q
    proof -
      have "{c. c < length h \<and> parent (h1 ! c) = Some q} = {c. c < length h \<and> parent (h ! c) = Some q}"
        using g by auto
      then show ?thesis by (simp add: child_count_def len)
    qed
    then have 5: "counted h1" using ok by (simp add: tree_ok_def counted_def len g)
    have "\<forall>c \<in> set cs. c < length h" using ok n by (auto simp: tree_ok_def slots_ok_def cs)
    moreover have "tree_ok h1 ?pend" using 1 2 3 4 5 by (simp add: tree_ok_def)
    ultimately show ?thesis using len n g(2) by (simp add: nth)
  qed
  then show "tree_ok h1 ?pend" "length h1 = length h" "triggered (h1 ! n)" "\<forall>c \<in> set cs. c < length h"
    "\<And>m. m < length h \<Longrightarrow> strong (h1 ! m) = strong (h ! m)" by blast+
qed

lemma round_parts:
  assumes "trigger_round h n pending wakers = (h', pending', wakers')"
  obtains h1 fired cs live where "fire h n = (h1, fired, cs)"
    "live = filter (\<lambda>c. strong (h1 ! c) > 0) cs" "h' = drop_arc (foldl clone_arc h1 live) n"
    "pending' = rev live @ pending" "wakers' = wakers @ fired"
  using assms by (auto simp: trigger_round_def upgrade_all_def Let_def split: prod.splits)

lemma same_but_length: "same_but a b \<Longrightarrow> length b = length a"
  by (simp add: same_but_def)

lemma tree_ok_round:
  assumes ok: "tree_ok h pend" and n: "n < length h"
    and r: "trigger_round h n pending wakers = (h', pending', wakers')"
  shows "tree_ok h' (pend - {n} \<union> set pending')" and "\<forall>c \<in> set pending' - set pending. c < length h"
    and "triggered (h' ! n)"
proof -
  from r obtain h1 fired cs live where f: "fire h n = (h1, fired, cs)"
    and live: "live = filter (\<lambda>c. strong (h1 ! c) > 0) cs" and h': "h' = drop_arc (foldl clone_arc h1 live) n"
    and p': "pending' = rev live @ pending" by (rule round_parts)
  note F = tree_ok_fire[OF ok n f]
  have s: "same_but h1 (foldl clone_arc h1 live)" by (rule same_but_clones)
  have live_in: "\<forall>c \<in> set live. c < length h1 \<and> strong (h1 ! c) > 0"
    using F(2,4) by (simp add: live)
  have set_live: "set live = {c \<in> set cs. strong (h ! c) > 0}" using F(4,5) by (auto simp: live)
  have "tree_ok h1 (pend - {n} \<union> set live)" using F(1) by (simp add: set_live)
  then have "tree_ok (foldl clone_arc h1 live) (pend - {n} \<union> set live)"
    using live_in by (rule tree_ok_clones)
  then have "tree_ok h' (pend - {n} \<union> set live)"
    unfolding h' by (rule tree_ok_drop) (use n F(2) same_but_length[OF s] in simp)
  then show "tree_ok h' (pend - {n} \<union> set pending')"
    by (rule tree_ok_mono) (auto simp: p')
  show "\<forall>c \<in> set pending' - set pending. c < length h" using F(4) by (auto simp: p' live)
  have "same_but h1 h'" unfolding h' using s same_but_drop by (rule same_but_trans)
  then show "triggered (h' ! n)" using F(2,3) n by (simp add: same_but_def)
qed

lemma tree_ok_waiters:
  assumes ok: "tree_ok h pend" and n: "n < length h"
    and ws: "waiters_ok ws" "triggered (h ! n) \<Longrightarrow> held ws = Map.empty"
  shows "tree_ok (upd h n (\<lambda>s. s\<lparr>sh_waiters := ws\<rparr>)) pend"
  by (rule tree_ok_cong[OF ok])
     (use tree_okD(1)[OF ok] ws in \<open>auto simp: nth_upd shared_ok_def\<close>)

lemma triggered_is_triggered: "triggered (h ! n) \<Longrightarrow> is_triggered h n"
  by (subst is_triggered.simps) simp

lemma tree_ok_poll:
  assumes ok: "tree_ok h pend" and n: "n < length h"
  shows "tree_ok (fst (poll_triggered h n key w)) pend"
proof (cases "is_triggered h n")
  case False
  then have "\<not> triggered (h ! n)" using triggered_is_triggered by blast
  moreover have "waiters_ok (fst (register (sh_waiters (h ! n)) key w))"
    using tree_okD(1)[OF ok n] by (intro wr.reg_ok) (simp add: shared_ok_def)
  ultimately show ?thesis using False tree_ok_waiters[OF ok n]
    by (simp add: poll_triggered_def case_prod_unfold)
qed (use ok in \<open>simp add: poll_triggered_def\<close>)

lemma tree_ok_remove_waiter:
  assumes ok: "tree_ok h pend" and n: "n < length h"
  shows "tree_ok (remove_triggered_waiter h n key) pend"
proof -
  have w: "waiters_ok (sh_waiters (h ! n))" using tree_okD(1)[OF ok n] by (simp add: shared_ok_def)
  have "upd h n (\<lambda>s. s\<lparr>sh_waiters := fst (remove_waiter (sh_waiters s) key)\<rparr>) =
      upd h n (\<lambda>s. s\<lparr>sh_waiters := fst (remove_waiter (sh_waiters (h ! n)) key)\<rparr>)"
    by (simp add: upd_def)
  then show ?thesis unfolding remove_triggered_waiter_def
    using tree_ok_waiters[OF ok n wr.rem_ok[OF w]] tree_okD(1)[OF ok n]
    by (auto simp: shared_ok_def wr.rem_look[OF w])
qed

lemma child_count_append:
  "child_count (h @ [s]) q = child_count h q + (if parent s = Some q then 1 else 0)"
proof -
  have "{c. c < length (h @ [s]) \<and> parent ((h @ [s]) ! c) = Some q}
      = {c. c < length h \<and> parent (h ! c) = Some q} \<union> (if parent s = Some q then {length h} else {})"
    by (auto simp: nth_append less_Suc_eq)
  then show ?thesis by (simp add: child_count_def card_insert_if)
qed

lemma child_count_none: "\<forall>c < length h. parent (h ! c) \<noteq> Some q \<Longrightarrow> child_count h q = 0"
  by (auto simp: child_count_def)

text \<open>A node appended to the arena: a root, or a child its parent already lists and counts.\<close>

lemma tree_ok_append:
  assumes par: "parents_below h" and ok: "\<forall>s \<in> set h. shared_ok s" and slots: "slots_ok (h @ [s])"
    and link: "linked (h @ [s]) pend"
    and s: "shared_ok s" "\<And>p. parent s = Some p \<Longrightarrow> p < length h" "live_children s = 0"
    and count: "\<And>q. q < length h \<Longrightarrow> live_children (h ! q) = child_count h q + (if parent s = Some q then 1 else 0)"
  shows "tree_ok (h @ [s]) pend"
proof -
  have "parents_below (h @ [s])"
    using par s(2) by (auto simp: parents_below_def nth_append less_Suc_eq)
  moreover have "child_count h (length h) = 0" using par by (intro child_count_none) (fastforce simp: parents_below_def)
  then have "counted (h @ [s])"
    using count s(2,3) by (auto simp: counted_def child_count_append nth_append less_Suc_eq)
  ultimately show ?thesis using ok s(1) slots link by (auto simp: tree_ok_def)
qed

lemma tree_ok_new:
  assumes ok: "tree_ok h pend"
  shows "tree_ok (fst (shared_new h t)) pend"
proof -
  have "slots_ok (h @ [build_shared t None])"
    using ok by (auto simp: tree_ok_def slots_ok_def nth_append less_Suc_eq build_shared_def)
  moreover have "linked (h @ [build_shared t None]) pend" unfolding linked_def
  proof (intro allI impI)
    fix m q assume m: "m < length (h @ [build_shared t None])"
      and A: "parent ((h @ [build_shared t None]) ! m) = Some q \<and> 0 < strong ((h @ [build_shared t None]) ! m)
        \<and> \<not> triggered ((h @ [build_shared t None]) ! m)"
    have mh: "m < length h" using m A by (cases "m = length h") (auto simp: build_shared_def nth_append)
    with A have B: "parent (h ! m) = Some q \<and> 0 < strong (h ! m) \<and> \<not> triggered (h ! m)"
      by (simp add: nth_append)
    with tree_okD(2)[OF ok mh] mh have "q < length h" by fastforce
    with linkedD[OF ok mh B] show "m \<in> (if triggered ((h @ [build_shared t None]) ! q) then pend
        else set (children ((h @ [build_shared t None]) ! q)))"
      by (simp add: nth_append split: if_splits)
  qed
  ultimately have "tree_ok (h @ [build_shared t None]) pend"
    using ok by (intro tree_ok_append)
      (auto simp: build_shared_def shared_ok_def tree_ok_def counted_def)
  then show ?thesis by (simp add: shared_new_def)
qed

lemma child_shape:
  assumes ok: "tree_ok h pend" and n: "n < length h" and t: "\<not> triggered (h ! n)"
  shows "\<exists>kept. child h n = (upd h n (\<lambda>s. s\<lparr>live_children := live_children s + 1,
        children := kept @ [length h], strong := strong s + 1\<rparr>) @ [build_shared False (Some n)], length h)
    \<and> distinct kept \<and> set kept \<subseteq> set (children (h ! n))
    \<and> (\<forall>c \<in> set (children (h ! n)). strong (h ! c) > 0 \<longrightarrow> c \<in> set kept)
    \<and> (length kept < usize_max \<longrightarrow> length kept \<le> 2 * live_children (h ! n) + PRUNE_SLACK)"
proof -
  let ?cs = "children (h ! n)"
  let ?limit = "usize_sat (usize_sat (live_children (h ! n) * 2) + PRUNE_SLACK)"
  define kept where "kept = (if ?limit \<le> length ?cs then filter (\<lambda>c. strong (h ! c) > 0) ?cs else ?cs)"
  have "\<not> inner_triggered (h ! n)" using tree_okD(1)[OF ok n] t by (simp add: shared_ok_def)
  then have c: "child h n = (upd h n (\<lambda>s. s\<lparr>live_children := live_children s + 1,
      children := kept @ [length h], strong := strong s + 1\<rparr>) @ [build_shared False (Some n)], length h)"
    by (simp add: child_def Let_def kept_def)
  have d: "distinct ?cs" by (rule tree_okD(4)[OF ok n])
  have "length (filter (\<lambda>c. strong (h ! c) > 0) ?cs) \<le> live_children (h ! n)"
  proof -
    have "set (filter (\<lambda>c. strong (h ! c) > 0) ?cs) \<subseteq> {c. c < length h \<and> parent (h ! c) = Some n}"
      using ok n by (auto simp: tree_ok_def slots_ok_def)
    then have "card (set (filter (\<lambda>c. strong (h ! c) > 0) ?cs)) \<le> child_count h n"
      unfolding child_count_def by (intro card_mono) auto
    then show ?thesis
      using tree_okD(3)[OF ok n] distinct_card[OF distinct_filter[OF d]] by simp
  qed
  then have "length kept \<le> 2 * live_children (h ! n) + PRUNE_SLACK" if "length kept < usize_max"
    using that by (auto simp: kept_def PRUNE_SLACK_def usize_sat_def min_def split: if_splits)
  moreover have "distinct kept" "set kept \<subseteq> set ?cs" using d by (simp_all add: kept_def)
  moreover have "\<forall>c \<in> set ?cs. strong (h ! c) > 0 \<longrightarrow> c \<in> set kept"
    by (simp add: kept_def)
  ultimately show ?thesis using c by (intro exI[of _ kept]) simp
qed

lemma tree_ok_child:
  assumes ok: "tree_ok h pend" and n: "n < length h" "strong (h ! n) > 0"
  shows "tree_ok (fst (child h n)) pend"
proof (cases "triggered (h ! n)")
  case True
  then have "inner_triggered (h ! n)" using tree_okD(1)[OF ok n(1)] by (simp add: shared_ok_def)
  then show ?thesis using tree_ok_new[OF ok] by (simp add: child_def)
next
  case False
  from child_shape[OF ok n(1) False] obtain kept where
    c: "child h n = (upd h n (\<lambda>s. s\<lparr>live_children := live_children s + 1,
      children := kept @ [length h], strong := strong s + 1\<rparr>) @ [build_shared False (Some n)], length h)"
    and kept: "distinct kept" "set kept \<subseteq> set (children (h ! n))"
      "\<forall>c \<in> set (children (h ! n)). strong (h ! c) > 0 \<longrightarrow> c \<in> set kept"
    by (elim exE conjE)
  define u where "u = upd h n (\<lambda>s. s\<lparr>live_children := live_children s + 1,
      children := kept @ [length h], strong := strong s + 1\<rparr>)"
  have len: "length u = length h" by (simp add: u_def)
  let ?s = "build_shared False (Some n)"
  have nth: "u ! m = (if m = n then (h ! m)\<lparr>live_children := live_children (h ! m) + 1,
      children := kept @ [length h], strong := strong (h ! m) + 1\<rparr> else h ! m)" if "m < length h" for m
    using that by (simp add: u_def nth_upd)
  have old: "parent (u ! m) = parent (h ! m)" "triggered (u ! m) = triggered (h ! m)"
    "(strong (u ! m) > 0) = (strong (h ! m) > 0)" if "m < length h" for m
    using that n by (auto simp: nth)
  have in_slots: "c < length h \<and> (strong (h ! c) > 0 \<longrightarrow> parent (h ! c) = Some p)"
    if "p < length h" "c \<in> set (children (h ! p))" for c p
    using ok that by (auto simp: tree_ok_def slots_ok_def)
  have par: "parents_below u" using ok by (simp add: tree_ok_def parents_below_def len old)
  have "shared_ok (u ! m)" if "m < length h" for m
    using tree_okD(1)[OF ok that] False that n by (auto simp: shared_ok_def nth)
  then have oks: "\<forall>s \<in> set u. shared_ok s" by (simp add: all_set_conv_all_nth len)
  have slots: "slots_ok (u @ [?s])" unfolding slots_ok_def
  proof (intro allI impI conjI ballI)
    fix p assume p: "p < length (u @ [?s])"
    have ch: "children ((u @ [?s]) ! p) = (if p = length h then [] else if p = n then kept @ [length h]
        else children (h ! p))"
      using p by (auto simp: nth_append len nth build_shared_def)
    have len_out: "length h \<notin> set kept" using kept(2) in_slots[OF n(1)] by blast
    show "distinct (children ((u @ [?s]) ! p))"
      unfolding ch using p kept(1) len_out tree_okD(4)[OF ok] by (auto simp: len)
    fix c assume "c \<in> set (children ((u @ [?s]) ! p))"
    then consider "p = n" "c = length h" | "p < length h" "c \<in> set (children (h ! p))"
      using p kept(2) n(1) by (auto simp: ch len split: if_splits)
    then show "c < length (u @ [?s])"
      "0 < strong ((u @ [?s]) ! c) \<Longrightarrow> parent ((u @ [?s]) ! c) = Some p"
      using in_slots[of p c] old[of c] by (cases; auto simp: nth_append len build_shared_def)+
  qed
  have link: "linked (u @ [?s]) pend" unfolding linked_def
  proof (intro allI impI)
    fix m q assume m: "m < length (u @ [?s])"
      and A: "parent ((u @ [?s]) ! m) = Some q \<and> 0 < strong ((u @ [?s]) ! m) \<and> \<not> triggered ((u @ [?s]) ! m)"
    show "m \<in> (if triggered ((u @ [?s]) ! q) then pend else set (children ((u @ [?s]) ! q)))"
    proof (cases "m = length h")
      case True
      then have "q = n" using A by (auto simp: nth_append len build_shared_def)
      then show ?thesis using n(1) False True by (simp add: nth_append len nth)
    next
      case False
      then have mh: "m < length h" using m by (simp add: len)
      with A have B: "parent (h ! m) = Some q \<and> 0 < strong (h ! m) \<and> \<not> triggered (h ! m)"
        using old[OF mh] by (simp add: nth_append len)
      with tree_okD(2)[OF ok mh] mh have q: "q < length h" by fastforce
      have "triggered ((u @ [?s]) ! q) = triggered (h ! q)" using q old by (simp add: nth_append len)
      moreover have "m \<in> set (children ((u @ [?s]) ! q))" if "m \<in> set (children (h ! q))"
        using that q kept(3) B by (auto simp: nth_append len nth)
      ultimately show ?thesis using linkedD[OF ok mh B] by (auto split: if_splits)
    qed
  qed
  have cc: "child_count u q = child_count h q" for q
  proof -
    have "{c. c < length h \<and> parent (u ! c) = Some q} = {c. c < length h \<and> parent (h ! c) = Some q}"
      using old by auto
    then show ?thesis by (simp add: child_count_def len)
  qed
  have "tree_ok (u @ [?s]) pend"
    by (rule tree_ok_append[OF par oks slots link])
       (use tree_okD(3)[OF ok] n in \<open>auto simp: build_shared_def shared_ok_def len nth cc\<close>)
  then show ?thesis by (simp add: c u_def)
qed

end
