(* ===== verification/Cancel_Tokens.thy ===== *)
theory Cancel_Tokens
  imports Cancel_Tree
begin

text \<open>
  Cancellation tokens under any interleaving: the handles, views and \<open>Triggered\<close> futures of
  \<open>cancel/token.rs\<close> and \<open>cancel/triggered.rs\<close> over the arena of \<open>Cancel_Tree\<close>. The state holds the
  arena, the triggers that are running (the stack of nodes each has still to visit and the wakers
  it collected) and the wakers woken so far. One step is one call, or one round of the loop of a
  running trigger; a node can be used only through an \<open>Arc\<close> on it, and only an \<open>Arc\<close> that neither a
  child nor a stack holds can be dropped by the host.
\<close>

section \<open>Tokens\<close>

record cancel_sys =
  arena :: heap
  running :: "(nat list \<times> waker list) list"
  woken_log :: "waker list"

definition cancel_new :: cancel_sys where
  "cancel_new = \<lparr>arena = [], running = [], woken_log = []\<rparr>"

definition stacks :: "cancel_sys \<Rightarrow> nat list" where
  "stacks s = concat (map fst (running s))"

definition live :: "heap \<Rightarrow> nat \<Rightarrow> bool" where
  "live h n = (n < length h \<and> strong (h ! n) > 0)"

definition arcs_inside :: "heap \<Rightarrow> nat list \<Rightarrow> nat \<Rightarrow> nat" where
  "arcs_inside h ps n = count_list ps n + length (filter (\<lambda>s. parent s = Some n) h)"

datatype cancel_op =
  KNew
| KClone nat
| KDrop nat
| KChild nat
| KPoll nat "64 word option" waker
| KForget nat "64 word"
| KTrigger nat
| KRound nat
| KWake nat

definition key_issued :: "shared \<Rightarrow> 64 word option \<Rightarrow> bool" where
  "key_issued s key = (case key of None \<Rightarrow> True | Some k \<Rightarrow> k < next_key (sh_waiters s))"

definition token_new :: "cancel_sys \<Rightarrow> cancel_sys option" where
  [simp]: "token_new s = Some (s\<lparr>arena := fst (shared_new (arena s) False)\<rparr>)"

definition handle_clone :: "cancel_sys \<Rightarrow> nat \<Rightarrow> cancel_sys option" where
  [simp]: "handle_clone s n = (if live (arena s) n then Some (s\<lparr>arena := clone_arc (arena s) n\<rparr>) else None)"

definition handle_drop :: "cancel_sys \<Rightarrow> nat \<Rightarrow> cancel_sys option" where
  [simp]: "handle_drop s n = (if live (arena s) n \<and> arcs_inside (arena s) (stacks s) n < strong (arena s ! n)
      then Some (s\<lparr>arena := drop_arc (arena s) n\<rparr>) else None)"

definition view_child :: "cancel_sys \<Rightarrow> nat \<Rightarrow> cancel_sys option" where
  [simp]: "view_child s n = (if live (arena s) n then Some (s\<lparr>arena := fst (child (arena s) n)\<rparr>) else None)"

definition triggered_poll :: "cancel_sys \<Rightarrow> nat \<Rightarrow> 64 word option \<Rightarrow> waker \<Rightarrow> cancel_sys option" where
  [simp]: "triggered_poll s n key w = (if live (arena s) n \<and> key_issued (arena s ! n) key
      then Some (s\<lparr>arena := fst (poll_triggered (arena s) n key w)\<rparr>) else None)"

definition triggered_drop :: "cancel_sys \<Rightarrow> nat \<Rightarrow> 64 word \<Rightarrow> cancel_sys option" where
  [simp]: "triggered_drop s n key = (if live (arena s) n then Some (s\<lparr>arena := remove_triggered_waiter (arena s) n key\<rparr>) else None)"

definition handle_trigger :: "cancel_sys \<Rightarrow> nat \<Rightarrow> cancel_sys option" where
  [simp]: "handle_trigger s n = (if live (arena s) n
      then Some (s\<lparr>arena := clone_arc (arena s) n, running := running s @ [([n], [])]\<rparr>) else None)"

definition trigger_loop_round :: "cancel_sys \<Rightarrow> nat \<Rightarrow> cancel_sys option" where
  [simp]: "trigger_loop_round s i = (if i < length (running s) then
        (case running s ! i of
           (n # pending, wakers) \<Rightarrow>
             (case trigger_round (arena s) n pending wakers of (h, pending', wakers') \<Rightarrow>
                Some (s\<lparr>arena := h, running := (running s)[i := (pending', wakers')]\<rparr>))
         | _ \<Rightarrow> None)
      else None)"

definition trigger_wake :: "cancel_sys \<Rightarrow> nat \<Rightarrow> cancel_sys option" where
  [simp]: "trigger_wake s i = (if i < length (running s) then
        (case running s ! i of
           ([], wakers) \<Rightarrow>
             Some (s\<lparr>running := take i (running s) @ drop (Suc i) (running s),
                     woken_log := woken_log s @ fst (wake_all_isolated wakers)\<rparr>)
         | _ \<Rightarrow> None)
      else None)"

fun cancel_step :: "cancel_sys \<Rightarrow> cancel_op \<Rightarrow> cancel_sys option" where
  "cancel_step s KNew = token_new s"
| "cancel_step s (KClone n) = handle_clone s n"
| "cancel_step s (KDrop n) = handle_drop s n"
| "cancel_step s (KChild n) = view_child s n"
| "cancel_step s (KPoll n key w) = triggered_poll s n key w"
| "cancel_step s (KForget n key) = triggered_drop s n key"
| "cancel_step s (KTrigger n) = handle_trigger s n"
| "cancel_step s (KRound i) = trigger_loop_round s i"
| "cancel_step s (KWake i) = trigger_wake s i"

fun cancel_run :: "cancel_sys \<Rightarrow> cancel_op list \<Rightarrow> cancel_sys option" where
  "cancel_run s [] = Some s"
| "cancel_run s (op # ops) = (case cancel_step s op of None \<Rightarrow> None | Some s' \<Rightarrow> cancel_run s' ops)"

inductive cancel_reach :: "nat \<Rightarrow> cancel_sys \<Rightarrow> bool" where
  cancel_start: "cancel_reach 0 cancel_new"
| cancel_next: "cancel_reach k s \<Longrightarrow> cancel_step s op = Some s' \<Longrightarrow> cancel_reach (Suc k) s'"

section \<open>The counts of Arcs\<close>

definition acct :: "heap \<Rightarrow> nat list \<Rightarrow> bool" where
  "acct h ps \<longleftrightarrow> (\<forall>n < length h. count_list ps n + child_count h n \<le> strong (h ! n))"

lemma child_count_filter: "length (filter (\<lambda>s. parent s = Some n) h) = child_count h n"
  by (simp add: child_count_def length_filter_conv_card)

lemma child_count_upd_same:
  assumes "\<And>s. parent (f s) = parent s"
  shows "child_count (upd h n f) q = child_count h q"
proof -
  have "{c. c < length h \<and> parent (upd h n f ! c) = Some q} = {c. c < length h \<and> parent (h ! c) = Some q}"
    using assms by (auto simp: nth_upd split: if_splits)
  then show ?thesis by (simp add: child_count_def)
qed

lemma child_count_unparent:
  assumes "n < length h" "parent (h ! n) = Some p"
  shows "child_count (upd h n (\<lambda>s. s\<lparr>parent := None\<rparr>)) q = child_count h q - (if q = p then 1 else 0)"
proof -
  have "{c. c < length h \<and> parent (upd h n (\<lambda>s. s\<lparr>parent := None\<rparr>) ! c) = Some q}
      = {c. c < length h \<and> parent (h ! c) = Some q} - {n}"
    by (auto simp: nth_upd split: if_splits)
  moreover have "n \<in> {c. c < length h \<and> parent (h ! c) = Some q} \<longleftrightarrow> q = p" using assms by auto
  ultimately show ?thesis by (simp add: child_count_def card_Diff_singleton_if)
qed

lemma child_count_pos: "n < length h \<Longrightarrow> parent (h ! n) = Some p \<Longrightarrow> child_count h p > 0"
  by (auto simp: child_count_def card_gt_0_iff)

lemma drop_arc_strong_le: "m < length h \<Longrightarrow> strong (drop_arc h n ! m) \<le> strong (h ! m)"
proof (induction h n rule: drop_arc_induct)
  case (1 h n)
  have l: "strong (lessen h n ! m) \<le> strong (h ! m)" using 1(2) by (simp add: lessen_def nth_upd)
  obtain h2 q where r: "release_parent (lessen h n) n = (h2, q)" by (cases "release_parent (lessen h n) n")
  have len: "length (lessen h n) = length h" by (simp add: lessen_def)
  have h2: "strong (h2 ! m) \<le> strong (h ! m)" "length h2 = length h"
    using r l 1(2) by (auto simp: release_parent_def nth_upd len split: option.splits)
  have "\<not> strong (lessen h n ! n) > 0 \<Longrightarrow> q = Some p \<Longrightarrow> p < n \<Longrightarrow> strong (drop_arc h2 p ! m) \<le> strong (h ! m)" for p
    using 1(1)[of h2 p] h2 1(2) r by (auto intro: le_trans)
  then show ?case
    using l h2 by (subst drop_arc_eq) (auto simp: r split: option.splits)
qed

text \<open>What dropping an \<open>Arc\<close> that nobody inside holds leaves of the counts and of the parents.\<close>

lemma drop_arc_acct:
  "n < length h \<Longrightarrow> parents_below h \<Longrightarrow> acct h ps \<Longrightarrow> count_list ps n + child_count h n < strong (h ! n) \<Longrightarrow>
   acct (drop_arc h n) ps \<and> (\<forall>m < length h. parent (drop_arc h n ! m) = parent (h ! m)
      \<or> strong (drop_arc h n ! m) = 0)"
proof (induction h n rule: drop_arc_induct)
  case (1 h n)
  note n = 1(2)
  have nth1: "strong (lessen h n ! m) = (if m = n then strong (h ! m) - 1 else strong (h ! m))"
    "parent (lessen h n ! m) = parent (h ! m)" if "m < length h" for m
    using that by (simp_all add: lessen_def nth_upd)
  have len1: "length (lessen h n) = length h" by (simp add: lessen_def)
  have cc1: "child_count (lessen h n) q = child_count h q" for q
    unfolding lessen_def by (rule child_count_upd_same) simp
  have acct1: "acct (lessen h n) ps"
    using 1(4,5) by (auto simp: acct_def nth1 len1 cc1)
  show ?case
  proof (cases "strong (lessen h n ! n) > 0")
    case True
    then show ?thesis using acct1 by (subst (1 2 3) drop_arc_eq) (simp add: nth1)
  next
    case False
    show ?thesis
    proof (cases "parent (h ! n)")
      case None
      then have "drop_arc h n = lessen h n"
        using False n by (subst drop_arc_eq) (simp add: release_parent_def nth1)
      then show ?thesis using acct1 by (simp add: nth1)
    next
      case (Some p)
      let ?u = "upd (lessen h n) n (\<lambda>s. s\<lparr>parent := None\<rparr>)"
      define h2 where "h2 = upd ?u p (\<lambda>s. s\<lparr>live_children := live_children s - 1\<rparr>)"
      have pn: "p < n" using 1(3) n Some by (simp add: parents_below_def)
      have r: "release_parent (lessen h n) n = (h2, Some p)"
        using Some n by (simp add: release_parent_def nth1 h2_def)
      have d: "drop_arc h n = drop_arc h2 p" using False r pn by (subst drop_arc_eq) simp
      have len2: "length h2 = length h" by (simp add: len1 h2_def)
      have par2: "parent (h2 ! m) = (if m = n then None else parent (h ! m))" if "m < length h" for m
        using that n by (simp add: nth_upd len1 nth1 h2_def)
      have st2: "strong (h2 ! m) = strong (lessen h n ! m)" if "m < length h" for m
        using that by (simp add: nth_upd len1 h2_def)
      have "child_count h2 q = child_count ?u q" for q unfolding h2_def by (rule child_count_upd_same) simp
      moreover have "child_count ?u q = child_count h q - (if q = p then 1 else 0)" for q
        using child_count_unparent[of n "lessen h n" p q] n Some by (simp add: len1 nth1 cc1)
      ultimately have cc2: "child_count h2 q = child_count h q - (if q = p then 1 else 0)" for q by simp
      have below2: "parents_below h2" using 1(3) by (auto simp: parents_below_def len2 par2)
      have acct2: "acct h2 ps"
        using acct1 by (auto simp: acct_def len2 st2 cc2 cc1 len1 intro: le_trans[OF _ diff_le_self])
      have "child_count h p > 0" using child_count_pos[OF n Some] .
      moreover have "count_list ps p + child_count h p \<le> strong (lessen h n ! p)"
        using acct1 pn n by (simp add: acct_def len1 cc1)
      ultimately have "count_list ps p + child_count h2 p < strong (h2 ! p)"
        using pn n by (simp add: st2 cc2)
      from 1(1)[OF False r pn _ below2 acct2 this] pn n
      have IH: "acct (drop_arc h2 p) ps" "\<forall>m < length h. parent (drop_arc h2 p ! m) = parent (h2 ! m)
          \<or> strong (drop_arc h2 p ! m) = 0" by (simp_all add: len2)
      have "strong (drop_arc h2 p ! n) = 0"
      proof -
        have "strong (h2 ! n) = 0" using False n by (simp add: st2)
        then show ?thesis using drop_arc_strong_le[of n h2 p] n by (simp add: len2)
      qed
      then have "parent (drop_arc h2 p ! m) = parent (h ! m) \<or> strong (drop_arc h2 p ! m) = 0"
        if "m < length h" for m
      proof (cases "m = n")
        case False
        have "parent (drop_arc h2 p ! m) = parent (h2 ! m) \<or> strong (drop_arc h2 p ! m) = 0"
          by (rule IH(2)[rule_format, OF that])
        then show ?thesis using par2[OF that] False by simp
      qed simp
      then have "\<forall>m < length h. parent (drop_arc h2 p ! m) = parent (h ! m) \<or> strong (drop_arc h2 p ! m) = 0"
        by simp
      with IH(1) show ?thesis unfolding d by (rule conjI)
    qed
  qed
qed

lemma acct_cong: "acct h ps \<Longrightarrow> (\<And>n. count_list ps' n = count_list ps n) \<Longrightarrow> acct h ps'"
  by (simp add: acct_def)

lemma acct_less: "acct h ps' \<Longrightarrow> (\<And>n. count_list ps n \<le> count_list ps' n) \<Longrightarrow> acct h ps"
  unfolding acct_def by (meson add_le_mono1 le_trans)

lemma length_clone [simp]: "length (clone_arc h n) = length h"
  by (simp add: clone_arc_def)

lemma acct_clone:
  assumes "acct h ps"
  shows "acct (clone_arc h n) (n # ps)"
proof -
  have "child_count (clone_arc h n) q = child_count h q" for q
    unfolding clone_arc_def by (rule child_count_upd_same) simp
  then show ?thesis using assms by (auto simp: acct_def strong_clone)
qed

lemma acct_clones: "acct h ps \<Longrightarrow> acct (foldl clone_arc h cs) (rev cs @ ps)"
proof (induction cs arbitrary: h ps)
  case (Cons c cs)
  from Cons.IH[OF acct_clone[OF Cons.prems]] show ?case by simp
qed simp

lemma acct_append:
  assumes "acct h ps" "parents_below h" "\<forall>n \<in> set ps. n < length h"
    and "parent s = None"
  shows "acct (h @ [s]) ps"
proof -
  have "count_list ps (length h) = 0" using assms(3) by (auto simp: count_list_0_iff)
  moreover have "child_count h (length h) = 0"
    using assms(2) by (intro child_count_none) (fastforce simp: parents_below_def)
  ultimately show ?thesis using assms(1,4)
    by (auto simp: acct_def child_count_append nth_append less_Suc_eq)
qed

lemma acct_fire:
  assumes "acct h ps" "fire h n = (h1, fired, cs)" "n < length h"
  shows "acct h1 ps" "\<And>m. m < length h \<Longrightarrow> parent (h1 ! m) = parent (h ! m)"
    "\<And>q. child_count h1 q = child_count h q" "\<And>m. m < length h \<Longrightarrow> strong (h1 ! m) = strong (h ! m)"
    "length h1 = length h" "\<And>m. m < length h \<Longrightarrow> triggered (h ! m) \<Longrightarrow> triggered (h1 ! m)"
proof -
  have h1: "h1 = h \<or> (\<exists>ws. h1 = upd h n (\<lambda>s. s\<lparr>inner_triggered := True, triggered := True, sh_waiters := ws, children := []\<rparr>))"
    using assms(2) by (auto simp: fire_def split: if_splits prod.splits)
  then show p: "parent (h1 ! m) = parent (h ! m)" "strong (h1 ! m) = strong (h ! m)" if "m < length h" for m
    using that by (auto simp: nth_upd)
  show l: "length h1 = length h" using h1 by auto
  show t: "triggered (h ! m) \<Longrightarrow> triggered (h1 ! m)" if "m < length h" for m
    using h1 that by (auto simp: nth_upd)
  show c: "child_count h1 q = child_count h q" for q
    using h1 child_count_upd_same[of "\<lambda>s. s\<lparr>inner_triggered := True, triggered := True, sh_waiters := _, children := []\<rparr>"]
    by auto
  show "acct h1 ps" using assms(1) by (simp add: acct_def l c p)
qed

section \<open>What a step changes\<close>

definition evolves :: "heap \<Rightarrow> heap \<Rightarrow> bool" where
  "evolves h h' \<longleftrightarrow> length h \<le> length h' \<and> (\<forall>m < length h.
     (triggered (h ! m) \<longrightarrow> triggered (h' ! m))
     \<and> (parent (h' ! m) = parent (h ! m) \<or> strong (h' ! m) = 0))"

lemma clones_parent:
  "m < length h \<Longrightarrow> parent (foldl clone_arc h cs ! m) = parent (h ! m) \<and> strong (h ! m) \<le> strong (foldl clone_arc h cs ! m)"
proof (induction cs arbitrary: h)
  case (Cons c cs)
  then have "m < length (clone_arc h c)" by (simp add: clone_arc_def)
  from Cons.IH[OF this] Cons.prems show ?case by (auto simp: clone_arc_def nth_upd split: if_splits)
qed simp

lemma child_count_clones: "child_count (foldl clone_arc h cs) q = child_count h q"
proof (induction cs arbitrary: h)
  case (Cons c cs)
  have "child_count (clone_arc h c) q = child_count h q"
    unfolding clone_arc_def by (rule child_count_upd_same) simp
  with Cons.IH show ?case by simp
qed simp

lemma round_acct:
  assumes ok: "tree_ok h pend" and n: "n < length h" and a: "acct h (n # ps)"
    and r: "trigger_round h n pending wakers = (h', pending', wakers')"
  shows "\<exists>cs. pending' = cs @ pending \<and> acct h' (cs @ ps)" and "evolves h h'" "length h' = length h"
proof -
  from r obtain h1 fired cs live where f: "fire h n = (h1, fired, cs)"
    and lv: "live = filter (\<lambda>c. strong (h1 ! c) > 0) cs" and h': "h' = drop_arc (foldl clone_arc h1 live) n"
    and p': "pending' = rev live @ pending" by (rule round_parts)
  note F = acct_fire[OF a f n] and T = tree_ok_fire[OF ok n f]
  let ?h2 = "foldl clone_arc h1 live"
  have s2: "same_but h1 ?h2" by (rule same_but_clones)
  have len2: "length ?h2 = length h" using same_but_length[OF s2] F(5) by simp
  have acct2: "acct ?h2 (rev live @ n # ps)" by (rule acct_clones[OF F(1)])
  have "tree_ok ?h2 (pend \<union> {c \<in> set cs. strong (h ! c) > 0})"
  proof (rule tree_ok_clones)
    show "tree_ok h1 (pend \<union> {c \<in> set cs. strong (h ! c) > 0})" by (rule tree_ok_mono[OF T(1)]) auto
    show "\<forall>c \<in> set live. c < length h1 \<and> strong (h1 ! c) > 0" using T(2,4) by (auto simp: lv)
  qed
  then have below: "parents_below ?h2" by (simp add: tree_ok_def)
  have a2: "acct ?h2 (rev live @ ps)" using acct2 by (rule acct_less) simp
  have strict: "count_list (rev live @ ps) n + child_count ?h2 n < strong (?h2 ! n)"
  proof -
    have "count_list (rev live @ n # ps) n + child_count ?h2 n \<le> strong (?h2 ! n)"
      using acct2 n unfolding acct_def len2 by blast
    then show ?thesis by simp
  qed
  have d: "acct h' (rev live @ ps)" "\<forall>m < length ?h2. parent (h' ! m) = parent (?h2 ! m) \<or> strong (h' ! m) = 0"
    using drop_arc_acct[OF _ below a2 strict] n len2 unfolding h' by simp_all
  show "\<exists>cs. pending' = cs @ pending \<and> acct h' (cs @ ps)" using d(1) p' by blast
  have s3: "same_but ?h2 h'" unfolding h' by (rule same_but_drop)
  show len: "length h' = length h" using same_but_length[OF s3] len2 by simp
  show "evolves h h'" unfolding evolves_def
  proof (intro conjI allI impI)
    show "length h \<le> length h'" using len by simp
    fix m assume m: "m < length h"
    show "triggered (h' ! m)" if "triggered (h ! m)"
      using F(6)[OF m that] s2 s3 m F(5) len2 by (simp add: same_but_def)
    show "parent (h' ! m) = parent (h ! m) \<or> strong (h' ! m) = 0"
    proof -
      have "parent (?h2 ! m) = parent (h ! m)"
        using m F(2)[OF m] clones_parent[of m h1 live] F(5) by simp
      moreover have "parent (h' ! m) = parent (?h2 ! m) \<or> strong (h' ! m) = 0" using d(2) m len2 by metis
      ultimately show ?thesis by metis
    qed
  qed
qed

section \<open>Every reachable state is well formed\<close>

definition sys_ok :: "cancel_sys \<Rightarrow> bool" where
  "sys_ok s \<longleftrightarrow> tree_ok (arena s) (set (stacks s)) \<and> acct (arena s) (stacks s)
     \<and> (\<forall>n \<in> set (stacks s). n < length (arena s))"

lemma stacks_split:
  assumes "i < length (running s)" "running s ! i = (ns, ws)"
  obtains as bs where "running s = as @ (ns, ws) # bs" "length as = i"
    "stacks s = concat (map fst as) @ ns @ concat (map fst bs)"
proof -
  have "running s = take i (running s) @ (ns, ws) # drop (Suc i) (running s)"
    using assms by (metis id_take_nth_drop)
  then show thesis using assms(1)
    by (intro that[of "take i (running s)" "drop (Suc i) (running s)"])
       (simp_all add: stacks_def, metis concat.simps(2) concat_append fst_conv list.simps(9) map_append)
qed

lemma evolves_refl [simp]: "evolves h h"
  by (simp add: evolves_def)

lemma evolves_upd:
  assumes "\<And>s. triggered s \<Longrightarrow> triggered (f s)" "\<And>s. parent (f s) = parent s"
  shows "evolves h (upd h n f)"
  using assms by (simp add: evolves_def nth_upd)

lemma evolves_append: "evolves h h' \<Longrightarrow> evolves h (h' @ hs)"
  by (auto simp: evolves_def nth_append)

lemma acct_upd:
  assumes "acct h ps" "\<And>s. strong s \<le> strong (f s)" "\<And>s. parent (f s) = parent s"
  shows "acct (upd h n f) ps"
  using assms child_count_upd_same[of f h n] by (auto simp: acct_def nth_upd intro: le_trans)

lemma child_evolves: "evolves h (fst (child h n))"
  by (auto simp: child_def Let_def shared_new_def intro!: evolves_append evolves_upd)

lemma child_acct:
  assumes ok: "tree_ok h pend" and n: "n < length h" and a: "acct h ps" "\<forall>m \<in> set ps. m < length h"
  shows "acct (fst (child h n)) ps"
proof (cases "triggered (h ! n)")
  case True
  then have "inner_triggered (h ! n)" using tree_okD(1)[OF ok n] by (simp add: shared_ok_def)
  then show ?thesis using acct_append[OF a(1) _ a(2), of "build_shared True None"] ok
    by (simp add: child_def shared_new_def tree_ok_def build_shared_def)
next
  case False
  from child_shape[OF ok n False] obtain kept where
    c: "child h n = (upd h n (\<lambda>s. s\<lparr>live_children := live_children s + 1,
      children := kept @ [length h], strong := strong s + 1\<rparr>) @ [build_shared False (Some n)], length h)"
    by (elim exE conjE)
  define u where "u = upd h n (\<lambda>s. s\<lparr>live_children := live_children s + 1,
      children := kept @ [length h], strong := strong s + 1\<rparr>)"
  have len: "length u = length h" by (simp add: u_def)
  have cc: "child_count u q = child_count h q" for q
    unfolding u_def by (rule child_count_upd_same) simp
  have st: "strong (u ! m) = strong (h ! m) + (if m = n then 1 else 0)" if "m < length h" for m
    using that by (simp add: u_def nth_upd)
  have "count_list ps (length h) = 0" using a(2) by (auto simp: count_list_0_iff)
  moreover have "child_count h (length h) = 0"
    using ok by (intro child_count_none) (fastforce simp: parents_below_def tree_ok_def)
  ultimately have "acct (u @ [build_shared False (Some n)]) ps"
    using a(1) n by (auto simp: acct_def child_count_append nth_append less_Suc_eq len cc st build_shared_def)
  then show ?thesis by (simp add: c u_def)
qed

lemma cancel_step_ok:
  assumes ok: "sys_ok s" and step: "cancel_step s op = Some s'"
  shows "sys_ok s' \<and> evolves (arena s) (arena s')"
proof -
  from ok have t: "tree_ok (arena s) (set (stacks s))" and a: "acct (arena s) (stacks s)"
    and b: "\<forall>n \<in> set (stacks s). n < length (arena s)" by (simp_all add: sys_ok_def)
  have same: "stacks (s\<lparr>arena := h\<rparr>) = stacks s" for h by (simp add: stacks_def)
  have arena_ok: "sys_ok (s\<lparr>arena := h\<rparr>)"
    if "tree_ok h (set (stacks s))" "acct h (stacks s)" "length (arena s) \<le> length h" for h
    using that b by (auto simp: sys_ok_def same)
  show ?thesis
  proof (cases op)
    case KNew
    then have s': "s' = s\<lparr>arena := arena s @ [build_shared False None]\<rparr>" using step by (simp add: shared_new_def)
    have "acct (arena s @ [build_shared False None]) (stacks s)"
      using t by (intro acct_append[OF a _ b]) (simp_all add: tree_ok_def build_shared_def)
    then show ?thesis using tree_ok_new[OF t, of False]
      by (simp add: s' shared_new_def arena_ok evolves_append)
  next
    case (KClone n)
    then have n: "n < length (arena s)" "strong (arena s ! n) > 0" and s': "s' = s\<lparr>arena := clone_arc (arena s) n\<rparr>"
      using step by (auto simp: live_def split: if_splits)
    have "acct (clone_arc (arena s) n) (stacks s)" by (rule acct_less[OF acct_clone[OF a, of n]]) simp
    moreover have "evolves (arena s) (clone_arc (arena s) n)"
      unfolding clone_arc_def by (rule evolves_upd) simp_all
    ultimately show ?thesis using tree_ok_clone[OF t n(2)] by (simp add: s' arena_ok)
  next
    case (KDrop n)
    then have n: "n < length (arena s)" and g: "arcs_inside (arena s) (stacks s) n < strong (arena s ! n)"
      and s': "s' = s\<lparr>arena := drop_arc (arena s) n\<rparr>"
      using step by (auto simp: live_def split: if_splits)
    have g': "count_list (stacks s) n + child_count (arena s) n < strong (arena s ! n)"
      using g by (simp add: arcs_inside_def child_count_filter)
    have len: "length (drop_arc (arena s) n) = length (arena s)"
      using same_but_length[OF same_but_drop] by simp
    have below: "parents_below (arena s)" using t by (simp add: tree_ok_def)
    note D = drop_arc_acct[OF n below a g']
    have "evolves (arena s) (drop_arc (arena s) n)" unfolding evolves_def
      using D same_but_drop[of "arena s" n] by (simp add: len same_but_def)
    then show ?thesis using D tree_ok_drop[OF t n] by (simp add: s' arena_ok len)
  next
    case (KChild n)
    then have n: "n < length (arena s)" "strong (arena s ! n) > 0"
      and s': "s' = s\<lparr>arena := fst (child (arena s) n)\<rparr>"
      using step by (auto simp: live_def split: if_splits)
    show ?thesis
      using tree_ok_child[OF t n] child_acct[OF t n(1) a b] child_evolves[of "arena s" n]
      by (simp add: s' arena_ok evolves_def)
  next
    case (KPoll n key w)
    then have n: "n < length (arena s)" and s': "s' = s\<lparr>arena := fst (poll_triggered (arena s) n key w)\<rparr>"
      using step by (auto simp: live_def split: if_splits)
    have "fst (poll_triggered (arena s) n key w) = arena s \<or>
        (\<exists>ws. fst (poll_triggered (arena s) n key w) = upd (arena s) n (\<lambda>s. s\<lparr>sh_waiters := ws\<rparr>))"
      by (auto simp: poll_triggered_def case_prod_unfold)
    then have "acct (fst (poll_triggered (arena s) n key w)) (stacks s)"
      "evolves (arena s) (fst (poll_triggered (arena s) n key w))"
      using a by (auto intro!: acct_upd evolves_upd)
    then show ?thesis using tree_ok_poll[OF t n] by (simp add: s' arena_ok evolves_def)
  next
    case (KForget n key)
    then have n: "n < length (arena s)" and s': "s' = s\<lparr>arena := remove_triggered_waiter (arena s) n key\<rparr>"
      using step by (auto simp: live_def split: if_splits)
    have "acct (remove_triggered_waiter (arena s) n key) (stacks s)"
      "evolves (arena s) (remove_triggered_waiter (arena s) n key)"
      using a by (auto simp: remove_triggered_waiter_def intro!: acct_upd evolves_upd)
    then show ?thesis using tree_ok_remove_waiter[OF t n] by (simp add: s' arena_ok evolves_def)
  next
    case (KTrigger n)
    then have n: "n < length (arena s)" "strong (arena s ! n) > 0"
      and s': "s' = s\<lparr>arena := clone_arc (arena s) n, running := running s @ [([n], [])]\<rparr>"
      using step by (auto simp: live_def split: if_splits)
    have st: "stacks s' = stacks s @ [n]" by (simp add: s' stacks_def)
    have "acct (clone_arc (arena s) n) (stacks s @ [n])"
      by (rule acct_cong[OF acct_clone[OF a, of n]]) simp
    moreover have "tree_ok (clone_arc (arena s) n) (set (stacks s @ [n]))"
      by (rule tree_ok_mono[OF tree_ok_clone[OF t n(2)]]) auto
    moreover have "evolves (arena s) (clone_arc (arena s) n)"
      unfolding clone_arc_def by (rule evolves_upd) simp_all
    ultimately show ?thesis using b n(1) by (simp add: sys_ok_def st) (simp add: s')
  next
    case (KRound i)
    then obtain n pending ws h pending' ws' where i: "i < length (running s)" "running s ! i = (n # pending, ws)"
      and r: "trigger_round (arena s) n pending ws = (h, pending', ws')"
      and s': "s' = s\<lparr>arena := h, running := (running s)[i := (pending', ws')]\<rparr>"
      using step by (auto split: if_splits prod.splits list.splits)
    from stacks_split[OF i] obtain as bs where run: "running s = as @ (n # pending, ws) # bs" "length as = i"
      and st: "stacks s = concat (map fst as) @ (n # pending) @ concat (map fst bs)" by blast
    have st': "stacks s' = concat (map fst as) @ pending' @ concat (map fst bs)"
      using run by (simp add: s' stacks_def list_update_append)
    have n: "n < length (arena s)" using b st by simp
    let ?ps = "concat (map fst as) @ pending @ concat (map fst bs)"
    have a': "acct (arena s) (n # ?ps)" by (rule acct_cong[OF a]) (simp add: st)
    from round_acct[OF t n a' r] obtain cs where p': "pending' = cs @ pending" and ac: "acct h (cs @ ?ps)"
      and ev: "evolves (arena s) h" and len: "length h = length (arena s)" by blast
    have "acct h (stacks s')" by (rule acct_cong[OF ac]) (simp add: st' p')
    moreover have "tree_ok h (set (stacks s'))"
      by (rule tree_ok_mono[OF tree_ok_round(1)[OF t n r]]) (auto simp: st st' p')
    moreover have "\<forall>m \<in> set (stacks s'). m < length h"
      using tree_ok_round(2)[OF t n r] b by (auto simp: st st' len)
    ultimately show ?thesis using ev by (simp add: sys_ok_def) (simp add: s')
  next
    case (KWake i)
    then obtain ws where i: "i < length (running s)" "running s ! i = ([], ws)"
      and s': "s' = s\<lparr>running := take i (running s) @ drop (Suc i) (running s),
        woken_log := woken_log s @ fst (wake_all_isolated ws)\<rparr>"
      using step by (auto split: if_splits prod.splits list.splits)
    from stacks_split[OF i] obtain as bs where run: "running s = as @ ([], ws) # bs" "length as = i"
      and st: "stacks s = concat (map fst as) @ [] @ concat (map fst bs)" by blast
    have st': "stacks s' = stacks s" unfolding s' using run by (simp add: stacks_def)
    show ?thesis using ok by (simp add: sys_ok_def st') (simp add: s')
  qed
qed

lemma cancel_new_ok: "sys_ok cancel_new"
  by (simp add: sys_ok_def cancel_new_def stacks_def tree_ok_def parents_below_def slots_ok_def
      linked_def counted_def acct_def)

lemma cancel_reach_ok: "cancel_reach k s \<Longrightarrow> sys_ok s"
  by (induction rule: cancel_reach.induct) (auto simp: cancel_new_ok dest: cancel_step_ok)

lemma parent_live:
  assumes "acct h ps" "tree_ok h pend" "live h n" "parent (h ! n) = Some p"
  shows "live h p" "p < n"
proof -
  have n: "n < length h" using assms(3) by (simp add: live_def)
  show p: "p < n" using tree_okD(2)[OF assms(2) n assms(4)] .
  have "child_count h p > 0" using child_count_pos[OF n assms(4)] .
  moreover have "count_list ps p + child_count h p \<le> strong (h ! p)"
    using assms(1) p n by (simp add: acct_def)
  ultimately show "live h p" using p n by (simp add: live_def)
qed

lemma is_triggered_step:
  "is_triggered h n \<longleftrightarrow> triggered (h ! n) \<or> (\<exists>p. parent (h ! n) = Some p \<and> p < n \<and> is_triggered h p)"
  by (subst is_triggered.simps) (auto split: option.splits)

lemma is_triggered_quiet:
  assumes "tree_ok h {}" "acct h ps"
  shows "live h n \<Longrightarrow> is_triggered h n \<longleftrightarrow> triggered (h ! n)"
proof (induction n rule: less_induct)
  case (less n)
  have "triggered (h ! n)" if p: "parent (h ! n) = Some p" "p < n" "is_triggered h p" for p
  proof (rule ccontr)
    assume nt: "\<not> triggered (h ! n)"
    have n: "n < length h" "strong (h ! n) > 0" using less.prems by (simp_all add: live_def)
    have "triggered (h ! p)" using less.IH[OF p(2) parent_live(1)[OF assms(2,1) less.prems p(1)]] p(3) by simp
    with linkedD[OF assms(1) n(1)] p(1) n(2) nt show False by fastforce
  qed
  then show ?case by (subst is_triggered_step) blast
qed

lemma is_triggered_mono:
  assumes ev: "evolves h h'" and ok': "tree_ok h' pend" and a': "acct h' ps"
  shows "is_triggered h n \<Longrightarrow> n < length h \<Longrightarrow> live h' n \<Longrightarrow> is_triggered h' n"
proof (induction n rule: less_induct)
  case (less n)
  show ?case
  proof (cases "triggered (h ! n)")
    case True
    then show ?thesis using ev less.prems(2) by (auto simp: evolves_def intro: triggered_is_triggered)
  next
    case False
    then obtain p where p: "parent (h ! n) = Some p" "p < n" "is_triggered h p"
      using less.prems(1) is_triggered_step[of h n] by blast
    have "strong (h' ! n) \<noteq> 0" using less.prems(3) by (simp add: live_def)
    then have p': "parent (h' ! n) = Some p" using ev less.prems(2) p(1) by (metis evolves_def)
    have "is_triggered h' p"
      using less.IH[OF p(2,3)] p(2) less.prems(2) parent_live(1)[OF a' ok' less.prems(3) p'] by simp
    then show ?thesis using p' p(2) is_triggered_step[of h' n] by blast
  qed
qed

text \<open>A small tree for the witnesses: a root, its child, and the child's child, which waits.\<close>

definition demo_tokens :: "cancel_op list" where
  "demo_tokens = [KNew, KChild 0, KChild 1, KPoll 2 None (Waker 9 None)]"

definition demo_tree :: cancel_sys where
  "demo_tree = the (cancel_run cancel_new demo_tokens)"

lemma cancel_run_reach: "cancel_reach k s \<Longrightarrow> cancel_run s ops = Some s' \<Longrightarrow> cancel_reach (k + length ops) s'"
proof (induction ops arbitrary: s k)
  case (Cons op ops)
  then obtain s1 where "cancel_step s op = Some s1" "cancel_run s1 ops = Some s'"
    by (auto split: option.splits)
  with Cons.IH[of "Suc k" s1] Cons.prems(1) show ?case by (auto dest: cancel_next)
qed simp

lemma demo_tree_run: "cancel_run cancel_new demo_tokens = Some demo_tree"
proof -
  have "cancel_run cancel_new demo_tokens \<noteq> None" by code_simp
  then show ?thesis by (simp add: demo_tree_def)
qed

lemma demo_tree_reach: "cancel_reach 4 demo_tree"
  using cancel_run_reach[OF cancel_start demo_tree_run] by (simp add: demo_tokens_def eval_nat_numeral)

text \<open>
  a cancellation is never taken back: whatever the other holders of the tree do next (making
  children, waiting, dropping tokens, triggering, one round of a running trigger), a token that is
  triggered stays triggered for as long as it exists.
\<close>

theorem cancellation_is_stable:
  assumes "cancel_reach k s" "cancel_step s op = Some s'"
    and "live (arena s) n" "is_triggered (arena s) n" "live (arena s') n"
  shows "is_triggered (arena s') n"
proof -
  have ok: "sys_ok s'" "evolves (arena s) (arena s')"
    using cancel_step_ok[OF cancel_reach_ok[OF assms(1)] assms(2)] by simp_all
  show ?thesis
    by (rule is_triggered_mono[OF ok(2) _ _ assms(4) _ assms(5)])
       (use ok(1) assms(3) in \<open>auto simp: sys_ok_def live_def\<close>)
qed

definition demo_cancelled :: cancel_sys where
  "demo_cancelled = the (cancel_run demo_tree [KTrigger 0, KRound 0])"

lemma demo_cancelled_run: "cancel_run demo_tree [KTrigger 0, KRound 0] = Some demo_cancelled"
proof -
  have "cancel_run demo_tree [KTrigger 0, KRound 0] \<noteq> None" by code_simp
  then show ?thesis by (simp add: demo_cancelled_def)
qed

lemma demo_cancelled_reach: "cancel_reach 6 demo_cancelled"
  using cancel_run_reach[OF demo_tree_reach demo_cancelled_run] by simp

theorem cancellation_is_stable_witness:
  "\<exists>s'. cancel_step demo_cancelled (KRound 0) = Some s' \<and> is_triggered (arena s') 2
     \<and> \<not> triggered (arena demo_cancelled ! 2)"
proof -
  have "cancel_step demo_cancelled (KRound 0) \<noteq> None" by code_simp
  then obtain s' where s': "cancel_step demo_cancelled (KRound 0) = Some s'" by blast
  have "live (arena demo_cancelled) 2" "is_triggered (arena demo_cancelled) 2"
    "\<not> triggered (arena demo_cancelled ! 2)" by code_simp+
  moreover have "live (arena (the (cancel_step demo_cancelled (KRound 0)))) 2" by code_simp
  ultimately show ?thesis
    using cancellation_is_stable[OF demo_cancelled_reach s', of 2] s' by auto
qed

text \<open>
  when no trigger is running the tree is consistent: a token reads as triggered exactly when
  its own node was triggered, so none is cancelled through an ancestor only, no triggered node
  still holds a waiter or lists a child, a parent of a live node is alive, and the count of live
  children is exact.
\<close>

theorem quiescent_tree:
  assumes "cancel_reach k s" "running s = []" "live (arena s) n"
  shows "(is_triggered (arena s) n \<longleftrightarrow> triggered (arena s ! n)) \<and>
    (held (sh_waiters (arena s ! n)) = Map.empty \<and> children (arena s ! n) = [] \<or> \<not> triggered (arena s ! n)) \<and>
    (case parent (arena s ! n) of None \<Rightarrow> True | Some p \<Rightarrow> p < n \<and> live (arena s) p) \<and>
    live_children (arena s ! n) = length (filter (\<lambda>c. parent c = Some n) (arena s))"
proof -
  have ok: "tree_ok (arena s) {}" "acct (arena s) []"
    using cancel_reach_ok[OF assms(1)] assms(2) by (simp_all add: sys_ok_def stacks_def)
  have n: "n < length (arena s)" using assms(3) by (simp add: live_def)
  have "is_triggered (arena s) n \<longleftrightarrow> triggered (arena s ! n)" by (rule is_triggered_quiet[OF ok assms(3)])
  moreover have "shared_ok (arena s ! n)" "live_children (arena s ! n) = child_count (arena s) n"
    using tree_okD(1,3)[OF ok(1) n] by simp_all
  moreover have "case parent (arena s ! n) of None \<Rightarrow> True | Some p \<Rightarrow> p < n \<and> live (arena s) p"
    using parent_live[OF ok(2,1) assms(3)] by (auto split: option.splits)
  ultimately show ?thesis by (auto simp: shared_ok_def child_count_filter)
qed

theorem quiescent_tree_witness:
  "live_children (arena demo_tree ! 1) = 1 \<and> \<not> is_triggered (arena demo_tree) 1"
proof -
  have "live (arena demo_tree) 1" "running demo_tree = []" "\<not> triggered (arena demo_tree ! 1)"
    "length (filter (\<lambda>c. parent c = Some 1) (arena demo_tree)) = 1"
    by code_simp+
  with quiescent_tree[OF demo_tree_reach, of 1] show ?thesis by simp
qed

section \<open>What a trigger reaches\<close>

text \<open>Whether a node hangs under another: the walk over the parents meets it.\<close>

function descends :: "heap \<Rightarrow> nat \<Rightarrow> nat \<Rightarrow> bool" where
  "descends h n m = (m = n \<or>
     (case parent (h ! m) of Some p \<Rightarrow> if p < m then descends h n p else False | None \<Rightarrow> False))"
  by pat_completeness auto
termination by (relation "measure (\<lambda>(h, n, m). m)") auto

declare descends.simps [simp del]

lemma descends_step:
  "descends h n m \<longleftrightarrow> m = n \<or> (\<exists>p. parent (h ! m) = Some p \<and> p < m \<and> descends h n p)"
  by (subst descends.simps) (auto split: option.splits)

text \<open>What one round does to the waiters: those of a node it fires are collected.\<close>

lemma round_waiters:
  assumes r: "trigger_round h n pending ws = (h', pending', ws')" and m: "m < length h" and n: "n < length h"
    and ok: "shared_ok (h ! n)"
  shows "held (sh_waiters (h ! m)) k = Some w \<Longrightarrow>
      held (sh_waiters (h' ! m)) k = Some w \<or> w \<in> set ws'"
    and "set ws \<subseteq> set ws'" and "triggered (h' ! m) \<longleftrightarrow> triggered (h ! m) \<or> m = n"
    and "next_key (sh_waiters (h' ! m)) = next_key (sh_waiters (h ! m))"
    and "dom (held (sh_waiters (h' ! m))) \<subseteq> dom (held (sh_waiters (h ! m)))"
proof -
  from r obtain h1 fired cs live where f: "fire h n = (h1, fired, cs)"
    and h': "h' = drop_arc (foldl clone_arc h1 live) n" and ws': "ws' = ws @ fired"
    by (rule round_parts)
  have "same_but h1 h'" unfolding h' by (rule same_but_trans[OF same_but_clones same_but_drop])
  moreover have "length h1 = length h" using f by (auto simp: fire_def split: if_splits prod.splits)
  ultimately have s: "sh_waiters (h' ! m) = sh_waiters (h1 ! m)" "triggered (h' ! m) = triggered (h1 ! m)"
    using m by (simp_all add: same_but_def)
  show "set ws \<subseteq> set ws'" by (simp add: ws')
  have wok: "waiters_ok (sh_waiters (h ! n))" using ok by (simp add: shared_ok_def)
  show "held (sh_waiters (h' ! m)) k = Some w \<or> w \<in> set ws'" if "held (sh_waiters (h ! m)) k = Some w"
    using f that m n wr.held_is_drained[OF wok, of k w]
    by (auto simp: s ws' fire_def nth_upd split: if_splits prod.splits)
  show "triggered (h' ! m) \<longleftrightarrow> triggered (h ! m) \<or> m = n"
    using f m n ok by (auto simp: s fire_def nth_upd shared_ok_def split: if_splits prod.splits)
  have d: "next_key (fst (drain_waiters x)) = next_key x" "held (fst (drain_waiters x)) = Map.empty" for x
    by (simp_all add: drain_waiters_def)
  show "next_key (sh_waiters (h' ! m)) = next_key (sh_waiters (h ! m))"
    using f m n d(1)[of "sh_waiters (h ! n)"] by (auto simp: s fire_def nth_upd split: if_splits prod.splits)
  show "dom (held (sh_waiters (h' ! m))) \<subseteq> dom (held (sh_waiters (h ! m)))"
    using f m n d(2)[of "sh_waiters (h ! n)"] by (auto simp: s fire_def nth_upd split: if_splits prod.splits)
qed

text \<open>The invariant of the loop of \<open>trigger\<close> on \<open>n\<close>, started in the arena \<open>h0\<close>.\<close>

definition loop_inv :: "heap \<Rightarrow> nat \<Rightarrow> heap \<Rightarrow> nat list \<Rightarrow> waker list \<Rightarrow> bool" where
  "loop_inv h0 n h pending ws \<longleftrightarrow> tree_ok h (set pending) \<and> acct h pending \<and> evolves h0 h
     \<and> length h = length h0 \<and> (\<forall>x \<in> set pending. x < length h \<and> descends h0 n x)
     \<and> (\<forall>m < length h. triggered (h ! m) \<longrightarrow> triggered (h0 ! m) \<or> descends h0 n m)
     \<and> (n \<in> set pending \<or> triggered (h ! n))
     \<and> (\<forall>m < length h. \<forall>k w. held (sh_waiters (h0 ! m)) k = Some w \<longrightarrow>
          held (sh_waiters (h ! m)) k = Some w \<or> w \<in> set ws)"

lemma evolves_trans:
  assumes "evolves a b" "evolves b c" "\<And>m. m < length b \<Longrightarrow> strong (b ! m) = 0 \<Longrightarrow> strong (c ! m) = 0"
  shows "evolves a c"
  unfolding evolves_def
proof (intro conjI allI impI)
  show "length a \<le> length c" using assms(1,2) by (simp add: evolves_def)
  fix m assume m: "m < length a"
  then have mb: "m < length b" using assms(1) by (simp add: evolves_def)
  show "triggered (a ! m) \<Longrightarrow> triggered (c ! m)" using assms(1,2) m mb by (simp add: evolves_def)
  have "parent (b ! m) = parent (a ! m) \<or> strong (b ! m) = 0" "parent (c ! m) = parent (b ! m) \<or> strong (c ! m) = 0"
    using assms(1,2) m mb by (simp_all add: evolves_def)
  then show "parent (c ! m) = parent (a ! m) \<or> strong (c ! m) = 0" using assms(3)[OF mb] by metis
qed

text \<open>A round never brings a freed node back: only live children are cloned.\<close>

lemma clones_strong:
  "m < length h \<Longrightarrow> m \<notin> set cs \<Longrightarrow> strong (foldl clone_arc h cs ! m) = strong (h ! m)"
proof (induction cs arbitrary: h)
  case (Cons c cs)
  then show ?case using Cons.IH[of "clone_arc h c"] by (simp add: strong_clone)
qed simp

lemma round_dead:
  assumes ok: "tree_ok h pend" and n: "n < length h"
    and r: "trigger_round h n pending ws = (h', pending', ws')" and m: "m < length h" "strong (h ! m) = 0"
  shows "strong (h' ! m) = 0"
proof -
  from r obtain h1 fired cs live where f: "fire h n = (h1, fired, cs)"
    and lv: "live = filter (\<lambda>c. strong (h1 ! c) > 0) cs" and h': "h' = drop_arc (foldl clone_arc h1 live) n"
    by (rule round_parts)
  note T = tree_ok_fire[OF ok n f]
  have "strong (h1 ! m) = 0" using T(5)[OF m(1)] m(2) by simp
  then have "strong (foldl clone_arc h1 live ! m) = 0"
    using clones_strong[of m h1 live] m(1) T(2) by (simp add: lv)
  moreover have "length (foldl clone_arc h1 live) = length h"
    using same_but_length[OF same_but_clones] T(2) by simp
  ultimately show ?thesis unfolding h' using drop_arc_strong_le[of m "foldl clone_arc h1 live" n] m(1) by simp
qed

lemma loop_inv_round:
  assumes inv: "loop_inv h0 n h (x # pending) ws"
    and r: "trigger_round h x pending ws = (h', pending', ws')"
  shows "loop_inv h0 n h' pending' ws'"
proof -
  from inv have ok: "tree_ok h (set (x # pending))" and a: "acct h (x # pending)" and ev: "evolves h0 h"
    and len: "length h = length h0" and pend: "\<forall>y \<in> set (x # pending). y < length h \<and> descends h0 n y"
    and trig: "\<forall>m < length h. triggered (h ! m) \<longrightarrow> triggered (h0 ! m) \<or> descends h0 n m"
    and self: "n \<in> set (x # pending) \<or> triggered (h ! n)"
    and held: "\<forall>m < length h. \<forall>k w. held (sh_waiters (h0 ! m)) k = Some w \<longrightarrow>
          held (sh_waiters (h ! m)) k = Some w \<or> w \<in> set ws"
    unfolding loop_inv_def by blast+
  have x: "x < length h" "descends h0 n x" using pend by simp_all
  have xok: "shared_ok (h ! x)" by (rule tree_okD(1)[OF ok x(1)])
  from round_acct[OF ok x(1) a r] obtain cs where p': "pending' = cs @ pending"
    and a': "acct h' pending'" and ev1: "evolves h h'" and len': "length h' = length h" by auto
  have ok': "tree_ok h' (set pending')"
    by (rule tree_ok_mono[OF tree_ok_round(1)[OF ok x(1) r]]) (auto simp: p')
  have ev': "evolves h0 h'" by (rule evolves_trans[OF ev ev1]) (rule round_dead[OF ok x(1) r])
  note W = round_waiters[OF r _ x(1) xok]
  have new: "y < length h \<and> descends h0 n y" if y: "y \<in> set pending'" for y
  proof (cases "y \<in> set pending")
    case False
    from r obtain h1 fired cs' live where f: "fire h x = (h1, fired, cs')"
      and lv: "live = filter (\<lambda>c. strong (h1 ! c) > 0) cs'" and "pending' = rev live @ pending"
      by (rule round_parts)
    with y False have yc: "y \<in> set cs'" "strong (h1 ! y) > 0" by (auto simp: lv)
    then have ylen: "y < length h" using tree_ok_fire(4)[OF ok x(1) f] by simp
    have st: "strong (h ! y) > 0" using yc(2) tree_ok_fire(5)[OF ok x(1) f ylen] by simp
    have "y \<in> set (children (h ! x))" using f yc(1) by (auto simp: fire_def split: if_splits prod.splits)
    then have "parent (h ! y) = Some x" using ok x(1) st by (auto simp: tree_ok_def slots_ok_def)
    then have par: "parent (h0 ! y) = Some x" using ev ylen st len by (metis evolves_def neq0_conv)
    have "x < y" using tree_okD(2)[OF ok ylen] \<open>parent (h ! y) = Some x\<close> by simp
    then have "descends h0 n y" using par x(2) descends_step[of h0 n y] by blast
    with ylen show ?thesis by blast
  qed (use pend in auto)
  have nlen: "n < length h"
  proof -
    have "descends h0 n y \<Longrightarrow> n \<le> y" for y
    proof (induction y rule: less_induct)
      case (less y)
      then show ?case using descends_step[of h0 n y] by force
    qed
    then show ?thesis using x by fastforce
  qed
  show ?thesis unfolding loop_inv_def
  proof (intro conjI)
    show "\<forall>x \<in> set pending'. x < length h' \<and> descends h0 n x" using new by (simp add: len')
    show "\<forall>m < length h'. triggered (h' ! m) \<longrightarrow> triggered (h0 ! m) \<or> descends h0 n m"
      using trig W(3) x(2) by (auto simp: len')
    show "n \<in> set pending' \<or> triggered (h' ! n)"
      using self W(3)[OF nlen] by (auto simp: p')
    show "\<forall>m < length h'. \<forall>k w. held (sh_waiters (h0 ! m)) k = Some w \<longrightarrow>
          held (sh_waiters (h' ! m)) k = Some w \<or> w \<in> set ws'"
    proof (intro allI impI)
      fix m k w assume m: "m < length h'" and h0: "held (sh_waiters (h0 ! m)) k = Some w"
      from m have m: "m < length h" by (simp add: len')
      from held m h0 have "held (sh_waiters (h ! m)) k = Some w \<or> w \<in> set ws" by blast
      then show "held (sh_waiters (h' ! m)) k = Some w \<or> w \<in> set ws'"
        using W(1)[OF m] W(2)[OF x(1)] by blast
    qed
  qed (use ok' a' ev' len len' in simp_all)
qed

lemma loop_inv_loop:
  "loop_inv h0 n h pending ws \<Longrightarrow> trigger_loop h pending ws = (h', ws') \<Longrightarrow> loop_inv h0 n h' [] ws'"
proof (induction h pending ws rule: trigger_loop.induct)
  case (1 h ws)
  then show ?case by simp
next
  case (2 h x pending ws)
  have x: "x < length h" using 2(3) by (simp add: loop_inv_def)
  obtain h1 pending1 ws1 where r: "trigger_round h x pending ws = (h1, pending1, ws1)"
    by (cases "trigger_round h x pending ws")
  have "loop_inv h0 n h1 pending1 ws1" by (rule loop_inv_round[OF 2(3) r])
  then show ?case using 2(1)[OF x r[symmetric] refl] 2(4) x by (simp add: r)
qed

lemma trigger_inv:
  assumes ok: "tree_ok h0 {}" and a: "acct h0 []" and n: "live h0 n"
    and t: "trigger h0 n = (h', ws)"
  shows "loop_inv h0 n h' [] ws"
proof -
  let ?h = "clone_arc h0 n"
  obtain ws' where l: "trigger_loop ?h [n] [] = (h', ws')" and ws: "ws = ws'"
    using t by (auto simp: trigger_def wake_all_isolated_eq split: prod.splits)
  have "tree_ok ?h (set [n])"
    using tree_ok_clone[OF ok] n by (auto simp: live_def intro: tree_ok_mono)
  moreover have "acct ?h [n]" using acct_clone[OF a, of n] by simp
  moreover have "evolves h0 ?h" unfolding clone_arc_def by (rule evolves_upd) simp_all
  moreover have "descends h0 n n" by (subst descends_step) simp
  moreover have "triggered (?h ! m) = triggered (h0 ! m)" "sh_waiters (?h ! m) = sh_waiters (h0 ! m)"
    if "m < length h0" for m using that by (simp_all add: clone_arc_def nth_upd)
  ultimately have "loop_inv h0 n ?h [n] []"
    using n unfolding loop_inv_def by (simp add: live_def)
  from loop_inv_loop[OF this l] show ?thesis by (simp add: ws)
qed

lemma loop_done_descends:
  assumes inv: "loop_inv h0 n h' [] ws"
  shows "live h' m \<Longrightarrow> descends h0 n m \<Longrightarrow> triggered (h' ! m)"
proof (induction m rule: less_induct)
  case (less m)
  have ok: "tree_ok h' {}" and a: "acct h' []" and ev: "evolves h0 h'" and len: "length h' = length h0"
    and n: "triggered (h' ! n)" using inv by (simp_all add: loop_inv_def)
  show ?case
  proof (cases "m = n")
    case False
    then obtain p where p: "parent (h0 ! m) = Some p" "p < m" "descends h0 n p"
      using less.prems(2) descends_step[of h0 n m] by blast
    have m: "m < length h0" "strong (h' ! m) \<noteq> 0" using less.prems(1) len by (simp_all add: live_def)
    have p': "parent (h' ! m) = Some p" using ev m p(1) by (metis evolves_def)
    have tp: "triggered (h' ! p)" by (rule less.IH[OF p(2) parent_live(1)[OF a ok less.prems(1) p'] p(3)])
    show ?thesis
    proof (rule ccontr)
      assume "\<not> triggered (h' ! m)"
      with linkedD[OF ok, of m p] m len p' tp show False by simp
    qed
  qed (simp add: n)
qed

text \<open>
  C16: one call of \<open>trigger\<close> reaches exactly the tokens that hang under it: of the tokens alive
  afterwards, the ones triggered are those that were triggered before and the descendants of the
  token, and every waker that waited on a token it triggered is woken.
\<close>

theorem trigger_reaches_descendants:
  assumes "cancel_reach k s" "running s = []" "live (arena s) n"
    and "trigger (arena s) n = (h', ws)" and "live h' m" "m < length (arena s)"
  shows "(triggered (h' ! m) \<longleftrightarrow> triggered (arena s ! m) \<or> descends (arena s) n m)
    \<and> (triggered (h' ! m) \<longrightarrow> ran (held (sh_waiters (arena s ! m))) \<subseteq> set ws)"
proof -
  have "tree_ok (arena s) {}" "acct (arena s) []"
    using cancel_reach_ok[OF assms(1)] assms(2) by (simp_all add: sys_ok_def stacks_def)
  from trigger_inv[OF this assms(3,4)] have inv: "loop_inv (arena s) n h' [] ws" .
  have len: "length h' = length (arena s)" using inv by (simp add: loop_inv_def)
  have 1: "triggered (h' ! m) \<longleftrightarrow> triggered (arena s ! m) \<or> descends (arena s) n m"
    using loop_done_descends[OF inv assms(5)] inv assms(6) len by (auto simp: loop_inv_def evolves_def)
  have "ran (held (sh_waiters (arena s ! m))) \<subseteq> set ws" if "triggered (h' ! m)"
  proof -
    have "shared_ok (h' ! m)" using inv assms(6) len by (intro tree_okD(1)) (auto simp: loop_inv_def)
    then have "held (sh_waiters (h' ! m)) = Map.empty" using that by (simp add: shared_ok_def)
    then show ?thesis using inv assms(6) len by (auto simp: loop_inv_def ran_def)
  qed
  with 1 show ?thesis by blast
qed

theorem trigger_reaches_descendants_witness:
  "triggered (fst (trigger (arena demo_tree) 1) ! 2) \<and> \<not> triggered (fst (trigger (arena demo_tree) 1) ! 0)
   \<and> Waker 9 None \<in> set (snd (trigger (arena demo_tree) 1))"
proof -
  obtain h' ws where t: "trigger (arena demo_tree) 1 = (h', ws)" by (cases "trigger (arena demo_tree) 1")
  have "running demo_tree = []" "live (arena demo_tree) 1" "2 < length (arena demo_tree)"
    "0 < length (arena demo_tree)" "live (fst (trigger (arena demo_tree) 1)) 2" "live (fst (trigger (arena demo_tree) 1)) 0"
    "descends (arena demo_tree) 1 2" "\<not> descends (arena demo_tree) 1 0" "\<not> triggered (arena demo_tree ! 0)"
    "held (sh_waiters (arena demo_tree ! 2)) 0 = Some (Waker 9 None)"
    by code_simp+
  moreover from this have "Waker 9 None \<in> ran (held (sh_waiters (arena demo_tree ! 2)))" by (auto simp: ran_def)
  ultimately show ?thesis
    using trigger_reaches_descendants[OF demo_tree_reach _ _ t, of 2]
      trigger_reaches_descendants[OF demo_tree_reach _ _ t, of 0] t by auto
qed

section \<open>No wake-up is lost\<close>

text \<open>Keys a node gave out are below its counter, which counts the registrations.\<close>

definition keys_ok :: "nat \<Rightarrow> heap \<Rightarrow> bool" where
  "keys_ok b h \<longleftrightarrow> (\<forall>s \<in> set h. unat (next_key (sh_waiters s)) \<le> b
     \<and> (\<forall>k \<in> dom (held (sh_waiters s)). k < next_key (sh_waiters s)))"

lemma keys_ok_cong:
  assumes "keys_ok b h" "length h \<le> length h'"
    "\<And>m. m < length h \<Longrightarrow> next_key (sh_waiters (h' ! m)) = next_key (sh_waiters (h ! m))
      \<and> dom (held (sh_waiters (h' ! m))) \<subseteq> dom (held (sh_waiters (h ! m)))"
    "\<And>m. length h \<le> m \<Longrightarrow> m < length h' \<Longrightarrow> sh_waiters (h' ! m) = waiters_default"
  shows "keys_ok b h'"
  unfolding keys_ok_def all_set_conv_all_nth
proof (intro allI impI)
  fix m assume m: "m < length h'"
  show "unat (next_key (sh_waiters (h' ! m))) \<le> b \<and>
      (\<forall>k \<in> dom (held (sh_waiters (h' ! m))). k < next_key (sh_waiters (h' ! m)))"
  proof (cases "m < length h")
    case True
    have "unat (next_key (sh_waiters (h ! m))) \<le> b"
      "\<forall>k \<in> dom (held (sh_waiters (h ! m))). k < next_key (sh_waiters (h ! m))"
      using assms(1) True by (simp_all add: keys_ok_def)
    with assms(3)[OF True] show ?thesis by (simp add: subset_iff Ball_def)
  next
    case False
    then have "sh_waiters (h' ! m) = waiters_default" using assms(4) m by simp
    then show ?thesis by (simp add: waiters_default_def held_def)
  qed
qed

lemma same_but_waiters: "same_but h h' \<Longrightarrow> m < length h \<Longrightarrow> sh_waiters (h' ! m) = sh_waiters (h ! m)"
  by (simp add: same_but_def)

lemma child_waiters:
  "m < length h \<Longrightarrow> sh_waiters (fst (child h n) ! m) = sh_waiters (h ! m)"
  "length (fst (child h n)) = Suc (length h)"
  "sh_waiters (fst (child h n) ! length h) = waiters_default"
  by (auto simp: child_def Let_def shared_new_def nth_append nth_upd build_shared_def)

text \<open>What registering does to the counter and to the other keys.\<close>

lemma register_keys:
  assumes ok: "waiters_ok r" and b: "unat (next_key r) \<le> b" "Suc b < 2 ^ 64"
    and below: "\<forall>k \<in> dom (held r). k < next_key r"
    and iss: "case key of None \<Rightarrow> True | Some k \<Rightarrow> k < next_key r"
  shows "unat (next_key (fst (register r key w))) \<le> Suc b"
    and "\<forall>k \<in> dom (held (fst (register r key w))). k < next_key (fst (register r key w))"
    and "held r k = Some v \<Longrightarrow> key \<noteq> Some k \<Longrightarrow> held (fst (register r key w)) k = Some v"
proof -
  have up: "unat (next_key r + 1) = Suc (unat (next_key r))"
    using b by (simp add: unat_word_ariths)
  have gt: "k < next_key r + 1" if "k \<le> next_key r" for k
    using that up by (simp add: word_less_nat_alt word_le_nat_alt)
  obtain k0 where k0: "fst (snd (register r key w)) = Some k0" using wr.reg_key by blast
  have l: "held (fst (register r key w)) = (held r)(k0 \<mapsto> w)" by (rule wr.reg_look[OF ok k0])
  have nk: "next_key (fst (register r key w)) = (if key = None then next_key r + 1 else next_key r)"
    "k0 = (case key of None \<Rightarrow> next_key r | Some k \<Rightarrow> k)"
    using k0 by (auto simp: register_def split: option.splits if_splits)
  show "unat (next_key (fst (register r key w))) \<le> Suc b" using b up by (simp add: nk)
  show "\<forall>k \<in> dom (held (fst (register r key w))). k < next_key (fst (register r key w))"
    using below gt iss by (auto simp: l nk less_imp_le split: option.splits)
  show "held r k = Some v \<Longrightarrow> key \<noteq> Some k \<Longrightarrow> held (fst (register r key w)) k = Some v"
    using below by (auto simp: l nk split: option.splits)
qed

text \<open>Where the waker of a waiting future is: with its node, with a running trigger, or woken.\<close>

definition wake_pending :: "cancel_sys \<Rightarrow> nat \<Rightarrow> 64 word \<Rightarrow> waker \<Rightarrow> nat \<Rightarrow> bool" where
  "wake_pending s n k w from \<longleftrightarrow> n < length (arena s) \<and>
     (held (sh_waiters (arena s ! n)) k = Some w \<or> w \<in> (\<Union>t \<in> set (running s). set (snd t))
      \<or> w \<in> set (drop from (woken_log s))) \<and> from \<le> length (woken_log s)"

definition own_op :: "nat \<Rightarrow> 64 word \<Rightarrow> cancel_op \<Rightarrow> bool" where
  "own_op n k op = (case op of
     KPoll m key _ \<Rightarrow> m = n \<and> key = Some k
   | KForget m key \<Rightarrow> m = n \<and> key = k
   | _ \<Rightarrow> False)"

lemma wake_pending_arena:
  assumes "wake_pending s n k w from" "length (arena s) \<le> length h"
    "held (sh_waiters (arena s ! n)) k = Some w \<Longrightarrow> held (sh_waiters (h ! n)) k = Some w"
  shows "wake_pending (s\<lparr>arena := h\<rparr>) n k w from"
  using assms by (auto simp: wake_pending_def)

lemma cancel_step_wakes:
  assumes ok: "sys_ok s" and keys: "keys_ok b (arena s)" "Suc b < 2 ^ 64"
    and step: "cancel_step s op = Some s'"
  shows "keys_ok (Suc b) (arena s')"
    and "wake_pending s n k w from \<Longrightarrow> \<not> own_op n k op \<Longrightarrow> wake_pending s' n k w from"
proof -
  have t: "tree_ok (arena s) (set (stacks s))" and bd: "\<forall>n \<in> set (stacks s). n < length (arena s)"
    using ok by (simp_all add: sys_ok_def)
  have keys': "keys_ok (Suc b) (arena s)" using keys(1) by (auto simp: keys_ok_def)
  have same: "keys_ok (Suc b) h \<and> (wake_pending s n k w from \<longrightarrow> wake_pending (s\<lparr>arena := h\<rparr>) n k w from)"
    if "\<And>m. m < length (arena s) \<Longrightarrow> sh_waiters (h ! m) = sh_waiters (arena s ! m)"
      "length (arena s) \<le> length h"
      "\<And>m. length (arena s) \<le> m \<Longrightarrow> m < length h \<Longrightarrow> sh_waiters (h ! m) = waiters_default" for h
    using that keys_ok_cong[OF keys', of h] wake_pending_arena[of s n k w "from" h]
    by (auto simp: wake_pending_def)
  have "keys_ok (Suc b) (arena s') \<and> (wake_pending s n k w from \<longrightarrow> \<not> own_op n k op \<longrightarrow> wake_pending s' n k w from)"
  proof (cases op)
    case KNew
    then have s': "s' = s\<lparr>arena := arena s @ [build_shared False None]\<rparr>" using step by (simp add: shared_new_def)
    have "keys_ok (Suc b) (arena s @ [build_shared False None])
      \<and> (wake_pending s n k w from \<longrightarrow> wake_pending (s\<lparr>arena := arena s @ [build_shared False None]\<rparr>) n k w from)"
      by (rule same) (auto simp: nth_append build_shared_def)
    then show ?thesis by (simp add: s')
  next
    case (KClone m)
    then have s': "s' = s\<lparr>arena := clone_arc (arena s) m\<rparr>" using step by (auto split: if_splits)
    have "keys_ok (Suc b) (clone_arc (arena s) m)
      \<and> (wake_pending s n k w from \<longrightarrow> wake_pending (s\<lparr>arena := clone_arc (arena s) m\<rparr>) n k w from)"
      by (rule same) (auto simp: same_but_waiters[OF same_but_clone])
    then show ?thesis by (simp add: s')
  next
    case (KDrop m)
    then have s': "s' = s\<lparr>arena := drop_arc (arena s) m\<rparr>" using step by (auto split: if_splits)
    have "keys_ok (Suc b) (drop_arc (arena s) m)
      \<and> (wake_pending s n k w from \<longrightarrow> wake_pending (s\<lparr>arena := drop_arc (arena s) m\<rparr>) n k w from)"
      using same_but_length[OF same_but_drop, of "arena s" m]
      by (intro same) (auto simp: same_but_waiters[OF same_but_drop])
    then show ?thesis by (simp add: s')
  next
    case (KChild m)
    then have s': "s' = s\<lparr>arena := fst (child (arena s) m)\<rparr>" using step by (auto split: if_splits)
    have "keys_ok (Suc b) (fst (child (arena s) m))
      \<and> (wake_pending s n k w from \<longrightarrow> wake_pending (s\<lparr>arena := fst (child (arena s) m)\<rparr>) n k w from)"
    proof (rule same)
      fix j assume "length (arena s) \<le> j" "j < length (fst (child (arena s) m))"
      then have "j = length (arena s)" by (simp add: child_waiters)
      then show "sh_waiters (fst (child (arena s) m) ! j) = waiters_default" by (simp add: child_waiters)
    qed (simp_all add: child_waiters)
    then show ?thesis by (simp add: s')
  next
    case (KPoll m key v)
    then have m: "m < length (arena s)" and iss: "key_issued (arena s ! m) key"
      and s': "s' = s\<lparr>arena := fst (poll_triggered (arena s) m key v)\<rparr>"
      using step by (auto simp: live_def split: if_splits)
    let ?r = "sh_waiters (arena s ! m)"
    show ?thesis
    proof (cases "is_triggered (arena s) m")
      case True
      then show ?thesis using keys' by (simp add: s' poll_triggered_def)
    next
      case False
      have arena': "arena s' = upd (arena s) m (\<lambda>x. x\<lparr>sh_waiters := fst (register ?r key v)\<rparr>)"
        using False by (simp add: s' poll_triggered_def case_prod_unfold)
      have rok: "waiters_ok ?r" using tree_okD(1)[OF t m] by (simp add: shared_ok_def)
      have rb: "unat (next_key ?r) \<le> b" "\<forall>k \<in> dom (held ?r). k < next_key ?r"
        using keys(1) m by (simp_all add: keys_ok_def)
      note R = register_keys[OF rok rb(1) keys(2) rb(2) iss[unfolded key_issued_def], where w = v]
      have k': "keys_ok (Suc b) (arena s')"
        unfolding keys_ok_def all_set_conv_all_nth arena'
        using keys' R(1,2) by (auto simp: nth_upd keys_ok_def all_set_conv_all_nth)
      have "wake_pending s' n k w from" if wp: "wake_pending s n k w from" and no: "\<not> own_op n k op"
      proof -
        have key: "m = n \<Longrightarrow> key \<noteq> Some k" using no by (auto simp: KPoll own_op_def)
        have "held (sh_waiters (arena s' ! n)) k = Some w" if "held (sh_waiters (arena s ! n)) k = Some w"
          using that R(3) key wp by (auto simp: arena' nth_upd wake_pending_def)
        then have "wake_pending (s\<lparr>arena := arena s'\<rparr>) n k w from"
          by (intro wake_pending_arena[OF wp]) (auto simp: arena')
        moreover have "s\<lparr>arena := arena s'\<rparr> = s'" by (simp add: s')
        ultimately show ?thesis by simp
      qed
      with k' show ?thesis by blast
    qed
  next
    case (KForget m key)
    then have m: "m < length (arena s)" and s': "s' = s\<lparr>arena := remove_triggered_waiter (arena s) m key\<rparr>"
      using step by (auto simp: live_def split: if_splits)
    let ?r = "sh_waiters (arena s ! m)"
    have rok: "waiters_ok ?r" using tree_okD(1)[OF t m] by (simp add: shared_ok_def)
    have nk: "next_key (fst (remove_waiter x key)) = next_key x" for x by (simp add: remove_waiter_def)
    have "keys_ok (Suc b) (arena s')"
      by (rule keys_ok_cong[OF keys'])
         (auto simp: s' remove_triggered_waiter_def nth_upd nk wr.rem_look[OF rok] split: if_splits)
    moreover have "wake_pending s' n k w from" if wp: "wake_pending s n k w from" and no: "\<not> own_op n k op"
      unfolding s' using no wr.rem_look[OF rok, of key]
      by (intro wake_pending_arena[OF wp])
         (use wp in \<open>auto simp: KForget own_op_def remove_triggered_waiter_def nth_upd wake_pending_def\<close>)
    ultimately show ?thesis by blast
  next
    case (KTrigger m)
    then have s': "s' = s\<lparr>arena := clone_arc (arena s) m, running := running s @ [([m], [])]\<rparr>"
      using step by (auto split: if_splits)
    have "keys_ok (Suc b) (clone_arc (arena s) m)
      \<and> (wake_pending s n k w from \<longrightarrow> wake_pending (s\<lparr>arena := clone_arc (arena s) m\<rparr>) n k w from)"
      by (rule same) (auto simp: same_but_waiters[OF same_but_clone])
    then show ?thesis by (auto simp: s' wake_pending_def)
  next
    case (KRound i)
    then obtain x pending ws h pending' ws' where i: "i < length (running s)" "running s ! i = (x # pending, ws)"
      and r: "trigger_round (arena s) x pending ws = (h, pending', ws')"
      and s': "s' = s\<lparr>arena := h, running := (running s)[i := (pending', ws')]\<rparr>"
      using step by (auto split: if_splits prod.splits list.splits)
    have "(x # pending, ws) \<in> set (running s)" using i by (metis nth_mem)
    then have "x \<in> set (stacks s)" by (force simp: stacks_def)
    then have x: "x < length (arena s)" using bd by blast
    have len: "length h = length (arena s)" using trigger_round_measure(2)[OF x r] .
    note W = round_waiters[OF r _ x tree_okD(1)[OF t x]]
    have "keys_ok (Suc b) h" by (rule keys_ok_cong[OF keys']) (auto simp: len W(4,5))
    moreover have "wake_pending s' n k w from" if wp: "wake_pending s n k w from"
    proof -
      have n: "n < length (arena s)" using wp by (simp add: wake_pending_def)
      have in_new: "v \<in> (\<Union>t \<in> set (running s'). set (snd t))" if "v \<in> set ws'" for v
        using that set_update_memI[OF i(1), of "(pending', ws')"] by (force simp: s')
      have old: "v \<in> (\<Union>t \<in> set (running s'). set (snd t))"
        if v: "v \<in> (\<Union>t \<in> set (running s). set (snd t))" for v
      proof -
        from v obtain t where "t \<in> set (running s)" "v \<in> set (snd t)" by blast
        then obtain j where j: "j < length (running s)" "v \<in> set (snd (running s ! j))"
          by (metis in_set_conv_nth)
        show ?thesis
        proof (cases "j = i")
          case True
          then show ?thesis using j i(2) W(2)[OF x] in_new by auto
        next
          case False
          then have "(running s)[i := (pending', ws')] ! j = running s ! j" by simp
          then have "running s ! j \<in> set (running s')" using j(1) by (metis s' cancel_sys.select_convs(2)
              cancel_sys.update_convs(2) cancel_sys.surjective length_list_update nth_mem)
          then show ?thesis using j(2) by blast
        qed
      qed
      show ?thesis
        using wp W(1)[OF n, of k w] in_new[of w] old[of w] by (auto simp: wake_pending_def s' len)
    qed
    ultimately show ?thesis by (simp add: s')
  next
    case (KWake i)
    then obtain ws where i: "i < length (running s)" "running s ! i = ([], ws)"
      and s': "s' = s\<lparr>running := take i (running s) @ drop (Suc i) (running s),
        woken_log := woken_log s @ ws\<rparr>"
      using step by (auto simp: wake_all_isolated_eq split: if_splits prod.splits list.splits)
    from stacks_split[OF i] obtain as bs where run: "running s = as @ ([], ws) # bs" "length as = i"
      by blast
    have "running s' = as @ bs" using run by (simp add: s')
    moreover have "woken_log s' = woken_log s @ ws" "arena s' = arena s" by (simp_all add: s')
    ultimately show ?thesis using keys' run by (auto simp: wake_pending_def)
  qed
  then show "keys_ok (Suc b) (arena s')"
    and "wake_pending s n k w from \<Longrightarrow> \<not> own_op n k op \<Longrightarrow> wake_pending s' n k w from" by blast+
qed

lemma cancel_reach_keys: "cancel_reach b s \<Longrightarrow> b < 2 ^ 64 \<Longrightarrow> keys_ok b (arena s)"
proof (induction rule: cancel_reach.induct)
  case cancel_start
  show ?case by (simp add: keys_ok_def cancel_new_def)
next
  case (cancel_next b s op s')
  then show ?case using cancel_step_wakes(1)[OF cancel_reach_ok] by simp
qed

lemma cancel_run_wakes:
  "sys_ok s \<Longrightarrow> keys_ok b (arena s) \<Longrightarrow> b + length ops < 2 ^ 64 \<Longrightarrow> cancel_run s ops = Some s' \<Longrightarrow>
   list_all (\<lambda>op. \<not> own_op n k op) ops \<Longrightarrow> wake_pending s n k w from \<Longrightarrow>
   sys_ok s' \<and> wake_pending s' n k w from"
proof (induction ops arbitrary: s b)
  case (Cons op ops)
  then obtain s1 where s1: "cancel_step s op = Some s1" "cancel_run s1 ops = Some s'"
    by (auto split: option.splits)
  have b: "Suc b < 2 ^ 64" "Suc b + length ops < 2 ^ 64" using Cons.prems(3) by simp_all
  show ?case
    using Cons.IH[OF _ cancel_step_wakes(1)[OF Cons.prems(1,2) b(1) s1(1)] b(2) s1(2)]
      cancel_step_ok[OF Cons.prems(1) s1(1)] Cons.prems(5,6)
      cancel_step_wakes(2)[OF Cons.prems(1,2) b(1) s1(1)] by simp
qed simp

text \<open>
  C17: a task that waits for the cancellation is woken. When a future polled pending and left its
  waker, and later the token is triggered, directly or through an ancestor, and every running
  trigger has finished, that waker has been woken, whatever all holders of the tree did in
  between and however triggers interleaved. (A node hands out its keys from a 64-bit counter:
  the statement is for fewer than 2^64 operations.)
\<close>

theorem cancellation_wakes:
  assumes "cancel_reach b s" "cancel_step s (KPoll n key w) = Some s1"
    and "snd (poll_triggered (arena s) n key w) = (Some k, False)"
    and "cancel_run s1 ops = Some s2" "list_all (\<lambda>op. \<not> own_op n k op) ops"
    and "b + length ops + 1 < 2 ^ 64"
    and "running s2 = []" "live (arena s2) n" "is_triggered (arena s2) n"
  shows "w \<in> set (drop (length (woken_log s1)) (woken_log s2))"
proof -
  have ok: "sys_ok s" "sys_ok s1"
    using cancel_reach_ok[OF assms(1)] cancel_step_ok[OF _ assms(2)] by blast+
  have keys: "keys_ok (Suc b) (arena s1)"
    by (rule cancel_step_wakes(1)[OF ok(1) cancel_reach_keys[OF assms(1)] _ assms(2)])
       (use assms(6) in simp_all)
  from assms(2) have n: "n < length (arena s)" and s1: "arena s1 = fst (poll_triggered (arena s) n key w)"
    by (auto simp: live_def split: if_splits)
  have nt: "\<not> is_triggered (arena s) n" using assms(3) by (auto simp: poll_triggered_def split: if_splits)
  have rok: "waiters_ok (sh_waiters (arena s ! n))"
    using ok(1) n tree_okD(1) by (auto simp: sys_ok_def shared_ok_def)
  have k: "fst (snd (register (sh_waiters (arena s ! n)) key w)) = Some k"
    using assms(3) nt by (simp add: poll_triggered_def case_prod_unfold)
  have "held (sh_waiters (arena s1 ! n)) k = Some w"
    using n nt wr.reg_look[OF rok k] by (simp add: s1 poll_triggered_def case_prod_unfold nth_upd)
  then have "wake_pending s1 n k w (length (woken_log s1))"
    using n nt by (simp add: wake_pending_def s1 poll_triggered_def case_prod_unfold)
  from cancel_run_wakes[OF ok(2) keys _ assms(4,5) this] assms(6)
  have end_ok: "sys_ok s2" and wp: "wake_pending s2 n k w (length (woken_log s1))" by simp_all
  have t: "tree_ok (arena s2) {}" and a: "acct (arena s2) []"
    using end_ok assms(7) by (simp_all add: sys_ok_def stacks_def)
  have "triggered (arena s2 ! n)" using is_triggered_quiet[OF t a assms(8)] assms(9) by simp
  then have "held (sh_waiters (arena s2 ! n)) = Map.empty"
    using tree_okD(1)[OF t] assms(8) by (simp add: live_def shared_ok_def)
  then show ?thesis using wp assms(7) by (simp add: wake_pending_def)
qed

theorem cancellation_wakes_witness:
  "\<exists>s1 s2. cancel_step demo_tree (KPoll 2 None (Waker 4 None)) = Some s1 \<and>
     cancel_run s1 [KTrigger 1, KTrigger 0, KRound 1, KRound 0, KRound 1, KRound 0, KWake 0, KWake 0] = Some s2 \<and>
     Waker 4 None \<in> set (drop (length (woken_log s1)) (woken_log s2))"
proof -
  let ?ops = "[KTrigger 1, KTrigger 0, KRound 1, KRound 0, KRound 1, KRound 0, KWake 0, KWake 0]"
  let ?s1 = "the (cancel_step demo_tree (KPoll 2 None (Waker 4 None)))"
  let ?s2 = "the (cancel_run ?s1 ?ops)"
  have s: "cancel_step demo_tree (KPoll 2 None (Waker 4 None)) \<noteq> None" "cancel_run ?s1 ?ops \<noteq> None"
    "snd (poll_triggered (arena demo_tree) 2 None (Waker 4 None)) = (Some 1, False)"
    "running ?s2 = []" "live (arena ?s2) 2" "is_triggered (arena ?s2) 2"
    by code_simp+
  then have r: "cancel_step demo_tree (KPoll 2 None (Waker 4 None)) = Some ?s1" "cancel_run ?s1 ?ops = Some ?s2"
    by simp_all
  have "list_all (\<lambda>op. \<not> own_op 2 1 op) ?ops" by (simp add: own_op_def)
  from cancellation_wakes[OF demo_tree_reach r(1) s(3) r(2) this _ s(4,5,6)] r
  show ?thesis by (intro exI[of _ ?s1] exI[of _ ?s2]) simp
qed

end
