(* ===== verification/Exec_Checkpoint.thy ===== *)
theory Exec_Checkpoint
  imports Graph_Wire
begin

text \<open>
  The outside of a run of \<open>br-graph-executor\<close>: checkpoints (\<open>checkpoint.rs\<close>), the names a run is
  started with (\<open>node_names.rs\<close>), the errors (\<open>errors.rs\<close>), the checks of \<open>resume.rs\<close> and the text of
  a panic (\<open>panic_text.rs\<close>). Bytes and UTF-8 are as in Rust's standard library.
\<close>

section \<open>Panic payloads\<close>

datatype payload = StrPayload string | StringPayload string | OtherPayload

definition text_of :: "payload \<Rightarrow> string" where
  "text_of p = (case p of StrPayload t \<Rightarrow> t | StringPayload t \<Rightarrow> t
     | OtherPayload \<Rightarrow> ''panic without a text message'')"

definition panic_reason :: "payload \<Rightarrow> string" where
  "panic_reason p = text_of p"

text \<open>\<open>display_of\<close>: the text of a cause, or of the panic of its \<open>Display\<close>.\<close>

definition display_of :: "cause \<Rightarrow> string" where
  "display_of c = (case display c of Inl panic_text \<Rightarrow> panic_text | Inr text \<Rightarrow> text)"

section \<open>UTF-8\<close>

definition cont_byte :: "char \<Rightarrow> bool" where
  "cont_byte c = byte_in 128 191 c"

definition utf8_width :: "char \<Rightarrow> nat" where
  "utf8_width c = (if byte_in 0 127 c then 1 else if byte_in 194 223 c then 2
     else if byte_in 224 239 c then 3 else if byte_in 240 244 c then 4 else 0)"

definition second_ok :: "char \<Rightarrow> char \<Rightarrow> bool" where
  "second_ok a b = (let n = of_char a :: nat in
     if n = 224 then byte_in 160 191 b else if n = 237 then byte_in 128 159 b
     else if n = 240 then byte_in 144 191 b else if n = 244 then byte_in 128 143 b
     else cont_byte b)"

definition bad_sequence :: "nat \<Rightarrow> nat \<Rightarrow> string" where
  "bad_sequence len at = ''invalid utf-8 sequence of '' @ show_nat len @ '' bytes from index '' @ show_nat at"

definition cut_sequence :: "nat \<Rightarrow> string" where
  "cut_sequence at = ''incomplete utf-8 byte sequence from index '' @ show_nat at"

text \<open>One sequence at the head of the bytes: its width, or the error.\<close>

definition utf8_head :: "nat \<Rightarrow> char \<Rightarrow> string \<Rightarrow> string + nat" where
  "utf8_head at a rest = (let w = utf8_width a in
     if w = 0 then Inl (bad_sequence 1 at)
     else if w = 1 then Inr 1
     else case rest of
       [] \<Rightarrow> Inl (cut_sequence at)
     | b # rest2 \<Rightarrow>
        if \<not> second_ok a b then Inl (bad_sequence 1 at)
        else if w = 2 then Inr 2
        else case rest2 of
          [] \<Rightarrow> Inl (cut_sequence at)
        | c # rest3 \<Rightarrow>
           if \<not> cont_byte c then Inl (bad_sequence 2 at)
           else if w = 3 then Inr 3
           else case rest3 of
             [] \<Rightarrow> Inl (cut_sequence at)
           | d # _ \<Rightarrow> if cont_byte d then Inr 4 else Inl (bad_sequence 3 at))"

function utf8_check :: "nat \<Rightarrow> string \<Rightarrow> string + unit" where
  "utf8_check at [] = Inr ()"
| "utf8_check at (a # rest) = (case utf8_head at a rest of
     Inl e \<Rightarrow> Inl e
   | Inr w \<Rightarrow> utf8_check (at + w) (drop (w - 1) rest))"
  by pat_completeness auto
termination by (relation "measure (\<lambda>(at, s). length s)") auto

definition from_utf8 :: "string \<Rightarrow> string + string" where
  "from_utf8 bytes = (case utf8_check 0 bytes of Inl e \<Rightarrow> Inl e | Inr _ \<Rightarrow> Inr bytes)"

lemma from_utf8_Inr: "from_utf8 b = Inr s \<Longrightarrow> s = b"
  by (auto simp: from_utf8_def split: sum.splits)

text \<open>Plain ASCII is UTF-8.\<close>

lemma utf8_check_ascii: "list_all (byte_in 0 127) s \<Longrightarrow> utf8_check at s = Inr ()"
  by (induction s arbitrary: at) (simp_all add: utf8_head_def utf8_width_def)

section \<open>Checkpoints\<close>

record checkpoint =
  cp_state :: string
  cp_structure :: graph_structure
  cp_nodes :: "string list"

definition checkpoint_build ::
  "('f, 'u) fields_ops \<Rightarrow> 'f state \<Rightarrow> graph_structure \<Rightarrow> string list \<Rightarrow> string + checkpoint" where
  "checkpoint_build F s st names = (case to_json F s of
     Panic text \<Rightarrow> Inl text
   | Err e \<Rightarrow> Inl (show_invalid_state e)
   | Ret bytes \<Rightarrow> bind_sum (from_utf8 bytes) (\<lambda>text.
       Inr \<lparr>cp_state = text, cp_structure = st, cp_nodes = names\<rparr>))"

definition unreadable :: "graph_structure \<Rightarrow> string list \<Rightarrow> checkpoint" where
  "unreadable st names = \<lparr>cp_state = [], cp_structure = st, cp_nodes = names\<rparr>"

text \<open>The stored form, \<open>WireOut\<close> and \<open>WireIn\<close>, with unknown fields denied.\<close>

definition ser_checkpoint :: "checkpoint \<Rightarrow> json" where
  "ser_checkpoint cp = JObj [(''state'', JStr (cp_state cp)),
     (''structure'', ser_structure (cp_structure cp)),
     (''nodes'', JArr (map JStr (cp_nodes cp)))]"

record wire_slots =
  ws_state :: "string option"
  ws_structure :: "graph_structure option"
  ws_nodes :: "string list option"

text \<open>A data error of the outer document, or of the structure inside.\<close>

datatype checkpoint_error = CpWire wire_error | CpStructure structure_error

definition cp_fill ::
  "'a option \<Rightarrow> string \<Rightarrow> (json \<Rightarrow> checkpoint_error + 'a) \<Rightarrow> json \<Rightarrow> checkpoint_error + 'a option" where
  "cp_fill slot field d j = (if slot \<noteq> None then Inl (CpWire (DuplicateField field))
     else bind_sum (d j) (\<lambda>x. Inr (Some x)))"

definition wire_slot_step :: "wire_slots \<Rightarrow> string \<times> json \<Rightarrow> checkpoint_error + wire_slots" where
  "wire_slot_step s kv = (case kv of (k, j) \<Rightarrow>
     if k = ''state'' then bind_sum (cp_fill (ws_state s) k (map_inl CpWire \<circ> de_string) j)
       (\<lambda>x. Inr (s\<lparr>ws_state := x\<rparr>))
     else if k = ''structure'' then bind_sum (cp_fill (ws_structure s) k (map_inl CpStructure \<circ> from_json) j)
       (\<lambda>x. Inr (s\<lparr>ws_structure := x\<rparr>))
     else if k = ''nodes'' then bind_sum (cp_fill (ws_nodes s) k (map_inl CpWire \<circ> de_list de_string) j)
       (\<lambda>x. Inr (s\<lparr>ws_nodes := x\<rparr>))
     else Inl (CpWire (UnknownField k)))"

definition cp_required :: "'a option \<Rightarrow> string \<Rightarrow> checkpoint_error + 'a" where
  "cp_required slot field = map_inl CpWire (required slot field)"

text \<open>serde's derived \<open>Deserialize\<close> also reads a sequence of the three fields in order.\<close>

definition de_checkpoint :: "json \<Rightarrow> checkpoint_error + checkpoint" where
  "de_checkpoint j = (case j of
     JObj kvs \<Rightarrow> bind_sum (for_each wire_slot_step \<lparr>ws_state = None, ws_structure = None, ws_nodes = None\<rparr> kvs)
       (\<lambda>s. bind_sum (cp_required (ws_state s) ''state'') (\<lambda>state.
            bind_sum (cp_required (ws_structure s) ''structure'') (\<lambda>st.
            bind_sum (cp_required (ws_nodes s) ''nodes'') (\<lambda>names.
              Inr \<lparr>cp_state = state, cp_structure = st, cp_nodes = names\<rparr>))))
   | JArr js \<Rightarrow> (case js of
       j1 # j2 # j3 # rest \<Rightarrow>
         bind_sum (map_inl CpWire (de_string j1)) (\<lambda>state.
         bind_sum (map_inl CpStructure (from_json j2)) (\<lambda>st.
         bind_sum (map_inl CpWire (de_list de_string j3)) (\<lambda>names.
           if rest = [] then Inr \<lparr>cp_state = state, cp_structure = st, cp_nodes = names\<rparr>
           else Inl (CpWire (InvalidType ''fewer elements in array'')))))
     | _ \<Rightarrow> Inl (CpWire (InvalidType ''struct WireIn with 3 elements'')))
   | _ \<Rightarrow> Inl (CpWire (InvalidType ''struct WireIn'')))"

section \<open>Names to start with\<close>

datatype name_fault = FaultEmpty | FaultDuplicate string | FaultUnknown string

definition check_name ::
  "('f, 'i) graph \<Rightarrow> string set \<Rightarrow> string \<Rightarrow> name_fault + string set" where
  "check_name g seen name =
     (if name \<in> seen then Inl (FaultDuplicate name)
      else if g_nodes g name = None then Inl (FaultUnknown name)
      else Inr (insert name seen))"

definition check_names :: "('f, 'i) graph \<Rightarrow> string list \<Rightarrow> name_fault + unit" where
  "check_names g names =
     (if names = [] then Inl FaultEmpty
      else bind_sum (for_each (check_name g) {} names) (\<lambda>_. Inr ()))"

datatype start_error = StartNoNodes | StartUnknownNode string | StartDuplicateNode string

datatype resume_error =
  VersionMismatch string string
| StructureMismatch string
| StateRejected string
| ResumeUnknownNode string
| ResumeDuplicateNode string
| ResumeNoNodes
| ResumeMalformed checkpoint_error

fun start_error_from :: "name_fault \<Rightarrow> start_error" where
  "start_error_from FaultEmpty = StartNoNodes"
| "start_error_from (FaultDuplicate name) = StartDuplicateNode name"
| "start_error_from (FaultUnknown name) = StartUnknownNode name"

fun resume_error_from :: "name_fault \<Rightarrow> resume_error" where
  "resume_error_from FaultEmpty = ResumeNoNodes"
| "resume_error_from (FaultDuplicate name) = ResumeDuplicateNode name"
| "resume_error_from (FaultUnknown name) = ResumeUnknownNode name"

definition checkpoint_from_json :: "json \<Rightarrow> resume_error + checkpoint" where
  "checkpoint_from_json j = map_inl ResumeMalformed (de_checkpoint j)"

section \<open>The checks of a resume\<close>

definition rebuild_state ::
  "('f, 'u) fields_ops \<Rightarrow> checkpoint \<Rightarrow> nat \<Rightarrow> resume_error + 'f state" where
  "rebuild_state F cp lim = (case rebuild_with_limit F (cp_state cp) lim of
     Ret s \<Rightarrow> Inr s
   | Err e \<Rightarrow> Inl (StateRejected (show_invalid_state e))
   | Panic text \<Rightarrow> Inl (StateRejected text))"

definition check_structure :: "('f, 'i) graph \<Rightarrow> checkpoint \<Rightarrow> resume_error + unit" where
  "check_structure g cp = (let wanted = g_structure g; given = cp_structure cp in
     if version given \<noteq> version wanted then Inl (VersionMismatch (version given) (version wanted))
     else if map node_name (nodes given) \<noteq> map node_name (nodes wanted)
       then Inl (StructureMismatch ''the node names differ'')
     else if edges given \<noteq> edges wanted then Inl (StructureMismatch ''the edges differ'')
     else Inr ())"

text \<open>What \<open>resume\<close> does before it drives the run.\<close>

definition resume_checks ::
  "('f, 'u) fields_ops \<Rightarrow> ('f, 'i) graph \<Rightarrow> checkpoint \<Rightarrow> nat \<Rightarrow> resume_error + 'f state" where
  "resume_checks F g cp lim =
     bind_sum (map_inl resume_error_from (check_names g (cp_nodes cp))) (\<lambda>_.
     bind_sum (check_structure g cp) (\<lambda>_.
       rebuild_state F cp lim))"

section \<open>Lemmas\<close>

lemma check_names_Inr_iff:
  "check_names g names = Inr () \<longleftrightarrow> names \<noteq> [] \<and> distinct names \<and> set names \<subseteq> dom (g_nodes g)"
proof -
  have step: "check_name g seen n = Inr seen' \<longleftrightarrow>
      n \<in> dom (g_nodes g) \<and> n \<notin> seen \<and> seen' = insert n seen" for seen n seen'
    by (auto simp: check_name_def)
  show ?thesis
    using for_each_uniq[of "check_name g" "\<lambda>n. n \<in> dom (g_nodes g)" "\<lambda>n. n", OF step, of "{}" names]
    by (auto simp: check_names_def bind_sum_Inr_iff list_all_iff)
qed

lemma check_structure_same: "cp_structure cp = g_structure g \<Longrightarrow> check_structure g cp = Inr ()"
  by (simp add: check_structure_def)

lemma checkpoint_build_Inr_iff:
  "checkpoint_build F s st names = Inr cp \<longleftrightarrow>
   (\<exists>json. to_json F s = Ret json \<and> from_utf8 json = Inr json
      \<and> cp = \<lparr>cp_state = json, cp_structure = st, cp_nodes = names\<rparr>)"
  by (auto simp: checkpoint_build_def bind_sum_Inr_iff dest: from_utf8_Inr split: comp.splits)

lemma de_checkpoint_ser:
  assumes "from_json (ser_structure (cp_structure cp)) = Inr (cp_structure cp)"
  shows "de_checkpoint (ser_checkpoint cp) = Inr cp"
proof -
  have "de_all de_string (map JStr (cp_nodes cp)) = Inr (cp_nodes cp)"
    by (intro de_all_map) simp
  then show ?thesis using assms
    by (simp add: de_checkpoint_def ser_checkpoint_def wire_slot_step_def cp_fill_def cp_required_def
        required_def de_list_def)
qed

section \<open>A concrete host for the witnesses\<close>

definition demo_state :: "nat state" where
  "demo_state = \<lparr>fields_of = 42, limit_of = 131072, size_of = 2\<rparr>"

lemma demo_state_json: "to_json nat_fields demo_state = Ret ''42''"
proof -
  have "show_nat 42 = ''42''" by code_simp
  then show ?thesis by (simp add: to_json_def serialize_def nat_fields_def demo_state_def)
qed

lemma demo_state_ok: "state_ok nat_fields demo_state"
proof -
  have "length (show_nat 42) = 2" by (simp add: show_nat.simps)
  then show ?thesis using nat_fields_ok[of 42] by (simp add: demo_state_def)
qed

text \<open>
  C18: a checkpoint survives storage: reading the document a checkpoint is serialized to gives the
  same checkpoint, for the structure of any graph that was built.
\<close>

theorem checkpoint_roundtrip:
  assumes "build b = Inr g" "cp_structure cp = g_structure g"
  shows "checkpoint_from_json (ser_checkpoint cp) = Inr cp"
proof -
  have "from_shape (builder_shape b) = Inr (g_structure g)"
    using assms(1) by (auto simp: build_Inr_iff from_shape_Inr_iff)
  then have v: "valid_shape (g_structure g)" "sorted_shape (g_structure g) = g_structure g"
    by (auto simp: from_shape_Inr_iff valid_shape_sorted sorted_shape_idem)
  have "de_shape (ser_structure (g_structure g)) = Inr (g_structure g)"
    by (rule de_shape_ser) (rule valid_shape_no_end_node[OF v(1)])
  then have "from_json (ser_structure (g_structure g)) = Inr (g_structure g)"
    using v by (simp add: from_json_def from_shape_Inr_iff)
  then show ?thesis using de_checkpoint_ser[of cp] assms(2) by (simp add: checkpoint_from_json_def)
qed

theorem checkpoint_roundtrip_witness:
  "checkpoint_from_json (ser_checkpoint \<lparr>cp_state = ''42'', cp_structure = g_structure (demo_graph ()),
     cp_nodes = [''ask'']\<rparr>) = Inr \<lparr>cp_state = ''42'', cp_structure = g_structure (demo_graph ()),
     cp_nodes = [''ask'']\<rparr>"
  by (rule checkpoint_roundtrip[OF demo_build]) simp

text \<open>
  a resume goes through its checks exactly when the checkpoint names at least one node, each
  once and all of the graph, was taken from a graph of the same version with the same node names
  and edges, and its state rebuilds under the limit; kinds and entries may differ.
\<close>

theorem resume_checks_iff:
  "resume_checks F g cp lim = Inr s \<longleftrightarrow>
     cp_nodes cp \<noteq> [] \<and> distinct (cp_nodes cp) \<and> set (cp_nodes cp) \<subseteq> dom (g_nodes g) \<and>
     version (cp_structure cp) = version (g_structure g) \<and>
     map node_name (nodes (cp_structure cp)) = map node_name (nodes (g_structure g)) \<and>
     edges (cp_structure cp) = edges (g_structure g) \<and>
     rebuild_with_limit F (cp_state cp) lim = Ret s"
  by (auto simp: resume_checks_def bind_sum_Inr_iff check_names_Inr_iff check_structure_def Let_def
      rebuild_state_def split: comp.splits)

text \<open>
  what a run saved can be resumed: a checkpoint built from a state and a non-empty list of
  distinct nodes passes every check of \<open>resume\<close> against the same graph, and the state comes back
  as it was, for fields whose deserializer reads back what their serializer wrote.
\<close>

theorem resume_own_checkpoint:
  assumes "built_state F s" "checkpoint_build F s (g_structure g) names = Inr cp"
    and "names \<noteq> []" "distinct names" "set names \<subseteq> dom (g_nodes g)"
    and "de_slice F (cp_state cp) = Ret (fields_of s)"
  shows "resume_checks F g cp (limit_of s) = Inr s"
proof -
  have "rebuild_with_limit F (cp_state cp) (limit_of s) = Ret s"
    using assms(6) built_state_ok[OF assms(1)] by (simp add: rebuild_with_limit_Ret_iff)
  moreover have "cp_structure cp = g_structure g" "cp_nodes cp = names"
    using assms(2) by (auto simp: checkpoint_build_Inr_iff)
  moreover have "check_names g names = Inr ()" using assms(3,4,5) by (simp add: check_names_Inr_iff)
  ultimately show ?thesis by (simp add: resume_checks_def check_structure_same rebuild_state_def)
qed

theorem resume_own_checkpoint_witness:
  "\<exists>cp. checkpoint_build nat_fields demo_state (g_structure (demo_graph ())) [''tell''] = Inr cp \<and>
     resume_checks nat_fields (demo_graph ()) cp 131072 = Inr demo_state"
proof -
  have "is_ok (checkpoint_build nat_fields demo_state (g_structure (demo_graph ())) [''tell''])"
    by (simp add: checkpoint_build_def demo_state_json) code_simp
  then obtain cp where cp: "checkpoint_build nat_fields demo_state (g_structure (demo_graph ())) [''tell''] = Inr cp"
    by (cases "checkpoint_build nat_fields demo_state (g_structure (demo_graph ())) [''tell'']") auto
  have b: "built_state nat_fields demo_state"
    using demo_state_ok by (intro built_state.created) (simp add: create_with_limit_Ret_iff)
  have "cp_state cp = ''42''" using cp by (auto simp: checkpoint_build_Inr_iff demo_state_json)
  moreover have "de_slice nat_fields ''42'' = Ret 42" by code_simp
  ultimately have d: "de_slice nat_fields (cp_state cp) = Ret (fields_of demo_state)" by (simp add: demo_state_def)
  have "dom (g_nodes (demo_graph ())) = set (node_names (g_structure (demo_graph ())))"
    using build_graph_ok[OF demo_build] by (simp add: graph_ok_def)
  moreover have "''tell'' \<in> set (node_names (g_structure (demo_graph ())))" by code_simp
  ultimately have n: "set [''tell''] \<subseteq> dom (g_nodes (demo_graph ()))" by simp
  from resume_own_checkpoint[OF b cp _ _ n d] cp show ?thesis by (simp add: demo_state_def)
qed

end
