(* ===== verification/Exec_Run.thy ===== *)
theory Exec_Run
  imports Exec_Checkpoint Instance_Core
begin

text \<open>
  A run of \<open>br-graph-executor\<close>: \<open>run/*.rs\<close>, \<open>outcome.rs\<close>, \<open>observe.rs\<close>, \<open>start.rs\<close>, and
  \<open>instance_id.rs\<close> of the contract.

  The run is one task: its state is the record \<open>run\<close> and every method is a function on it. What
  happens around it is the record \<open>env\<close>: when the host's cancellation becomes visible, the ids the
  uuid library gives, what the node side of an instance did before an input is given, what the
  sink answers and the clock. These are looked up at \<open>r_tick\<close>, which counts the run's
  observations of the outside, so any of them may change between any two observations. Messages
  of the creation and forwarder tasks are arbitrary and come in any order.
\<close>

section \<open>Instance ids\<close>

type_synonym instance_id = "128 word"

record uuid_ops =
  version_num :: "128 word \<Rightarrow> nat"
  is_rfc4122 :: "128 word \<Rightarrow> bool"
  show_uuid :: "128 word \<Rightarrow> string"

definition instance_id_new :: "uuid_ops \<Rightarrow> 128 word \<Rightarrow> 128 word + instance_id" where
  "instance_id_new U value =
     (if version_num U value = 7 \<and> is_rfc4122 U value then Inr value else Inl value)"

definition show_invalid_id :: "uuid_ops \<Rightarrow> 128 word \<Rightarrow> string" where
  "show_invalid_id U value = ''instance id '' @ show_uuid U value @ '' is not a UUIDv7''"

section \<open>Events, failures and outcomes\<close>

datatype 'u event = EvResult 'u | EvFailed cause | EvRefused reason | EvCancelled

datatype run_failure =
  NodeFailed string string "cause option"
| NodeRefusedInput string string
| NodeCouldNotStart string string "cause option"
| NodeVanished string string
| UpdateRefused string string
| EdgeFailedAt string string "cause option"
| SinkRefused string checkpoint
| CheckpointNotBuilt string

datatype 'f outcome =
  RunEnded "'f state"
| RunFailed "run_failure list" checkpoint
| RunCancelled "run_failure list" checkpoint

datatype observed_event = ObsResult | ObsFailed | ObsRefused | ObsCancelled

datatype outcome_kind = KindEnded | KindFailed | KindCancelled

datatype observation =
  InstanceCreated instance_id string string string
| InputHandedOver string instance_id
| EventHandled string instance_id observed_event
| UpdateApplied string
| EdgeEvaluated string "target list"
| ObsOutcome outcome_kind

record creation_failure =
  cf_reason :: string
  cf_cause :: "cause option"

type_synonym ('f, 'u) icore = "('f state, 'u event) inner"

datatype ('f, 'u) message =
  Created string instance_id "creation_failure + (instance_id \<times> ('f, 'u) icore)"
| EndedMsg string instance_id "event_end_error + 'u event"

section \<open>Slots\<close>

datatype ('f, 'u) live =
  Absent
| Creating instance_id "'f state"
| Running instance_id "('f, 'u) icore"

datatype presence = PAbsent | PCreating | PRunning

record ('f, 'u, 'i) slot =
  s_node :: "'i node_impl"
  s_kind :: string
  s_subkind :: string
  s_live :: "('f, 'u) live"
  s_held :: bool
  s_untaken :: bool

definition slot_new :: "'i node_impl \<Rightarrow> string \<Rightarrow> string \<Rightarrow> ('f, 'u, 'i) slot" where
  "slot_new n kind subkind = \<lparr>s_node = n, s_kind = kind, s_subkind = subkind, s_live = Absent,
     s_held = False, s_untaken = False\<rparr>"

definition presence_of :: "('f, 'u, 'i) slot \<Rightarrow> presence" where
  "presence_of s = (case s_live s of Absent \<Rightarrow> PAbsent | Creating _ _ \<Rightarrow> PCreating | Running _ _ \<Rightarrow> PRunning)"

definition is_live :: "('f, 'u, 'i) slot \<Rightarrow> bool" where
  "is_live s = (presence_of s \<noteq> PAbsent)"

definition is_idle :: "('f, 'u, 'i) slot \<Rightarrow> bool" where
  "is_idle s = (\<not> is_live s \<and> \<not> s_held s \<and> \<not> s_untaken s)"

definition running_id :: "('f, 'u, 'i) slot \<Rightarrow> instance_id option" where
  "running_id s = (case s_live s of Running iid _ \<Rightarrow> Some iid | _ \<Rightarrow> None)"

definition first_input_of_creation :: "('f, 'u, 'i) slot \<Rightarrow> instance_id \<Rightarrow> 'f state option" where
  "first_input_of_creation s iid = (case s_live s of
     Creating creating st \<Rightarrow> if creating = iid then Some st else None
   | _ \<Rightarrow> None)"

definition hold :: "('f, 'u, 'i) slot \<Rightarrow> ('f, 'u, 'i) slot" where
  "hold s = s\<lparr>s_held := True\<rparr>"

definition release :: "('f, 'u, 'i) slot \<Rightarrow> ('f, 'u, 'i) slot" where
  "release s = s\<lparr>s_held := False\<rparr>"

definition slot_untaken :: "('f, 'u, 'i) slot \<Rightarrow> ('f, 'u, 'i) slot" where
  "slot_untaken s = s\<lparr>s_untaken := True\<rparr>"

definition begin_creating ::
  "instance_id \<Rightarrow> 'f state \<Rightarrow> ('f, 'u, 'i) slot \<Rightarrow> ('f, 'u, 'i) slot" where
  "begin_creating iid st s = s\<lparr>s_live := Creating iid st\<rparr>"

definition become_running ::
  "instance_id \<Rightarrow> ('f, 'u) icore \<Rightarrow> ('f, 'u, 'i) slot \<Rightarrow> ('f, 'u, 'i) slot" where
  "become_running iid c s = s\<lparr>s_live := Running iid c\<rparr>"

definition end_instance :: "('f, 'u, 'i) slot \<Rightarrow> ('f, 'u, 'i) slot" where
  "end_instance s = s\<lparr>s_live := Absent\<rparr>"

definition abandon :: "('f, 'u, 'i) slot \<Rightarrow> ('f, 'u, 'i) slot" where
  "abandon s = (end_instance s)\<lparr>s_untaken := True\<rparr>"

section \<open>The environment\<close>

text \<open>What the node side of an instance can do with its ends between two observations.\<close>

datatype 'u node_act = ActClose | ActNext waker | ActDrain | ActFinish "'u event" | ActGone

definition node_act :: "('f, 'u) icore \<Rightarrow> 'u node_act \<Rightarrow> ('f, 'u) icore" where
  "node_act c act = (case act of
     ActClose \<Rightarrow> fst (close_input c)
   | ActNext w \<Rightarrow> fst (poll_next c w)
   | ActDrain \<Rightarrow> fst (drain c)
   | ActFinish e \<Rightarrow> fst (finish c e)
   | ActGone \<Rightarrow> fst (sender_gone c))"

datatype sink_answer = SinkOk | SinkRefusal string | SinkPanicked payload | SinkAborted

record 'u env =
  host_at :: "nat option"
  uuids :: uuid_ops
  now_v7 :: "nat \<Rightarrow> 128 word"
  node_acts :: "nat \<Rightarrow> 'u node_act list"
  sink :: "(nat \<Rightarrow> sink_answer) option"
  observer :: bool
  grace :: int
  clock :: "nat \<Rightarrow> int"
  instant_max :: int

section \<open>The run\<close>

datatype trigger = ByHost | ByExecutor

datatype phase = PhaseRunning | PhaseStopping int trigger

record ('f, 'u, 'i) run =
  r_graph :: "('f, 'i) graph"
  r_structure :: graph_structure
  r_state :: "'f state"
  r_slots :: "(string \<times> ('f, 'u, 'i) slot) list"
  r_failures :: "run_failure list"
  r_phase :: phase
  r_fired :: bool
  r_tick :: nat
  r_log :: "observation list"
  r_spawned :: "(string \<times> instance_id) list"

definition slot_of :: "('f, 'u, 'i) run \<Rightarrow> string \<Rightarrow> ('f, 'u, 'i) slot option" where
  "slot_of r name = map_of (r_slots r) name"

definition upd_slot ::
  "string \<Rightarrow> (('f, 'u, 'i) slot \<Rightarrow> ('f, 'u, 'i) slot) \<Rightarrow> ('f, 'u, 'i) run \<Rightarrow> ('f, 'u, 'i) run" where
  "upd_slot name f r = r\<lparr>r_slots := map (\<lambda>(k, s). (k, if k = name then f s else s)) (r_slots r)\<rparr>"

definition all_idle :: "('f, 'u, 'i) run \<Rightarrow> bool" where
  "all_idle r = list_all (\<lambda>(_, s). is_idle s) (r_slots r)"

definition any_live :: "('f, 'u, 'i) run \<Rightarrow> bool" where
  "any_live r = list_ex (\<lambda>(_, s). is_live s) (r_slots r)"

definition tell :: "'u env \<Rightarrow> observation \<Rightarrow> ('f, 'u, 'i) run \<Rightarrow> ('f, 'u, 'i) run" where
  "tell E obs r = (if observer E then r\<lparr>r_log := r_log r @ [obs]\<rparr> else r)"

definition tick :: "('f, 'u, 'i) run \<Rightarrow> ('f, 'u, 'i) run" where
  "tick r = r\<lparr>r_tick := r_tick r + 1\<rparr>"

section \<open>Stopping\<close>

definition is_stopping :: "('f, 'u, 'i) run \<Rightarrow> bool" where
  "is_stopping r = (case r_phase r of PhaseStopping _ _ \<Rightarrow> True | PhaseRunning \<Rightarrow> False)"

definition stopped_by_executor :: "('f, 'u, 'i) run \<Rightarrow> bool" where
  "stopped_by_executor r = (case r_phase r of PhaseStopping _ ByExecutor \<Rightarrow> True | _ \<Rightarrow> False)"

text \<open>What the run reads on its token now: its own trigger, or the host's if visible by now.\<close>

definition token_triggered :: "'u env \<Rightarrow> ('f, 'u, 'i) run \<Rightarrow> bool" where
  "token_triggered E r = (r_fired r \<or> (case host_at E of Some t \<Rightarrow> t \<le> r_tick r | None \<Rightarrow> False))"

definition ROUNDING_MARGIN :: int where
  "ROUNDING_MARGIN = 1000000"

definition FAR_FUTURE :: int where
  "FAR_FUTURE = 60 * 60 * 24 * 365 * 30 * 1000000000"

definition checked_add :: "int \<Rightarrow> int \<Rightarrow> int \<Rightarrow> int option" where
  "checked_add mx a b = (if a + b \<le> mx then Some (a + b) else None)"

text \<open>Instants and durations in nanoseconds.\<close>

definition deadline_after :: "int \<Rightarrow> int \<Rightarrow> int \<Rightarrow> int" where
  "deadline_after mx now gr = (case checked_add mx now gr of
     Some d \<Rightarrow> if checked_add mx d ROUNDING_MARGIN \<noteq> None then d else now + FAR_FUTURE
   | None \<Rightarrow> now + FAR_FUTURE)"

definition begin_stopping :: "'u env \<Rightarrow> trigger \<Rightarrow> ('f, 'u, 'i) run \<Rightarrow> ('f, 'u, 'i) run" where
  "begin_stopping E tr r =
     r\<lparr>r_phase := PhaseStopping (deadline_after (instant_max E) (clock E (r_tick r)) (grace E)) tr\<rparr>"

definition read_token :: "'u env \<Rightarrow> ('f, 'u, 'i) run \<Rightarrow> ('f, 'u, 'i) run" where
  "read_token E r =
     (if is_stopping r then r
      else if token_triggered E r then begin_stopping E ByHost (tick r)
      else tick r)"

definition leave_untaken :: "string \<Rightarrow> ('f, 'u, 'i) run \<Rightarrow> ('f, 'u, 'i) run" where
  "leave_untaken node r = upd_slot node slot_untaken r"

definition fail :: "'u env \<Rightarrow> run_failure \<Rightarrow> ('f, 'u, 'i) run \<Rightarrow> ('f, 'u, 'i) run" where
  "fail E failure r =
     (let r = r\<lparr>r_failures := r_failures r @ [failure]\<rparr> in
      if is_stopping r then r
      else if token_triggered E r then begin_stopping E ByHost (tick r)
      else begin_stopping E ByExecutor ((tick r)\<lparr>r_fired := True\<rparr>))"

definition fail_node ::
  "'u env \<Rightarrow> string \<Rightarrow> run_failure \<Rightarrow> ('f, 'u, 'i) run \<Rightarrow> ('f, 'u, 'i) run" where
  "fail_node E node failure r = fail E failure (leave_untaken node r)"

definition abandon_all_live :: "('f, 'u, 'i) run \<Rightarrow> ('f, 'u, 'i) run" where
  "abandon_all_live r =
     r\<lparr>r_slots := map (\<lambda>(k, s). (k, if is_live s then abandon s else s)) (r_slots r)\<rparr>"

section \<open>Handing inputs over\<close>

definition give_input ::
  "'u env \<Rightarrow> string \<Rightarrow> 'f state \<Rightarrow> ('f, 'u, 'i) run \<Rightarrow> ('f, 'u, 'i) run \<times> bool" where
  "give_input E name st r = (case slot_of r name of
     None \<Rightarrow> (r, False)
   | Some s \<Rightarrow> (case s_live s of
       Running iid c \<Rightarrow>
         (case give (foldl node_act c (node_acts E (r_tick r))) st of (c', res, _) \<Rightarrow>
           let r' = tick (upd_slot name (become_running iid c') r) in
           if is_ok res then (tell E (InputHandedOver name iid) r', True) else (r', False))
     | _ \<Rightarrow> (r, False)))"

definition give_held :: "'u env \<Rightarrow> string \<Rightarrow> ('f, 'u, 'i) run \<Rightarrow> ('f, 'u, 'i) run" where
  "give_held E name r = (case give_input E name (r_state r) r of
     (r', given) \<Rightarrow> if given then upd_slot name release r' else r')"

definition mint_id :: "'u env \<Rightarrow> nat \<Rightarrow> string + instance_id" where
  "mint_id E t = map_inl (show_invalid_id (uuids E)) (instance_id_new (uuids E) (now_v7 E t))"

definition creation_impossible ::
  "'u env \<Rightarrow> string \<Rightarrow> string \<Rightarrow> ('f, 'u, 'i) run \<Rightarrow> ('f, 'u, 'i) run" where
  "creation_impossible E name reason r = fail_node E name (NodeCouldNotStart name reason None) r"

definition begin_creation :: "'u env \<Rightarrow> string \<Rightarrow> ('f, 'u, 'i) run \<Rightarrow> ('f, 'u, 'i) run" where
  "begin_creation E name r = (case slot_of r name of
     None \<Rightarrow> r
   | Some s \<Rightarrow> (case mint_id E (r_tick r) of
       Inl reason \<Rightarrow> creation_impossible E name reason (tick r)
     | Inr iid \<Rightarrow>
         upd_slot name (\<lambda>s. begin_creating iid (r_state r) (release s))
           ((tick r)\<lparr>r_spawned := r_spawned r @ [(name, iid)]\<rparr>)))"

definition hand_to :: "'u env \<Rightarrow> string \<Rightarrow> ('f, 'u, 'i) run \<Rightarrow> ('f, 'u, 'i) run" where
  "hand_to E name r = (case slot_of r name of
     None \<Rightarrow> r
   | Some s \<Rightarrow> if \<not> s_held s then r
       else (case presence_of s of
          PCreating \<Rightarrow> r
        | PRunning \<Rightarrow> give_held E name r
        | PAbsent \<Rightarrow> begin_creation E name r))"

fun hand_loop :: "'u env \<Rightarrow> string list \<Rightarrow> ('f, 'u, 'i) run \<Rightarrow> ('f, 'u, 'i) run" where
  "hand_loop E [] r = r"
| "hand_loop E (name # order) r =
     (if is_stopping r then r else hand_loop E order (hand_to E name r))"

definition hand_over :: "'u env \<Rightarrow> string list \<Rightarrow> ('f, 'u, 'i) run \<Rightarrow> ('f, 'u, 'i) run" where
  "hand_over E targets r =
     hand_loop E (targets @ map fst (filter (\<lambda>(name, s). s_held s \<and> name \<notin> set targets) (r_slots r))) r"

section \<open>Creations\<close>

text \<open>What the creation task sends: the result of \<open>create\<close>, or how its task ended.\<close>

datatype 'a joined = JoinOk 'a | JoinPanicked payload | JoinCancelled

definition creation_result ::
  "(cause + (instance_id \<times> ('f, 'u) icore)) joined \<Rightarrow>
     creation_failure + (instance_id \<times> ('f, 'u) icore)" where
  "creation_result j = (case j of
     JoinOk (Inr inst) \<Rightarrow> Inr inst
   | JoinOk (Inl c) \<Rightarrow> Inl \<lparr>cf_reason = display_of c, cf_cause = Some c\<rparr>
   | JoinPanicked p \<Rightarrow> Inl \<lparr>cf_reason = panic_reason p, cf_cause = None\<rparr>
   | JoinCancelled \<Rightarrow> Inl \<lparr>cf_reason = ''the creation was cancelled'', cf_cause = None\<rparr>)"

definition settle_created ::
  "'u env \<Rightarrow> string \<Rightarrow> instance_id \<times> ('f, 'u) icore \<Rightarrow> 'f state \<Rightarrow> ('f, 'u, 'i) run \<Rightarrow> ('f, 'u, 'i) run" where
  "settle_created E node inst first_input r = (case inst of (iid, c) \<Rightarrow>
     (case slot_of r node of
        None \<Rightarrow> r
      | Some s \<Rightarrow>
          let r1 = tell E (InstanceCreated iid node (s_kind s) (s_subkind s))
                     (upd_slot node (become_running iid c) r) in
          (case give_input E node first_input r1 of (r2, given) \<Rightarrow>
             if \<not> given then upd_slot node hold r2
             else if (case slot_of r2 node of Some s2 \<Rightarrow> s_held s2 | None \<Rightarrow> False) \<and> \<not> is_stopping r2
               then give_held E node r2
             else r2)))"

definition on_created ::
  "'u env \<Rightarrow> string \<Rightarrow> instance_id \<Rightarrow> creation_failure + (instance_id \<times> ('f, 'u) icore) \<Rightarrow>
     ('f, 'u, 'i) run \<Rightarrow> ('f, 'u, 'i) run" where
  "on_created E node iid result r = (case slot_of r node of
     None \<Rightarrow> r
   | Some s \<Rightarrow> (case first_input_of_creation s iid of
       None \<Rightarrow> r
     | Some first_input \<Rightarrow>
         let failed = (\<lambda>failure. fail_node E node
               (NodeCouldNotStart node (cf_reason failure) (cf_cause failure))
               (upd_slot node (\<lambda>s. hold (end_instance s)) r)) in
         (case result of
            Inr inst \<Rightarrow>
              if fst inst = iid then settle_created E node inst first_input r
              else failed \<lparr>cf_reason = ''the instance does not carry the instance id it was given'',
                           cf_cause = None\<rparr>
          | Inl failure \<Rightarrow> failed failure)))"

section \<open>Checkpoints of a run\<close>

definition non_idle_names :: "('f, 'u, 'i) run \<Rightarrow> string list" where
  "non_idle_names r = map fst (filter (\<lambda>(_, s). \<not> is_idle s) (r_slots r))"

definition outcome_checkpoint ::
  "('f, 'u) fields_ops \<Rightarrow> ('f, 'u, 'i) run \<Rightarrow> checkpoint \<times> run_failure option" where
  "outcome_checkpoint F r = (let names = non_idle_names r in
     case checkpoint_build F (r_state r) (r_structure r) names of
       Inr cp \<Rightarrow> (cp, None)
     | Inl reason \<Rightarrow> (unreadable (r_structure r) names, Some (CheckpointNotBuilt reason)))"

definition take_step_checkpoint ::
  "('f, 'u) fields_ops \<Rightarrow> 'u env \<Rightarrow> ('f, 'u, 'i) run \<Rightarrow> ('f, 'u, 'i) run" where
  "take_step_checkpoint F E r =
     (case checkpoint_build F (r_state r) (r_structure r) (non_idle_names r) of
        Inl reason \<Rightarrow> fail E (CheckpointNotBuilt reason) r
      | Inr cp \<Rightarrow> (case sink E of
          None \<Rightarrow> r
        | Some answer \<Rightarrow> (case answer (r_tick r) of
            SinkOk \<Rightarrow> tick r
          | SinkRefusal reason \<Rightarrow> fail E (SinkRefused reason cp) (tick r)
          | SinkPanicked p \<Rightarrow> fail E (SinkRefused (panic_reason p) cp) (tick r)
          | SinkAborted \<Rightarrow> fail E (SinkRefused ''the sink call was cancelled'' cp) (tick r))))"

definition conclude ::
  "('f, 'u) fields_ops \<Rightarrow> 'u env \<Rightarrow> checkpoint option \<Rightarrow> ('f, 'u, 'i) run \<Rightarrow>
     'f outcome \<times> ('f, 'u, 'i) run" where
  "conclude F E starting r =
     (if all_idle r \<and> r_failures r = [] then (RunEnded (r_state r), tell E (ObsOutcome KindEnded) r)
      else
        let (cp, not_built) = (case starting of Some cp \<Rightarrow> (cp, None) | None \<Rightarrow> outcome_checkpoint F r);
            failures = r_failures r @ opt_list not_built
        in if stopped_by_executor r
           then (RunFailed failures cp, tell E (ObsOutcome KindFailed) r)
           else (RunCancelled failures cp, tell E (ObsOutcome KindCancelled) r))"

section \<open>The end of an instance\<close>

definition show_edge_error :: "edge_error \<Rightarrow> string" where
  "show_edge_error e = (case e of
     EdgeUnknownNode node \<Rightarrow> ''the graph holds no node named '' @ quoted node
   | EdgeUndeclaredTarget node t \<Rightarrow> ''the edge of node '' @ quoted node @ '' gave target ''
       @ target_as_str t @ '', which it did not declare''
   | EdgeEmptyTargets node \<Rightarrow> ''the edge of node '' @ quoted node @ '' gave no target''
   | EdgeEndMixedWithNodes node \<Rightarrow> ''the edge of node '' @ quoted node @ '' mixed END with node names''
   | EdgeFailed _ \<Rightarrow> ''the edge failed'')"

definition update_refused :: "string \<Rightarrow> string \<Rightarrow> run_failure" where
  "update_refused node reason = UpdateRefused node reason"

definition edge_failed :: "string \<Rightarrow> string \<Rightarrow> run_failure" where
  "edge_failed node reason = EdgeFailedAt node reason None"

definition vanished :: "string \<Rightarrow> string \<Rightarrow> run_failure" where
  "vanished node reason = NodeVanished node reason"

text \<open>The targets of a result: each target node is held, and the named ones are handed over first.\<close>

fun hold_targets :: "target list \<Rightarrow> ('f, 'u, 'i) run \<Rightarrow> ('f, 'u, 'i) run \<times> string list" where
  "hold_targets [] r = (r, [])"
| "hold_targets (End # ts) r = hold_targets ts r"
| "hold_targets (Node name # ts) r =
     (let (r', named) = hold_targets ts (upd_slot name hold r) in (r', name # named))"

definition commit_result ::
  "('f, 'u) fields_ops \<Rightarrow> 'u env \<Rightarrow> string \<Rightarrow> 'f state \<Rightarrow> target list \<Rightarrow> ('f, 'u, 'i) run \<Rightarrow> ('f, 'u, 'i) run" where
  "commit_result F E node new_state targets r =
     (let r1 = tell E (EdgeEvaluated node targets) (tell E (UpdateApplied node) (r\<lparr>r_state := new_state\<rparr>));
          (r2, named) = hold_targets targets r1
      in if all_idle r2 then r2
         else
           let r3 = (if is_stopping r2 then r2 else read_token E (take_step_checkpoint F E r2))
           in if is_stopping r3 then r3 else hand_over E named r3)"

definition result_step ::
  "('f, 'u) fields_ops \<Rightarrow> 'u env \<Rightarrow> string \<Rightarrow> 'u \<Rightarrow> ('f, 'u, 'i) run \<Rightarrow> ('f, 'u, 'i) run" where
  "result_step F E node update r = (case apply_update F (r_state r) update of
     Err e \<Rightarrow> fail_node E node (update_refused node (show_apply_error e)) r
   | Panic text \<Rightarrow> fail_node E node (update_refused node text) r
   | Ret new_state \<Rightarrow> (case evaluate_edge (r_graph r) node new_state of
       Err (EdgeFailed c) \<Rightarrow> fail_node E node (EdgeFailedAt node (display_of c) (Some c)) r
     | Err other \<Rightarrow> fail_node E node (edge_failed node (show_edge_error other)) r
     | Panic text \<Rightarrow> fail_node E node (edge_failed node text) r
     | Ret targets \<Rightarrow> commit_result F E node new_state targets r))"

definition on_ended ::
  "('f, 'u) fields_ops \<Rightarrow> 'u env \<Rightarrow> string \<Rightarrow> instance_id \<Rightarrow> event_end_error + 'u event \<Rightarrow>
     ('f, 'u, 'i) run \<Rightarrow> ('f, 'u, 'i) run" where
  "on_ended F E node iid result r = (case slot_of r node of
     None \<Rightarrow> r
   | Some s \<Rightarrow> if running_id s \<noteq> Some iid then r
       else
         let r1 = upd_slot node end_instance r in
         (case result of
            Inr (EvResult update) \<Rightarrow>
              result_step F E node update (tell E (EventHandled node iid ObsResult) r1)
          | Inr (EvFailed c) \<Rightarrow>
              fail_node E node (NodeFailed node (display_of c) (Some c))
                (tell E (EventHandled node iid ObsFailed) r1)
          | Inr (EvRefused reason) \<Rightarrow>
              fail_node E node (NodeRefusedInput node (into_string reason))
                (tell E (EventHandled node iid ObsRefused) r1)
          | Inr EvCancelled \<Rightarrow>
              (let r2 = tell E (EventHandled node iid ObsCancelled) r1 in
               if token_triggered E r2 then leave_untaken node (tick r2)
               else fail_node E node (NodeFailed node ''cancelled without a cancel request'' None) (tick r2))
          | Inl EndVanished \<Rightarrow>
              fail_node E node (vanished node ''the node side ended without a terminal event'') r1
          | Inl Finished \<Rightarrow>
              fail_node E node (vanished node ''the event end finished without an event'') r1))"

section \<open>Driving a run\<close>

definition step ::
  "('f, 'u) fields_ops \<Rightarrow> 'u env \<Rightarrow> ('f, 'u) message \<Rightarrow> ('f, 'u, 'i) run \<Rightarrow> ('f, 'u, 'i) run" where
  "step F E m r = (let r = read_token E r in
     case m of
       Created node iid result \<Rightarrow> on_created E node iid result r
     | EndedMsg node iid result \<Rightarrow> on_ended F E node iid result r)"

definition run_new ::
  "('f, 'i) graph \<Rightarrow> 'f state \<Rightarrow> ('f, 'u, 'i) run" where
  "run_new g s = (let st = g_structure g in
     \<lparr>r_graph = g, r_structure = st, r_state = s,
      r_slots = sort_key fst (List.map_filter (\<lambda>d. case g_nodes g (node_name d) of
          None \<Rightarrow> None
        | Some n \<Rightarrow> Some (node_name d, slot_new n (node_kind d) (node_subkind d))) (nodes st)),
      r_failures = [], r_phase = PhaseRunning, r_fired = False, r_tick = 0, r_log = [], r_spawned = []\<rparr>)"

datatype origin = Nodes "string list" | FromCheckpoint checkpoint

definition held_names :: "origin \<Rightarrow> string list" where
  "held_names og = (case og of Nodes names \<Rightarrow> names | FromCheckpoint cp \<Rightarrow> cp_nodes cp)"

definition first_targets :: "origin \<Rightarrow> string list" where
  "first_targets og = (case og of Nodes names \<Rightarrow> names | FromCheckpoint _ \<Rightarrow> [])"

definition into_checkpoint :: "origin \<Rightarrow> checkpoint option" where
  "into_checkpoint og = (case og of Nodes _ \<Rightarrow> None | FromCheckpoint cp \<Rightarrow> Some cp)"

text \<open>What wakes the loop while it waits. A deadline wakes it only while it stops.\<close>

datatype ('f, 'u) wake = CancelRequested | Message "('f, 'u) message" | Deadline

datatype ('f, 'u, 'i) driven = Concluded "'f outcome" "('f, 'u, 'i) run" | Waiting "('f, 'u, 'i) run"

definition concluded :: "'f outcome \<times> ('f, 'u, 'i) run \<Rightarrow> ('f, 'u, 'i) driven" where
  "concluded res = Concluded (fst res) (snd res)"

text \<open>The head of the loop, up to the point where it waits.\<close>

definition loop_head ::
  "('f, 'u) fields_ops \<Rightarrow> 'u env \<Rightarrow> ('f, 'u, 'i) run \<Rightarrow> ('f, 'u, 'i) driven" where
  "loop_head F E r = (let r = read_token E r in
     if all_idle r then concluded (conclude F E None r)
     else if is_stopping r \<and> (\<not> any_live r \<or> grace E = 0)
       then concluded (conclude F E None (abandon_all_live r))
     else Waiting r)"

text \<open>
  The loop over the wakes that come. While the run is not stopping, its select polls the
  cancellation first: a message is taken only when the token does not read as triggered.
\<close>

function drive_loop ::
  "('f, 'u) fields_ops \<Rightarrow> 'u env \<Rightarrow> ('f, 'u, 'i) run \<Rightarrow> ('f, 'u) wake list \<Rightarrow> ('f, 'u, 'i) driven" where
  "drive_loop F E r wakes = (case loop_head F E r of
     Concluded out r' \<Rightarrow> Concluded out r'
   | Waiting r1 \<Rightarrow>
      if \<not> is_stopping r1 \<and> token_triggered E r1 then drive_loop F E (read_token E (tick r1)) wakes
      else (case wakes of
         [] \<Rightarrow> Waiting r1
       | CancelRequested # rest \<Rightarrow>
           drive_loop F E (if is_stopping r1 then r1 else read_token E (tick r1)) rest
       | Message m # rest \<Rightarrow> drive_loop F E (step F E m (if is_stopping r1 then r1 else tick r1)) rest
       | Deadline # rest \<Rightarrow>
           if is_stopping r1 then concluded (conclude F E None (abandon_all_live r1))
           else drive_loop F E (tick r1) rest))"
  by pat_completeness auto

lemma stopping_simps [simp]:
  "is_stopping (tick r) = is_stopping r" "is_stopping (begin_stopping E tr r)"
  "is_stopping (upd_slot n f r) = is_stopping r" "is_stopping (tell E obs r) = is_stopping r"
  "is_stopping (r\<lparr>r_slots := sl\<rparr>) = is_stopping r" "is_stopping (r\<lparr>r_state := st\<rparr>) = is_stopping r"
  "is_stopping (r\<lparr>r_fired := b\<rparr>) = is_stopping r" "is_stopping (r\<lparr>r_failures := fs\<rparr>) = is_stopping r"
  "is_stopping (r\<lparr>r_spawned := sp\<rparr>) = is_stopping r"
  by (simp_all add: is_stopping_def tick_def begin_stopping_def upd_slot_def tell_def)

lemma token_triggered_tick: "token_triggered E r \<Longrightarrow> token_triggered E (tick r)"
  by (auto simp: token_triggered_def tick_def split: option.splits)

lemma read_token_stops: "token_triggered E r \<Longrightarrow> is_stopping (read_token E r)"
  by (simp add: read_token_def)

lemma loop_head_Waiting: "loop_head F E r = Waiting r1 \<Longrightarrow> r1 = read_token E r \<and> (is_stopping r \<longrightarrow> is_stopping r1)"
  by (auto simp: loop_head_def Let_def concluded_def read_token_def split: if_splits)

termination drive_loop
  by (relation "measures [\<lambda>(F, E, r, wakes). length wakes, \<lambda>(F, E, r, wakes). if is_stopping r then 0 else 1]")
     (auto dest: loop_head_Waiting intro: read_token_stops token_triggered_tick)

definition drive ::
  "('f, 'u) fields_ops \<Rightarrow> 'u env \<Rightarrow> ('f, 'u, 'i) run \<Rightarrow> origin \<Rightarrow> ('f, 'u) wake list \<Rightarrow> ('f, 'u, 'i) driven" where
  "drive F E r og wakes =
     (let r1 = read_token E (foldl (\<lambda>r name. upd_slot name hold r) r (held_names og)) in
      if is_stopping r1 then concluded (conclude F E (into_checkpoint og) r1)
      else drive_loop F E (hand_over E (first_targets og) r1) wakes)"

definition start ::
  "('f, 'u) fields_ops \<Rightarrow> 'u env \<Rightarrow> ('f, 'i) graph \<Rightarrow> 'f state \<Rightarrow> string list \<Rightarrow> ('f, 'u) wake list \<Rightarrow>
     start_error + ('f, 'u, 'i) driven" where
  "start F E g s names wakes =
     bind_sum (map_inl start_error_from (check_names g names)) (\<lambda>_.
       Inr (drive F E (run_new g s) (Nodes names) wakes))"

definition resume ::
  "('f, 'u) fields_ops \<Rightarrow> 'u env \<Rightarrow> ('f, 'i) graph \<Rightarrow> checkpoint \<Rightarrow> nat \<Rightarrow> ('f, 'u) wake list \<Rightarrow>
     resume_error + ('f, 'u, 'i) driven" where
  "resume F E g cp lim wakes =
     bind_sum (resume_checks F g cp lim) (\<lambda>s.
       Inr (drive F E (run_new g s) (FromCheckpoint cp) wakes))"

end
