(* ===== verification/Exec_Facts.thy ===== *)
theory Exec_Facts
  imports Exec_Run
begin

text \<open>
  What a run guarantees: which changes each step can make (\<open>runs_to\<close>), that no node is forgotten
  while it has work (\<open>busy\<close>), when state and graph position change, who is blamed for stopping, and
  what the outcome says.
\<close>

section \<open>Slots\<close>

lemma map_of_map_key: "map_of (map (\<lambda>(k, s). (k, f k s)) xs) k = map_option (f k) (map_of xs k)"
  by (induction xs) auto

lemma slot_of_upd [simp]:
  "slot_of (upd_slot n f r) m = (if m = n then map_option f (slot_of r m) else slot_of r m)"
proof -
  have "(\<lambda>(k, s). (k, if k = n then f s else s)) = (\<lambda>(k, s). (k, (\<lambda>k s. if k = n then f s else s) k s))"
    by auto
  then show ?thesis
    by (simp add: slot_of_def upd_slot_def map_of_map_key option.map_ident
        cong: option.map_cong split: if_splits)
qed

lemma slot_of_simps [simp]:
  "slot_of (tick r) m = slot_of r m" "slot_of (tell E obs r) m = slot_of r m"
  "slot_of (begin_stopping E tr r) m = slot_of r m" "slot_of (read_token E r) m = slot_of r m"
  "slot_of (fail E f r) m = slot_of r m" "slot_of (r\<lparr>r_state := st\<rparr>) m = slot_of r m"
  "slot_of (r\<lparr>r_spawned := sp\<rparr>) m = slot_of r m"
  by (simp_all add: slot_of_def tick_def tell_def begin_stopping_def read_token_def fail_def Let_def)

lemma keys_upd_slot [simp]: "map fst (r_slots (upd_slot n f r)) = map fst (r_slots r)"
  by (simp add: upd_slot_def case_prod_unfold comp_def)

section \<open>What every step keeps\<close>

text \<open>Who stopped the run: the host, whose cancellation was visible, or the executor after a failure.\<close>

definition phase_ok :: "'u env \<Rightarrow> ('f, 'u, 'i) run \<Rightarrow> bool" where
  "phase_ok E r \<longleftrightarrow> (case r_phase r of
     PhaseRunning \<Rightarrow> r_failures r = [] \<and> \<not> r_fired r
   | PhaseStopping _ ByExecutor \<Rightarrow> r_failures r \<noteq> [] \<and> r_fired r
   | PhaseStopping _ ByHost \<Rightarrow> \<not> r_fired r \<and> (\<exists>t. host_at E = Some t \<and> t \<le> r_tick r))"

definition runs_to :: "'u env \<Rightarrow> ('f, 'u, 'i) run \<Rightarrow> ('f, 'u, 'i) run \<Rightarrow> bool" where
  "runs_to E r r' \<longleftrightarrow>
     map fst (r_slots r') = map fst (r_slots r) \<and> r_graph r' = r_graph r \<and> r_structure r' = r_structure r
     \<and> r_tick r \<le> r_tick r'
     \<and> (\<exists>fs. r_failures r' = r_failures r @ fs) \<and> (\<exists>ls. r_log r' = r_log r @ ls)
     \<and> (is_stopping r \<longrightarrow> r_phase r' = r_phase r \<and> r_fired r' = r_fired r \<and> r_spawned r' = r_spawned r)
     \<and> (phase_ok E r \<longrightarrow> phase_ok E r')"

lemma runs_to_refl [simp]: "runs_to E r r"
  by (simp add: runs_to_def)

lemma runs_to_stopping: "runs_to E r r' \<Longrightarrow> is_stopping r \<Longrightarrow> is_stopping r'"
  by (simp add: runs_to_def is_stopping_def)

lemma runs_to_trans:
  assumes a: "runs_to E r1 r2" and b: "runs_to E r2 r3"
  shows "runs_to E r1 r3"
proof -
  have "is_stopping r1 \<Longrightarrow> is_stopping r2" using a by (rule runs_to_stopping)
  moreover obtain fs gs where "r_failures r2 = r_failures r1 @ fs" "r_failures r3 = r_failures r2 @ gs"
    using a b unfolding runs_to_def by blast
  moreover obtain ls ms where "r_log r2 = r_log r1 @ ls" "r_log r3 = r_log r2 @ ms"
    using a b unfolding runs_to_def by blast
  ultimately show ?thesis using a b unfolding runs_to_def by auto
qed

named_theorems run_steps

lemma phase_ok_cong:
  "phase_ok E r \<Longrightarrow> r_phase r' = r_phase r \<Longrightarrow> r_failures r' = r_failures r \<Longrightarrow> r_fired r' = r_fired r
   \<Longrightarrow> r_tick r \<le> r_tick r' \<Longrightarrow> phase_ok E r'"
  by (auto simp: phase_ok_def split: phase.splits trigger.splits)

text \<open>A step that leaves the failures, the phase and the trigger alone.\<close>

lemma runs_to_quiet:
  assumes "map fst (r_slots r') = map fst (r_slots r)" "r_graph r' = r_graph r" "r_structure r' = r_structure r"
    and "r_tick r \<le> r_tick r'" "r_failures r' = r_failures r" "r_log r' = r_log r @ ls"
    and "r_phase r' = r_phase r" "r_fired r' = r_fired r"
    and "is_stopping r \<longrightarrow> r_spawned r' = r_spawned r"
  shows "runs_to E r r'"
  using assms phase_ok_cong[of E r r'] by (auto simp: runs_to_def)

lemma runs_to_upd [run_steps]: "runs_to E r (upd_slot n f r)"
  by (rule runs_to_quiet[where ls = "[]"]) (simp only: keys_upd_slot, simp_all add: upd_slot_def)

lemma runs_to_tick [run_steps]: "runs_to E r (tick r)"
  by (rule runs_to_quiet[where ls = "[]"]) (simp_all add: tick_def)

lemma runs_to_tell [run_steps]: "runs_to E r (tell E' obs r)"
  by (rule runs_to_quiet[where ls = "if observer E' then [obs] else []"]) (simp_all add: tell_def)

lemma runs_to_tell_upd [run_steps]: "runs_to E r (tell E' obs (upd_slot n f r))"
  by (rule runs_to_trans[OF runs_to_upd runs_to_tell])

lemma runs_to_state [run_steps]: "runs_to E r (r\<lparr>r_state := st\<rparr>)"
  by (rule runs_to_quiet[where ls = "[]"]) simp_all

lemma runs_to_read_token [run_steps]: "runs_to E r (read_token E r)"
  by (auto simp: runs_to_def read_token_def tick_def begin_stopping_def phase_ok_def token_triggered_def
      is_stopping_def split: phase.splits trigger.splits option.splits)

lemma runs_to_fail [run_steps]: "runs_to E r (fail E f r)"
  by (auto simp: runs_to_def fail_def Let_def tick_def begin_stopping_def phase_ok_def token_triggered_def
      is_stopping_def split: phase.splits trigger.splits option.splits)

lemma runs_to_fail_node [run_steps]: "runs_to E r (fail_node E n f r)"
  unfolding fail_node_def leave_untaken_def by (rule runs_to_trans[OF runs_to_upd runs_to_fail])

lemma runs_to_give_input [run_steps]: "runs_to E r (fst (give_input E n st r))"
proof -
  note t = runs_to_trans[OF runs_to_upd runs_to_tick]
  show ?thesis
    unfolding give_input_def case_prod_unfold Let_def
    by (auto split: option.splits live.splits intro: t runs_to_trans[OF t runs_to_tell])
qed

lemma runs_to_give_held [run_steps]: "runs_to E r (give_held E n r)"
proof (cases "give_input E n (r_state r) r")
  case (Pair r' given)
  then have "runs_to E r r'" using runs_to_give_input[of E r n "r_state r"] by simp
  then show ?thesis using runs_to_trans[OF _ runs_to_upd, of E r r'] by (simp add: give_held_def Pair)
qed

lemma runs_to_begin_creation:
  "\<not> is_stopping r \<Longrightarrow> runs_to E r (begin_creation E n r)"
  unfolding begin_creation_def creation_impossible_def
  by (auto split: option.splits sum.splits intro: runs_to_trans[OF runs_to_tick runs_to_fail_node]
      intro!: runs_to_trans[OF _ runs_to_upd])
     (auto simp: runs_to_def tick_def phase_ok_def split: phase.splits trigger.splits)

lemma runs_to_hand_to: "\<not> is_stopping r \<Longrightarrow> runs_to E r (hand_to E n r)"
  unfolding hand_to_def
  by (auto split: option.splits presence.splits intro: runs_to_begin_creation runs_to_give_held)

lemma runs_to_hand_loop: "runs_to E r (hand_loop E ns r)"
  by (induction ns arbitrary: r) (auto intro: runs_to_trans runs_to_hand_to)

lemma runs_to_hand_over [run_steps]: "runs_to E r (hand_over E ns r)"
  unfolding hand_over_def by (rule runs_to_hand_loop)

lemma runs_to_settle_created [run_steps]: "runs_to E r (settle_created E n inst st r)"
proof -
  note b = runs_to_trans[OF runs_to_tell_upd runs_to_give_input]
  show ?thesis
    unfolding settle_created_def case_prod_unfold Let_def
    by (auto split: option.splits intro: b runs_to_trans[OF b runs_to_upd] runs_to_trans[OF b runs_to_give_held])
qed

lemma runs_to_on_created [run_steps]: "runs_to E r (on_created E n iid res r)"
  unfolding on_created_def Let_def
  by (auto split: option.splits sum.splits
      intro: runs_to_settle_created runs_to_trans[OF runs_to_upd runs_to_fail_node])

lemma runs_to_step_checkpoint [run_steps]: "runs_to E r (take_step_checkpoint F E r)"
  unfolding take_step_checkpoint_def
  by (auto split: option.splits sum.splits sink_answer.splits
      intro: runs_to_fail runs_to_tick runs_to_trans[OF runs_to_tick runs_to_fail])

lemma runs_to_hold_targets [run_steps]: "runs_to E r (fst (hold_targets ts r))"
  by (induction ts r rule: hold_targets.induct)
     (auto simp: Let_def case_prod_unfold intro: runs_to_trans[OF runs_to_upd])

lemma runs_to_commit [run_steps]: "runs_to E r (commit_result F E n st ts r)"
proof -
  define r1 where "r1 = tell E (EdgeEvaluated n ts) (tell E (UpdateApplied n) (r\<lparr>r_state := st\<rparr>))"
  define r2 where "r2 = fst (hold_targets ts r1)"
  define r3 where "r3 = (if is_stopping r2 then r2 else read_token E (take_step_checkpoint F E r2))"
  have 1: "runs_to E r r1" unfolding r1_def
    by (rule runs_to_trans[OF runs_to_trans[OF runs_to_state runs_to_tell] runs_to_tell])
  have 2: "runs_to E r r2" unfolding r2_def by (rule runs_to_trans[OF 1 runs_to_hold_targets])
  have 3: "runs_to E r r3" unfolding r3_def
    using 2 runs_to_trans[OF 2 runs_to_trans[OF runs_to_step_checkpoint runs_to_read_token]] by auto
  have "commit_result F E n st ts r = (if all_idle r2 then r2 else if is_stopping r3 then r3
      else hand_over E (snd (hold_targets ts r1)) r3)"
    by (simp add: commit_result_def Let_def r1_def r2_def r3_def case_prod_unfold)
  then show ?thesis using 2 3 runs_to_trans[OF 3 runs_to_hand_over] by simp
qed

lemma runs_to_result_step [run_steps]: "runs_to E r (result_step F E n u r)"
  unfolding result_step_def
  by (auto split: comp.splits edge_error.splits intro: runs_to_fail_node runs_to_commit)

lemma runs_to_on_ended [run_steps]: "runs_to E r (on_ended F E n iid res r)"
proof -
  note a = runs_to_tell_upd
  show ?thesis
    unfolding on_ended_def Let_def leave_untaken_def
    by (auto split: option.splits sum.splits event.splits event_end_error.splits
        intro: runs_to_trans[OF a runs_to_result_step] runs_to_trans[OF a runs_to_fail_node]
          runs_to_trans[OF runs_to_upd runs_to_fail_node]
          runs_to_trans[OF a runs_to_trans[OF runs_to_tick runs_to_upd]]
          runs_to_trans[OF a runs_to_trans[OF runs_to_tick runs_to_fail_node]])
qed

lemma runs_to_step [run_steps]: "runs_to E r (step F E m r)"
  unfolding step_def Let_def
  by (auto split: message.splits intro: runs_to_trans[OF runs_to_read_token runs_to_on_created]
      runs_to_trans[OF runs_to_read_token runs_to_on_ended])

lemma runs_to_abandon [run_steps]: "runs_to E r (abandon_all_live r)"
  by (rule runs_to_quiet[where ls = "[]"]) (simp_all add: abandon_all_live_def case_prod_unfold comp_def)

end
