(* ===== verification/Exec_Work.thy ===== *)
theory Exec_Work
  imports Exec_Facts
begin

text \<open>
  The work a run owes: marks of a slot that no step takes away (\<open>slot_mark\<close>: work left, an untaken
  input, an input held while the run stops), and when the state of the run changes.
\<close>

section \<open>Marks of a slot\<close>

definition has_mark :: "(('f, 'u, 'i) slot \<Rightarrow> bool) \<Rightarrow> ('f, 'u, 'i) run \<Rightarrow> string \<Rightarrow> bool" where
  "has_mark P r n = (case slot_of r n of None \<Rightarrow> False | Some s \<Rightarrow> P s)"

definition busy :: "('f, 'u, 'i) slot \<Rightarrow> bool" where
  "busy s = (\<not> is_idle s)"

definition keeps :: "(('f, 'u, 'i) slot \<Rightarrow> bool) \<Rightarrow> string set \<Rightarrow> ('f, 'u, 'i) run \<Rightarrow> ('f, 'u, 'i) run \<Rightarrow> bool" where
  "keeps P A r r' \<longleftrightarrow> (\<forall>m \<in> A. has_mark P r m \<longrightarrow> has_mark P r' m)"

lemma has_mark_simps [simp]:
  "has_mark P (tick r) m = has_mark P r m" "has_mark P (tell E obs r) m = has_mark P r m"
  "has_mark P (begin_stopping E tr r) m = has_mark P r m" "has_mark P (read_token E r) m = has_mark P r m"
  "has_mark P (fail E f r) m = has_mark P r m" "has_mark P (r\<lparr>r_state := st\<rparr>) m = has_mark P r m"
  "has_mark P (r\<lparr>r_spawned := sp\<rparr>) m = has_mark P r m"
  by (simp_all add: has_mark_def)

lemma has_mark_upd:
  "has_mark P (upd_slot n f r) m = (if m = n then has_mark (P \<circ> f) r n else has_mark P r m)"
  by (auto simp: has_mark_def split: option.splits)

lemma keeps_refl [simp]: "keeps P A r r"
  by (simp add: keeps_def)

lemma keeps_trans: "keeps P A r1 r2 \<Longrightarrow> keeps P A r2 r3 \<Longrightarrow> keeps P A r1 r3"
  by (simp add: keeps_def)

lemma keeps_mono: "keeps P B r r' \<Longrightarrow> A \<subseteq> B \<Longrightarrow> keeps P A r r'"
  by (auto simp: keeps_def)

lemma keeps_upd: "(\<And>s. P s \<Longrightarrow> P (f s)) \<Longrightarrow> keeps P A r (upd_slot n f r)"
  by (auto simp: keeps_def has_mark_upd has_mark_def split: option.splits)

lemma keeps_upd_other: "keeps P (- {n}) r (upd_slot n f r)"
  by (auto simp: keeps_def has_mark_upd)

lemma keeps_quiet [simp]:
  "keeps P A r (tick r') = keeps P A r r'" "keeps P A r (tell E obs r') = keeps P A r r'"
  "keeps P A r (read_token E r') = keeps P A r r'" "keeps P A r (fail E f r') = keeps P A r r'"
  "keeps P A r (r'\<lparr>r_state := st\<rparr>) = keeps P A r r'"
  "keeps P A r (r'\<lparr>r_spawned := sp\<rparr>) = keeps P A r r'" "keeps P A (tick r) r' = keeps P A r r'"
  "keeps P A (tell E obs r) r' = keeps P A r r'" "keeps P A (read_token E r) r' = keeps P A r r'"
  "keeps P A (r\<lparr>r_state := st\<rparr>) r' = keeps P A r r'" "keeps P A (r\<lparr>r_spawned := sp\<rparr>) r' = keeps P A r r'"
  by (simp_all add: keeps_def)

lemma stopping_give_input [simp]: "is_stopping (fst (give_input E n st r)) = is_stopping r"
  by (auto simp: give_input_def case_prod_unfold Let_def split: option.splits live.splits)

text \<open>
  The marks: no operation of a slot but the end of its instance takes the mark away, and neither
  does an end that leaves an untaken or a held input. A mark that a hand-over takes away
  (\<open>giving = False\<close>) is kept only while the run stops.
\<close>

locale slot_mark =
  fixes P :: "('f, 'u, 'i) slot \<Rightarrow> bool" and giving :: bool
  assumes mark_hold: "P s \<Longrightarrow> P (hold s)"
    and mark_untaken: "P s \<Longrightarrow> P (slot_untaken (end_instance s))"
    and mark_untaken2: "P s \<Longrightarrow> P (slot_untaken s)"
    and mark_run: "P s \<Longrightarrow> P (become_running iid c s)"
    and mark_unheld: "P s \<Longrightarrow> P (hold (end_instance s))"
    and mark_release: "giving \<Longrightarrow> P s \<Longrightarrow> P (release (become_running iid c s))"
    and mark_create: "giving \<Longrightarrow> P s \<Longrightarrow> P (begin_creating iid st (release s))"
begin

lemma keeps_hold: "keeps P A r (upd_slot n hold r)"
  by (rule keeps_upd) (rule mark_hold)

lemma keeps_untaken: "keeps P A r (leave_untaken n r)"
  unfolding leave_untaken_def by (rule keeps_upd) (rule mark_untaken2)

lemma keeps_fail_node: "keeps P A r (fail_node E n f r)"
  by (simp add: fail_node_def keeps_untaken)

lemma keeps_give_input: "keeps P A r (fst (give_input E n st r))"
proof -
  have "keeps P A r (upd_slot n (become_running iid c) r)" for iid c by (rule keeps_upd) (rule mark_run)
  then show ?thesis
    by (auto simp: give_input_def case_prod_unfold Let_def split: option.splits live.splits)
qed

lemma keeps_give_held:
  assumes giving
  shows "keeps P A r (give_held E n r)"
proof -
  have "keeps P A r (upd_slot n release (upd_slot n (become_running iid c) r))" for iid c
    using mark_release[OF assms] by (auto simp: keeps_def has_mark_upd has_mark_def split: option.splits)
  moreover have "upd_slot n release (tell E obs (tick (upd_slot n f r))) =
      tell E obs (tick (upd_slot n release (upd_slot n f r)))" for obs f
    by (simp add: upd_slot_def tell_def tick_def)
  ultimately show ?thesis
    using keeps_give_input[of A r E n "r_state r"]
    by (auto simp: give_held_def give_input_def case_prod_unfold Let_def split: option.splits live.splits if_splits)
qed

lemma keeps_begin_creation: "giving \<Longrightarrow> keeps P A r (begin_creation E n r)"
  using keeps_fail_node[of A "tick r"]
  by (auto simp: begin_creation_def creation_impossible_def split: option.splits sum.splits
      intro!: keeps_trans[OF _ keeps_upd] mark_create)

lemma keeps_hand_to: "giving \<Longrightarrow> keeps P A r (hand_to E n r)"
  by (auto simp: hand_to_def keeps_begin_creation keeps_give_held split: option.splits presence.splits)

lemma keeps_hand_loop: "giving \<Longrightarrow> keeps P A r (hand_loop E ns r)"
  by (induction ns arbitrary: r) (auto intro: keeps_trans keeps_hand_to)

lemma keeps_hand_over: "giving \<or> is_stopping r \<Longrightarrow> keeps P A r (hand_over E ns r)"
proof -
  have "is_stopping r \<Longrightarrow> hand_loop E ms r = r" for ms by (cases ms) auto
  then show "giving \<or> is_stopping r \<Longrightarrow> keeps P A r (hand_over E ns r)"
    by (auto simp: hand_over_def keeps_hand_loop)
qed

lemma keeps_settle_created:
  assumes "giving \<or> is_stopping r"
  shows "keeps P A r (settle_created E n inst st r)"
proof (cases inst)
  case (Pair iid c)
  show ?thesis
  proof (cases "slot_of r n")
    case (Some s)
    define r1 where "r1 = tell E (InstanceCreated iid n (s_kind s) (s_subkind s)) (upd_slot n (become_running iid c) r)"
    define r2 where "r2 = fst (give_input E n st r1)"
    have "keeps P A r r1" by (simp add: r1_def) (rule keeps_upd, rule mark_run)
    then have 2: "keeps P A r r2" unfolding r2_def by (rule keeps_trans) (rule keeps_give_input)
    have stop: "is_stopping r2 = is_stopping r" by (simp add: r2_def r1_def)
    have "settle_created E n inst st r = (if \<not> snd (give_input E n st r1) then upd_slot n hold r2
        else if (case slot_of r2 n of Some s2 \<Rightarrow> s_held s2 | None \<Rightarrow> False) \<and> \<not> is_stopping r2
        then give_held E n r2 else r2)"
      by (simp add: settle_created_def Some Let_def case_prod_unfold r1_def r2_def Pair del: stopping_simps)
    moreover have "keeps P A r (give_held E n r2)" if "\<not> is_stopping r2"
      by (rule keeps_trans[OF 2 keeps_give_held]) (use assms stop that in blast)
    ultimately show ?thesis
      using 2 keeps_trans[OF 2 keeps_hold] by simp
  qed (simp add: settle_created_def Pair)
qed

lemma keeps_on_created:
  assumes "giving \<or> is_stopping r"
  shows "keeps P A r (on_created E n iid res r)"
proof -
  have "keeps P A r (fail_node E' n f (upd_slot n (\<lambda>s. hold (end_instance s)) r))" for E' f
    by (rule keeps_trans[OF keeps_upd keeps_fail_node]) (rule mark_unheld)
  then show ?thesis
    using keeps_settle_created[OF assms]
    by (auto simp: on_created_def Let_def split: option.splits sum.splits)
qed

lemma keeps_hold_targets: "keeps P A r (fst (hold_targets ts r))"
  by (induction ts r rule: hold_targets.induct)
     (auto simp: Let_def case_prod_unfold intro: keeps_trans[OF keeps_hold])

lemma keeps_step_checkpoint: "keeps P A r (take_step_checkpoint F E r)"
  by (auto simp: take_step_checkpoint_def split: option.splits sum.splits sink_answer.splits)

lemma keeps_undone: "keeps P A r (fail_node E n f (tell E obs (upd_slot n end_instance r)))"
  "keeps P A r (fail_node E n f (tick (tell E obs (upd_slot n end_instance r))))"
  "keeps P A r (leave_untaken n (tick (tell E obs (upd_slot n end_instance r))))"
  "keeps P A r (fail_node E n f (upd_slot n end_instance r))"
  using mark_untaken
  by (auto simp: keeps_def fail_node_def leave_untaken_def has_mark_upd has_mark_def split: option.splits)

lemma keeps_commit:
  assumes "giving \<or> is_stopping r"
  shows "keeps P A r (commit_result F E n st ts r)"
proof -
  define r1 where "r1 = tell E (EdgeEvaluated n ts) (tell E (UpdateApplied n) (r\<lparr>r_state := st\<rparr>))"
  define r2 where "r2 = fst (hold_targets ts r1)"
  define r3 where "r3 = (if is_stopping r2 then r2 else read_token E (take_step_checkpoint F E r2))"
  have 2: "keeps P A r r2" using keeps_hold_targets[of A r1 ts] by (simp add: r2_def r1_def)
  have 3: "keeps P A r r3" using 2 keeps_trans[OF 2 keeps_step_checkpoint] by (simp add: r3_def)
  have "commit_result F E n st ts r = (if all_idle r2 then r2 else if is_stopping r3 then r3
      else hand_over E (snd (hold_targets ts r1)) r3)"
    by (simp add: commit_result_def Let_def r1_def r2_def r3_def case_prod_unfold)
  moreover have "keeps P A r (hand_over E ms r3)" if "\<not> is_stopping r3" for ms
  proof (rule keeps_trans[OF 3 keeps_hand_over])
    have "runs_to E r r1" unfolding r1_def
      by (rule runs_to_trans[OF runs_to_trans[OF runs_to_state runs_to_tell] runs_to_tell])
    then have "runs_to E r r2" unfolding r2_def by (rule runs_to_trans[OF _ runs_to_hold_targets])
    then have "is_stopping r \<Longrightarrow> is_stopping r2" by (rule runs_to_stopping)
    then show "giving \<or> is_stopping r3" using assms by (auto simp: r3_def)
  qed
  ultimately show ?thesis using 2 3 by simp
qed

end

section \<open>Committed results\<close>

text \<open>The node of a message, and what it commits: the state and the targets of its result.\<close>

fun message_node :: "('f, 'u) message \<Rightarrow> string" where
  "message_node (Created n iid res) = n"
| "message_node (EndedMsg n iid res) = n"

fun message_current :: "('f, 'u, 'i) run \<Rightarrow> ('f, 'u) message \<Rightarrow> bool" where
  "message_current r (Created n iid res) =
     (case slot_of r n of None \<Rightarrow> False | Some s \<Rightarrow> first_input_of_creation s iid \<noteq> None)"
| "message_current r (EndedMsg n iid res) =
     (case slot_of r n of None \<Rightarrow> False | Some s \<Rightarrow> running_id s = Some iid)"

fun committed ::
  "('f, 'u) fields_ops \<Rightarrow> ('f, 'u, 'i) run \<Rightarrow> ('f, 'u) message \<Rightarrow> ('f state \<times> target list) option" where
  "committed F r (EndedMsg n iid (Inr (EvResult u))) =
     (if \<not> message_current r (EndedMsg n iid (Inr (EvResult u))) then None
      else case apply_update F (r_state r) u of
        Ret st \<Rightarrow> (case evaluate_edge (r_graph r) n st of Ret ts \<Rightarrow> Some (st, ts) | _ \<Rightarrow> None)
      | _ \<Rightarrow> None)"
| "committed F r _ = None"

lemma state_simps [simp]:
  "r_state (tick r) = r_state r" "r_state (tell E ob r) = r_state r" "r_state (upd_slot n f r) = r_state r"
  "r_state (begin_stopping E tr r) = r_state r" "r_state (fail E rf r) = r_state r"
  "r_state (fail_node E n rf r) = r_state r" "r_state (leave_untaken n r) = r_state r"
  "r_state (abandon_all_live r) = r_state r" "r_state (r\<lparr>r_spawned := sp\<rparr>) = r_state r"
  by (simp_all add: tick_def tell_def upd_slot_def begin_stopping_def fail_def Let_def fail_node_def
      leave_untaken_def abandon_all_live_def)

lemma graph_simps [simp]:
  "r_graph (tell E ob r) = r_graph r" "r_graph (upd_slot n f r) = r_graph r"
  by (simp_all add: tell_def upd_slot_def)

lemma read_token_same [simp]:
  "r_state (read_token E r) = r_state r" "r_graph (read_token E r) = r_graph r"
  "r_spawned (read_token E r) = r_spawned r" "r_slots (read_token E r) = r_slots r"
  by (simp_all add: read_token_def tick_def begin_stopping_def)

lemma committed_read_token [simp]: "committed F (read_token E r) m = committed F r m"
  by (induction F r m rule: committed.induct) (simp_all cong: comp.case_cong)

lemma committed_SomeE:
  assumes "committed F r m = Some (st, ts)"
  obtains n iid u s where "m = EndedMsg n iid (Inr (EvResult u))" "slot_of r n = Some s"
    "running_id s = Some iid" "apply_update F (r_state r) u = Ret st"
    "evaluate_edge (r_graph r) n st = Ret ts"
  using assms by (induction F r m rule: committed.induct)
    (auto split: comp.splits if_splits option.splits)

lemma step_committed:
  assumes "committed F r m = Some (st, ts)"
  shows "\<exists>iid. step F E m r = commit_result F E (message_node m) st ts
    (tell E (EventHandled (message_node m) iid ObsResult)
      (upd_slot (message_node m) end_instance (read_token E r)))"
proof -
  from assms obtain n iid u s where m: "m = EndedMsg n iid (Inr (EvResult u))" "slot_of r n = Some s"
    "running_id s = Some iid" "apply_update F (r_state r) u = Ret st" "evaluate_edge (r_graph r) n st = Ret ts"
    by (rule committed_SomeE)
  then show ?thesis by (auto simp: step_def on_ended_def result_step_def Let_def)
qed

context slot_mark
begin

lemma keeps_step:
  assumes "giving \<or> is_stopping r" "committed F r m = None"
  shows "keeps P A r (step F E m r)"
proof (cases m)
  case (Created n iid res)
  have "giving \<or> is_stopping (read_token E r)" using assms(1) by (auto simp: read_token_def)
  then show ?thesis using keeps_on_created[of "read_token E r" A E n iid res] by (simp add: step_def Created)
next
  case (EndedMsg n iid res)
  define q where "q = read_token E r"
  have none: "committed F q (EndedMsg n iid res) = None" using assms(2) by (simp add: q_def EndedMsg)
  have "keeps P A q (on_ended F E n iid res q)"
    using none unfolding on_ended_def result_step_def Let_def
    by (auto simp: keeps_undone split: option.splits sum.splits event.splits event_end_error.splits
        comp.splits edge_error.splits if_splits)
  then show ?thesis by (simp add: step_def EndedMsg q_def)
qed

lemma keeps_step_commit:
  assumes "giving \<or> is_stopping r" "committed F r m = Some (st, ts)"
    and "keeps P A r (upd_slot (message_node m) end_instance r)"
  shows "keeps P A r (step F E m r)"
proof -
  obtain iid where eq: "step F E m r = commit_result F E (message_node m) st ts
      (tell E (EventHandled (message_node m) iid ObsResult)
        (upd_slot (message_node m) end_instance (read_token E r)))"
    using step_committed[OF assms(2)] by blast
  define q where "q = tell E (EventHandled (message_node m) iid ObsResult)
        (upd_slot (message_node m) end_instance (read_token E r))"
  have "has_mark P (upd_slot (message_node m) end_instance (read_token E r)) k =
      has_mark P (upd_slot (message_node m) end_instance r) k" for k
    by (simp add: has_mark_upd)
  then have "keeps P A r q" using assms(3) by (simp add: q_def keeps_def)
  moreover have "giving \<or> is_stopping q" using assms(1) by (auto simp: q_def read_token_def)
  ultimately show ?thesis unfolding eq q_def[symmetric] by (intro keeps_trans[OF _ keeps_commit])
qed

end

locale lasting_mark = slot_mark +
  assumes mark_end: "P s \<Longrightarrow> P (end_instance s)"
begin

lemma lasting_step: "giving \<or> is_stopping r \<Longrightarrow> keeps P A r (step F E m r)"
  by (cases "committed F r m") (auto intro: keeps_step keeps_step_commit keeps_upd mark_end)

end

lemmas slot_ops = hold_def release_def slot_untaken_def end_instance_def become_running_def
  begin_creating_def abandon_def

interpretation work: slot_mark busy True
  by unfold_locales
     (auto simp: slot_ops busy_def is_idle_def is_live_def presence_of_def split: live.splits)

interpretation untaken: lasting_mark s_untaken True
  by unfold_locales (auto simp: slot_ops)

interpretation held: lasting_mark s_held False
  by unfold_locales (auto simp: slot_ops)

lemma held_busy: "has_mark s_held r n \<Longrightarrow> has_mark busy r n"
  by (auto simp: has_mark_def busy_def is_idle_def split: option.splits)

lemma untaken_busy: "has_mark s_untaken r n \<Longrightarrow> has_mark busy r n"
  by (auto simp: has_mark_def busy_def is_idle_def split: option.splits)

lemma hold_targets_held:
  "Node t \<in> set ts \<Longrightarrow> slot_of r t \<noteq> None \<Longrightarrow> has_mark s_held (fst (hold_targets ts r)) t"
proof (induction ts r rule: hold_targets.induct)
  case (3 name ts r)
  show ?case
  proof (cases "name = t")
    case True
    then have "has_mark s_held (upd_slot name hold r) t"
      using "3.prems"(2) by (auto simp: has_mark_upd has_mark_def slot_ops)
    then show ?thesis
      using held.keeps_hold_targets[of UNIV "upd_slot name hold r" ts]
      by (simp add: case_prod_unfold Let_def keeps_def)
  next
    case False
    then show ?thesis using "3.IH" "3.prems" by (simp add: case_prod_unfold Let_def)
  qed
qed simp_all

lemma commit_target_busy:
  assumes "Node t \<in> set ts" "slot_of r t \<noteq> None"
  shows "has_mark busy (commit_result F E n st ts r) t"
proof -
  define r1 where "r1 = tell E (EdgeEvaluated n ts) (tell E (UpdateApplied n) (r\<lparr>r_state := st\<rparr>))"
  define r2 where "r2 = fst (hold_targets ts r1)"
  define r3 where "r3 = (if is_stopping r2 then r2 else read_token E (take_step_checkpoint F E r2))"
  have "slot_of r1 t \<noteq> None" using assms(2) by (simp add: r1_def)
  then have 2: "has_mark busy r2 t" unfolding r2_def by (intro held_busy hold_targets_held assms(1))
  then have 3: "has_mark busy r3 t"
    using work.keeps_step_checkpoint[of UNIV r2 F E] by (simp add: r3_def keeps_def)
  have "commit_result F E n st ts r = (if all_idle r2 then r2 else if is_stopping r3 then r3
      else hand_over E (snd (hold_targets ts r1)) r3)"
    by (simp add: commit_result_def Let_def r1_def r2_def r3_def case_prod_unfold)
  then show ?thesis using 2 3 work.keeps_hand_over[of r3 UNIV E] by (simp add: keeps_def)
qed

section \<open>The state of the run\<close>

lemma state_give_input [simp]: "r_state (fst (give_input E n st r)) = r_state r"
  by (auto simp: give_input_def case_prod_unfold Let_def split: option.splits live.splits)

lemma state_give_held [simp]: "r_state (give_held E n r) = r_state r"
  by (simp add: give_held_def case_prod_unfold)

lemma state_hand_to [simp]: "r_state (hand_to E n r) = r_state r"
  by (auto simp: hand_to_def begin_creation_def creation_impossible_def
      split: option.splits presence.splits sum.splits)

lemma state_hand_loop [simp]: "r_state (hand_loop E ns r) = r_state r"
  by (induction ns arbitrary: r) auto

lemma state_hand_over [simp]: "r_state (hand_over E ns r) = r_state r"
  by (simp add: hand_over_def)

lemma state_settle_created [simp]: "r_state (settle_created E n inst st r) = r_state r"
  by (auto simp: settle_created_def case_prod_unfold Let_def split: option.splits)

lemma state_on_created [simp]: "r_state (on_created E n iid res r) = r_state r"
  by (auto simp: on_created_def Let_def split: option.splits sum.splits)

lemma state_hold_targets [simp]: "r_state (fst (hold_targets ts r)) = r_state r"
  by (induction ts r rule: hold_targets.induct) (auto simp: Let_def case_prod_unfold)

lemma state_step_checkpoint [simp]: "r_state (take_step_checkpoint F E r) = r_state r"
  by (auto simp: take_step_checkpoint_def split: option.splits sum.splits sink_answer.splits)

lemma state_commit [simp]: "r_state (commit_result F E n st ts r) = st"
  by (simp add: commit_result_def Let_def case_prod_unfold)

lemma state_step: "r_state (step F E m r) = (case committed F r m of None \<Rightarrow> r_state r | Some (st, _) \<Rightarrow> st)"
proof (cases "committed F r m")
  case (Some p)
  then show ?thesis using step_committed[of F r m "fst p" "snd p" E] by (auto simp: case_prod_unfold)
next
  case None
  then show ?thesis
    by (cases m) (auto simp: step_def on_ended_def result_step_def Let_def split: option.splits sum.splits
        event.splits event_end_error.splits comp.splits edge_error.splits if_splits)
qed

lemma target_busy:
  assumes c: "committed F r m = Some (st, ts)" and t: "Node t \<in> set ts" "slot_of r t \<noteq> None"
  shows "has_mark busy (step F E m r) t"
proof -
  obtain iid where eq: "step F E m r = commit_result F E (message_node m) st ts
      (tell E (EventHandled (message_node m) iid ObsResult)
        (upd_slot (message_node m) end_instance (read_token E r)))"
    using step_committed[OF c] by blast
  have "slot_of (tell E (EventHandled (message_node m) iid ObsResult)
        (upd_slot (message_node m) end_instance (read_token E r))) t \<noteq> None"
    using t(2) by auto
  then show ?thesis unfolding eq by (rule commit_target_busy[OF t(1)])
qed

section \<open>Undone work\<close>

text \<open>
  The message of a current instance that ends without a committed result and is no cancellation
  that was asked for: the executor records a failure.
\<close>

lemma fails_stops: "is_stopping (fail E f r)" "r_failures (fail E f r) = r_failures r @ [f]"
  by (auto simp: fail_def Let_def begin_stopping_def tick_def is_stopping_def)

lemma failures_quiet [simp]:
  "r_failures (tick r) = r_failures r" "r_failures (tell E ob r) = r_failures r"
  "r_failures (upd_slot n f r) = r_failures r" "r_failures (read_token E r) = r_failures r"
  by (simp_all add: tick_def tell_def upd_slot_def read_token_def begin_stopping_def)

lemma fail_node_undone:
  "slot_of r n \<noteq> None \<Longrightarrow> has_mark s_untaken (fail_node E n f r) n \<and> is_stopping (fail_node E n f r)
     \<and> (\<exists>f'. r_failures (fail_node E n f r) = r_failures r @ [f'])"
  by (auto simp: fail_node_def leave_untaken_def has_mark_upd fails_stops slot_ops has_mark_def)

section \<open>A concrete run\<close>

definition demo_uuids :: uuid_ops where
  "demo_uuids = \<lparr>version_num = (\<lambda>_. 7), is_rfc4122 = (\<lambda>_. True), show_uuid = (\<lambda>_. ''id'')\<rparr>"

definition demo_env :: "nat env" where
  "demo_env = \<lparr>host_at = None, uuids = demo_uuids, now_v7 = of_nat, node_acts = (\<lambda>_. []), sink = None,
     observer = True, grace = 5, clock = int, instant_max = 10 ^ 24\<rparr>"

definition demo_run :: "(nat, nat, unit) run" where
  "demo_run = upd_slot ''ask'' (become_running 1 core_new) (run_new (demo_graph ()) \<lparr>fields_of = 4, limit_of = 9, size_of = 1\<rparr>)"

lemma demo_run_slot: "slot_of demo_run ''ask'' = Some
    \<lparr>s_node = demo_node ''ask'' (), s_kind = ''k'', s_subkind = ''s'', s_live = Running 1 core_new,
     s_held = False, s_untaken = False\<rparr>" "slot_of demo_run ''tell'' = Some (slot_new (demo_node ''tell'' ()) ''k'' ''s'')"
  by code_simp+

lemma demo_run_busy: "has_mark busy demo_run ''ask''"
  by (simp add: has_mark_def demo_run_slot busy_def is_idle_def is_live_def presence_of_def)

lemma demo_commits: "committed nat_fields demo_run (EndedMsg ''ask'' 1 (Inr (EvResult 3))) =
    Some (\<lparr>fields_of = 7, limit_of = 9, size_of = 1\<rparr>, [Node ''tell''])"
  by code_simp

section \<open>Properties of a step\<close>

text \<open>
  C9: no work is lost in a step: a node with a live instance, a held or an untaken input stays out
  of idle whatever message is handled, unless the message is the result of its own instance, that
  result was committed (update applied, edge evaluated) and its targets do not name the node again.
\<close>

theorem step_keeps_work:
  assumes "has_mark busy r n"
  shows "has_mark busy (step F E m r) n \<or>
    (n = message_node m \<and> (\<exists>st ts. committed F r m = Some (st, ts) \<and> Node n \<notin> set ts))"
proof (cases "committed F r m")
  case None
  then have "keeps busy UNIV r (step F E m r)" by (intro work.keeps_step) simp_all
  then show ?thesis using assms by (simp add: keeps_def)
next
  case (Some p)
  obtain st ts where c: "committed F r m = Some (st, ts)" using Some by (cases p) auto
  show ?thesis
  proof (cases "n = message_node m \<and> Node n \<in> set ts")
    case False
    have "keeps busy (- {message_node m}) r (step F E m r)"
      using c by (intro work.keeps_step_commit[OF _ c] keeps_upd_other) simp
    then show ?thesis using assms c False by (auto simp: keeps_def)
  next
    case True
    then have "Node n \<in> set ts" "slot_of r n \<noteq> None" using c by (auto elim: committed_SomeE)
    then have "has_mark busy (step F E m r) n" by (rule target_busy[OF c])
    then show ?thesis by blast
  qed
qed

theorem step_keeps_work_witness:
  "has_mark busy (step nat_fields demo_env (EndedMsg ''tell'' 4 (Inl EndVanished)) demo_run) ''ask''"
  using step_keeps_work[OF demo_run_busy, of nat_fields demo_env "EndedMsg ''tell'' 4 (Inl EndVanished)"] by simp

text \<open>
  C10: a result is all or nothing: when its update applies and its edge evaluates, the run takes the
  new state and every target has work; in every other case the state of the run is unchanged.
\<close>

theorem step_commits_or_not:
  "case committed F r m of
     Some (st, ts) \<Rightarrow> r_state (step F E m r) = st \<and>
       (\<forall>t. Node t \<in> set ts \<and> slot_of r t \<noteq> None \<longrightarrow> has_mark busy (step F E m r) t)
   | None \<Rightarrow> r_state (step F E m r) = r_state r"
proof (cases "committed F r m")
  case None
  then show ?thesis by (simp add: state_step)
next
  case (Some p)
  then have "committed F r m = Some (fst p, snd p)" by simp
  from target_busy[OF this] Some show ?thesis by (simp add: state_step case_prod_unfold)
qed

theorem step_commits_or_not_witness:
  "has_mark busy (step nat_fields demo_env (EndedMsg ''ask'' 1 (Inr (EvResult 3))) demo_run) ''tell''"
  using step_commits_or_not[of nat_fields demo_env "EndedMsg ''ask'' 1 (Inr (EvResult 3))" demo_run]
  unfolding demo_commits by (simp add: demo_run_slot)

text \<open>
  C11: once the run stops it starts nothing: whatever message is handled, no instance is created,
  every held input stays held, and the run keeps stopping for the same reason and deadline.
\<close>

theorem stopping_starts_nothing:
  assumes "is_stopping r"
  shows "r_spawned (step F E m r) = r_spawned r \<and> r_phase (step F E m r) = r_phase r
    \<and> (\<forall>n. has_mark s_held r n \<longrightarrow> has_mark s_held (step F E m r) n)"
proof -
  have "keeps s_held UNIV r (step F E m r)" using assms by (intro held.lasting_step) simp
  then show ?thesis
    using assms runs_to_step[of E r F m] by (auto simp: runs_to_def keeps_def)
qed

theorem stopping_starts_nothing_witness:
  "r_spawned (step nat_fields demo_env (EndedMsg ''ask'' 1 (Inr (EvResult 3)))
     (begin_stopping demo_env ByHost demo_run)) = []"
proof -
  have "r_spawned (begin_stopping demo_env ByHost demo_run) = []"
    by (simp add: begin_stopping_def demo_run_def upd_slot_def run_new_def Let_def)
  then show ?thesis
    using stopping_starts_nothing[of "begin_stopping demo_env ByHost demo_run" nat_fields demo_env
        "EndedMsg ''ask'' 1 (Inr (EvResult 3))"] by simp
qed

text \<open>
  a failure is a stop, and its input is not lost: when the current instance of a node ends in
  any way that commits nothing, its node is left untaken; and unless it is a cancellation the token
  asked for, one failure is recorded and the run stops.
\<close>

theorem undone_result_stops:
  assumes cur: "message_current r (EndedMsg n iid res)" and none: "committed F r (EndedMsg n iid res) = None"
  shows "has_mark s_untaken (step F E (EndedMsg n iid res) r) n \<and>
    (res = Inr EvCancelled \<and> token_triggered E (read_token E r) \<or>
     is_stopping (step F E (EndedMsg n iid res) r) \<and>
     (\<exists>f. r_failures (step F E (EndedMsg n iid res) r) = r_failures r @ [f]))"
proof -
  define q where "q = read_token E r"
  obtain s where s: "slot_of q n = Some s" "running_id s = Some iid"
    using cur by (auto simp: q_def split: option.splits)
  have none': "committed F q (EndedMsg n iid res) = None" using none by (simp add: q_def)
  have tok: "token_triggered E (tell E ob (upd_slot n f q)) = token_triggered E q" for ob f
    by (cases "host_at E") (simp_all add: token_triggered_def tell_def upd_slot_def)
  note undone = fail_node_undone[of "tell E ob (upd_slot n end_instance q)" n E for ob]
    fail_node_undone[of "upd_slot n end_instance q" n E]
    fail_node_undone[of "tick (tell E ob (upd_slot n end_instance q))" n E for ob]
  have "has_mark s_untaken (on_ended F E n iid res q) n \<and>
    (res = Inr EvCancelled \<and> token_triggered E q \<or>
     is_stopping (on_ended F E n iid res q) \<and> (\<exists>f. r_failures (on_ended F E n iid res q) = r_failures q @ [f]))"
    using s none' undone tok unfolding on_ended_def result_step_def Let_def
    by (auto simp: leave_untaken_def has_mark_upd has_mark_def slot_ops split: sum.splits event.splits
        event_end_error.splits comp.splits edge_error.splits)
  then show ?thesis by (simp add: step_def q_def)
qed

theorem undone_result_stops_witness:
  "is_stopping (step nat_fields demo_env (EndedMsg ''ask'' 1 (Inr (EvResult 2))) demo_run)"
proof -
  have "committed nat_fields demo_run (EndedMsg ''ask'' 1 (Inr (EvResult 2))) = None" by code_simp
  moreover have "message_current demo_run (EndedMsg ''ask'' 1 (Inr (EvResult 2)))"
    by (simp add: demo_run_slot running_id_def)
  ultimately show ?thesis using undone_result_stops[of demo_run "''ask''" 1] by blast
qed

text \<open>
  a message of an instance that is not the current one of its node (it was dropped, replaced or
  already ended) changes nothing but that the token is read.
\<close>

theorem stale_message_ignored:
  assumes "\<not> message_current r m"
  shows "step F E m r = read_token E r"
  using assms by (cases m) (auto simp: step_def on_created_def on_ended_def split: option.splits)

theorem stale_message_ignored_witness:
  "step nat_fields demo_env (EndedMsg ''ask'' 2 (Inr (EvResult 3))) demo_run = read_token demo_env demo_run"
  by (rule stale_message_ignored) (simp add: demo_run_slot running_id_def)

end
