(* ===== verification/Exec_Loop.thy ===== *)
theory Exec_Loop
  imports Exec_Work
begin

text \<open>
  Whole runs: the states a run reaches (\<open>reached\<close>, by rule induction), what holds in all of them,
  and what the loop gives back.
\<close>

section \<open>Reached states\<close>

inductive reached ::
  "('f, 'u) fields_ops \<Rightarrow> 'u env \<Rightarrow> ('f, 'i) graph \<Rightarrow> 'f state \<Rightarrow> ('f, 'u, 'i) run \<Rightarrow> bool"
  for F E g s where
  new: "reached F E g s (run_new g s)"
| held: "reached F E g s r \<Longrightarrow> reached F E g s (upd_slot n hold r)"
| ticked: "reached F E g s r \<Longrightarrow> reached F E g s (tick r)"
| token: "reached F E g s r \<Longrightarrow> reached F E g s (read_token E r)"
| handed: "reached F E g s r \<Longrightarrow> reached F E g s (hand_over E ns r)"
| message: "reached F E g s r \<Longrightarrow> reached F E g s (step F E m r)"
| abandoned: "reached F E g s r \<Longrightarrow> reached F E g s (abandon_all_live r)"
| told: "reached F E g s r \<Longrightarrow> reached F E g s (tell E (ObsOutcome k) r)"

lemma conclude_run: "\<exists>k. snd (conclude F E og r) = tell E (ObsOutcome k) r"
  by (auto simp: conclude_def Let_def case_prod_unfold)

text \<open>What a driven run is, and how it concluded: its loop ended idle or stopping.\<close>

fun driven_run :: "('f, 'u, 'i) driven \<Rightarrow> ('f, 'u, 'i) run" where
  "driven_run (Concluded out r) = r"
| "driven_run (Waiting r) = r"

definition concluded_from ::
  "('f, 'u) fields_ops \<Rightarrow> 'u env \<Rightarrow> ('f, 'i) graph \<Rightarrow> 'f state \<Rightarrow> checkpoint option \<Rightarrow> ('f, 'u, 'i) driven \<Rightarrow> bool" where
  "concluded_from F E g s og d \<longleftrightarrow> (case d of Waiting r \<Rightarrow> reached F E g s r
     | Concluded out r \<Rightarrow> \<exists>r0 st. (st = None \<or> st = og) \<and> reached F E g s r0 \<and> (out, r) = conclude F E st r0
         \<and> (all_idle r0 \<or> is_stopping r0))"

lemma stopping_abandon [simp]: "is_stopping (abandon_all_live r) = is_stopping r"
  by (simp add: is_stopping_def abandon_all_live_def)

lemma loop_head_reached:
  "reached F E g s r \<Longrightarrow> concluded_from F E g s None (loop_head F E r)"
proof -
  assume r: "reached F E g s r"
  define q where "q = read_token E r"
  have q: "reached F E g s q" "reached F E g s (abandon_all_live q)"
    using r by (auto simp: q_def intro: reached.intros)
  show ?thesis
    unfolding loop_head_def concluded_from_def Let_def q_def[symmetric] concluded_def
    using q by (cases "all_idle q"; cases "is_stopping q")
      (force intro: exI[of _ q] exI[of _ "abandon_all_live q"])+
qed

declare drive_loop.simps [simp del]

lemma drive_loop_reached:
  "reached F E g s r \<Longrightarrow> concluded_from F E g s None (drive_loop F E r wakes)"
proof (induction F E r wakes rule: drive_loop.induct)
  case (1 F E r wakes)
  note head = loop_head_reached[OF "1.prems"]
  show ?case
  proof (cases "loop_head F E r")
    case (Concluded out r')
    then show ?thesis using head by (simp add: drive_loop.simps[of F E r])
  next
    case (Waiting r1)
    then have r1: "reached F E g s r1" using head by (simp add: concluded_from_def)
    note IH = "1.IH"[OF Waiting]
    have dl: "concluded_from F E g s None (concluded (conclude F E None (abandon_all_live r1)))" if "is_stopping r1"
      using that r1 by (auto simp: concluded_from_def concluded_def intro!: exI[of _ "abandon_all_live r1"] reached.intros)
    have w: "concluded_from F E g s None (Waiting r1)" using r1 by (simp add: concluded_from_def)
    show ?thesis
      unfolding drive_loop.simps[of F E r] Waiting
      using IH dl w reached.token[OF reached.ticked[OF r1]] reached.message[OF r1] reached.ticked[OF r1]
        reached.message[OF reached.ticked[OF r1]]
      by (auto simp: r1 split: list.splits wake.splits)
  qed
qed

lemma drive_reached:
  "concluded_from F E g s (into_checkpoint og) (drive F E (run_new g s) og wakes)"
proof -
  have "reached F E g s (foldl (\<lambda>r name. upd_slot name hold r) r ns)" if "reached F E g s r" for r ns
    using that by (induction ns arbitrary: r) (auto intro: reached.intros)
  then have "reached F E g s (foldl (\<lambda>r name. upd_slot name hold r) (run_new g s) (held_names og))"
    by (simp add: reached.new)
  then have r1: "reached F E g s (read_token E (foldl (\<lambda>r name. upd_slot name hold r) (run_new g s) (held_names og)))"
    by (rule reached.token)
  have "concluded_from F E g s (into_checkpoint og) d" if "concluded_from F E g s None d" for d
    using that by (auto simp: concluded_from_def split: driven.splits)
  with drive_loop_reached[OF reached.handed[OF r1]] show ?thesis
    using r1 by (auto simp: drive_def Let_def) (auto simp: concluded_from_def concluded_def)
qed

section \<open>Invariants\<close>

lemma names_of_slots:
  "\<forall>d \<in> set ds. g_nodes g (node_name d) \<noteq> None \<Longrightarrow>
   map fst (List.map_filter (\<lambda>d. case g_nodes g (node_name d) of None \<Rightarrow> None
       | Some n \<Rightarrow> Some (node_name d, slot_new n (node_kind d) (node_subkind d))) ds) = map node_name ds"
  by (induction ds) (auto simp: map_filter_simps)

lemma set_keys_sort: "set (map f (sort_key g xs)) = set (map f xs)"
  by simp

lemma keys_run_new:
  assumes "graph_ok g"
  shows "set (map fst (r_slots (run_new g s))) = dom (g_nodes g)" "distinct (map fst (r_slots (run_new g s)))"
proof -
  have a: "\<forall>d \<in> set (nodes (g_structure g)). g_nodes g (node_name d) \<noteq> None"
    using assms by (auto simp: graph_ok_def node_names_def)
  have d: "distinct (map node_name (nodes (g_structure g)))" "dom (g_nodes g) = set (map node_name (nodes (g_structure g)))"
    using assms by (auto simp: graph_ok_def node_names_def[symmetric] dest: valid_shapeD)
  show "set (map fst (r_slots (run_new g s))) = dom (g_nodes g)"
    by (simp only: run_new_def Let_def run.simps set_keys_sort names_of_slots[OF a] d(2))
  show "distinct (map fst (r_slots (run_new g s)))"
    by (simp only: run_new_def Let_def run.simps distinct_map_sort_key names_of_slots[OF a] d(1))
qed

text \<open>The step relation \<open>runs_to\<close> holds between the new run and every state it reaches.\<close>

lemma reached_runs_to: "reached F E g s r \<Longrightarrow> runs_to E (run_new g s) r"
  by (induction rule: reached.induct) (auto intro: runs_to_trans run_steps)

lemma reached_phase_ok: "reached F E g s r \<Longrightarrow> phase_ok E r"
proof -
  have "phase_ok E (run_new g s)" by (simp add: phase_ok_def run_new_def Let_def)
  then show "reached F E g s r \<Longrightarrow> phase_ok E r" by (auto dest!: reached_runs_to simp: runs_to_def)
qed

lemma run_new_simps [simp]:
  "r_graph (run_new g s) = g" "r_structure (run_new g s) = g_structure g" "r_state (run_new g s) = s"
  "r_phase (run_new g s) = PhaseRunning" "r_fired (run_new g s) = False" "r_failures (run_new g s) = []"
  "r_log (run_new g s) = []" "r_spawned (run_new g s) = []" "r_tick (run_new g s) = 0"
  by (simp_all add: run_new_def Let_def)

lemma reached_fixed: "reached F E g s r \<Longrightarrow> r_graph r = g \<and> r_structure r = g_structure g"
  by (drule reached_runs_to) (simp add: runs_to_def)

lemma reached_names:
  "reached F E g s r \<Longrightarrow> graph_ok g \<Longrightarrow>
     set (map fst (r_slots r)) = dom (g_nodes g) \<and> distinct (map fst (r_slots r))"
  by (drule reached_runs_to) (simp add: runs_to_def keys_run_new del: set_map)

lemma committed_built:
  "built_state F (r_state r) \<Longrightarrow> committed F r m = Some (st, ts) \<Longrightarrow>
     built_state F st \<and> limit_of st = limit_of (r_state r)"
  by (elim committed_SomeE) (auto intro: built_state.intros simp: apply_update_Ret_iff)

lemma reached_state:
  assumes "reached F E g s r" "built_state F s"
  shows "built_state F (r_state r) \<and> limit_of (r_state r) = limit_of s"
  using assms
proof (induction rule: reached.induct)
  case (message r m)
  then show ?case using committed_built[of F r m] by (auto simp: state_step split: option.splits)
qed (simp_all add: run_new_def Let_def)

section \<open>The outcome\<close>

fun outcome_checkpoint_of :: "'f outcome \<Rightarrow> checkpoint option" where
  "outcome_checkpoint_of (RunEnded s) = None"
| "outcome_checkpoint_of (RunFailed fs cp) = Some cp"
| "outcome_checkpoint_of (RunCancelled fs cp) = Some cp"

text \<open>What an outcome says of the run it concludes, whose last state is \<open>r\<close>.\<close>

fun outcome_true :: "'u env \<Rightarrow> 'f outcome \<Rightarrow> ('f, 'u, 'i) run \<Rightarrow> bool" where
  "outcome_true E (RunEnded s) r = (all_idle r \<and> r_failures r = [] \<and> s = r_state r)"
| "outcome_true E (RunFailed fs cp) r =
     (r_fired r \<and> r_failures r \<noteq> [] \<and> (\<exists>gs. fs = r_failures r @ gs))"
| "outcome_true E (RunCancelled fs cp) r =
     (\<not> r_fired r \<and> (\<exists>t. host_at E = Some t \<and> t \<le> r_tick r) \<and> (\<exists>gs. fs = r_failures r @ gs))"

lemma tell_run [simp]:
  "r_failures (tell E k r) = r_failures r" "r_fired (tell E k r) = r_fired r" "r_tick (tell E k r) = r_tick r"
  "all_idle (tell E k r) = all_idle r" "r_structure (tell E k r) = r_structure r"
  "non_idle_names (tell E k r) = non_idle_names r" "r_slots (tell E k r) = r_slots r"
  by (simp_all add: tell_def all_idle_def non_idle_names_def)

lemma conclude_true:
  assumes "phase_ok E r" "all_idle r \<or> is_stopping r" "conclude F E og r = (out, r')"
  shows "outcome_true E out r'"
proof (cases "all_idle r \<and> r_failures r = []")
  case True
  then show ?thesis using assms(3) by (auto simp: conclude_def)
next
  case False
  then have "is_stopping r" using assms(1,2) by (auto simp: phase_ok_def is_stopping_def split: phase.splits)
  then obtain d tr where "r_phase r = PhaseStopping d tr" by (auto simp: is_stopping_def split: phase.splits)
  then show ?thesis
    using assms(1,3) False
    by (cases tr) (auto simp: conclude_def Let_def case_prod_unfold stopped_by_executor_def phase_ok_def)
qed

lemma conclude_checkpoint:
  assumes "conclude F E None r = (out, r')" "outcome_checkpoint_of out = Some cp"
  shows "cp = fst (outcome_checkpoint F r)" "r_state r' = r_state r" "non_idle_names r' = non_idle_names r"
  using assms by (auto simp: conclude_def Let_def case_prod_unfold split: if_splits)

lemma names_run:
  "distinct (map fst (r_slots r)) \<Longrightarrow> distinct (non_idle_names r)"
  "set (non_idle_names r) \<subseteq> set (map fst (r_slots r))"
  unfolding non_idle_names_def by (auto simp: distinct_map_filter)

lemma all_idle_iff: "all_idle r \<longleftrightarrow> non_idle_names r = []"
  by (auto simp: all_idle_def non_idle_names_def filter_empty_conv list_all_iff)

section \<open>Observations\<close>

text \<open>
  What must come before an observation: an instance is created before it is given an input or its
  event is handled; an update is applied right after its result, an edge evaluated right after.
\<close>

definition created_in :: "string \<Rightarrow> instance_id \<Rightarrow> observation list \<Rightarrow> bool" where
  "created_in n iid log = list_ex (\<lambda>ob. case ob of InstanceCreated i m _ _ \<Rightarrow> i = iid \<and> m = n | _ \<Rightarrow> False) log"

fun ok_after :: "observation list \<Rightarrow> observation \<Rightarrow> bool" where
  "ok_after log (InputHandedOver n iid) = created_in n iid log"
| "ok_after log (EventHandled n iid e) = created_in n iid log"
| "ok_after log (UpdateApplied n) = (log \<noteq> [] \<and> (case last log of
     EventHandled m iid ObsResult \<Rightarrow> m = n | _ \<Rightarrow> False))"
| "ok_after log (EdgeEvaluated n ts) = (log \<noteq> [] \<and> last log = UpdateApplied n)"
| "ok_after log ob = True"

definition log_ok :: "observation list \<Rightarrow> bool" where
  "log_ok log = (\<forall>i < length log. ok_after (take i log) (log ! i))"

lemma log_ok_Nil [simp]: "log_ok []"
  by (simp add: log_ok_def)

lemma log_ok_snoc: "log_ok (log @ [ob]) \<longleftrightarrow> log_ok log \<and> ok_after log ob"
  by (auto simp: log_ok_def less_Suc_eq nth_append)

definition log_inv :: "'u env \<Rightarrow> ('f, 'u, 'i) run \<Rightarrow> bool" where
  "log_inv E r \<longleftrightarrow> log_ok (r_log r) \<and> (observer E \<longrightarrow> (\<forall>n s iid.
     slot_of r n = Some s \<and> running_id s = Some iid \<longrightarrow> created_in n iid (r_log r)))"

lemma created_in_append [simp]: "created_in n iid (log @ obs) = (created_in n iid log \<or> created_in n iid obs)"
  by (simp add: created_in_def)

lemma log_simps [simp]:
  "r_log (tick r) = r_log r" "r_log (upd_slot n f r) = r_log r" "r_log (read_token E r) = r_log r"
  "r_log (fail E rf r) = r_log r" "r_log (r\<lparr>r_state := st\<rparr>) = r_log r" "r_log (leave_untaken n r) = r_log r"
  "r_log (r\<lparr>r_spawned := sp\<rparr>) = r_log r" "r_log (abandon_all_live r) = r_log r"
  by (simp_all add: tick_def upd_slot_def read_token_def fail_def begin_stopping_def Let_def
      leave_untaken_def abandon_all_live_def)

lemma log_inv_quiet [simp]:
  "log_inv E (tick r) = log_inv E r" "log_inv E (read_token E' r) = log_inv E r"
  "log_inv E (fail E' rf r) = log_inv E r" "log_inv E (r\<lparr>r_state := st\<rparr>) = log_inv E r"
  "log_inv E (r\<lparr>r_spawned := sp\<rparr>) = log_inv E r"
  by (simp_all add: log_inv_def)

lemma running_simps [simp]:
  "running_id (hold s) = running_id s" "running_id (release s) = running_id s"
  "running_id (slot_untaken s) = running_id s" "running_id (end_instance s) = None"
  "running_id (begin_creating iid st s) = None" "running_id (become_running iid c s) = Some iid"
  "running_id (abandon s) = None"
  by (simp_all add: running_id_def slot_ops)

lemma log_inv_upd:
  "log_inv E r \<Longrightarrow> (\<And>s. running_id (f s) = running_id s \<or> running_id (f s) = None) \<Longrightarrow> log_inv E (upd_slot n f r)"
proof -
  assume inv: "log_inv E r" and f: "\<And>s. running_id (f s) = running_id s \<or> running_id (f s) = None"
  have "created_in m iid (r_log r)"
    if "observer E" "slot_of (upd_slot n f r) m = Some s" "running_id s = Some iid" for m s iid
  proof -
    from that(2) obtain s0 where s0: "slot_of r m = Some s0" "s = s0 \<or> s = f s0" by (auto split: if_splits)
    then have "running_id s0 = Some iid" using f[of s0] that(3) by auto
    with s0(1) inv that(1) show ?thesis unfolding log_inv_def by blast
  qed
  with inv show "log_inv E (upd_slot n f r)" unfolding log_inv_def by simp
qed

lemma log_inv_run:
  "log_inv E r \<Longrightarrow> slot_of r n = Some s \<Longrightarrow> running_id s = Some iid \<Longrightarrow> log_inv E (upd_slot n (become_running iid c) r)"
  by (auto simp: log_inv_def split: if_splits)

lemma log_inv_tell:
  "log_inv E r \<Longrightarrow> (observer E \<Longrightarrow> ok_after (r_log r) ob) \<Longrightarrow> log_inv E (tell E ob r)"
  by (auto simp: log_inv_def tell_def log_ok_snoc slot_of_def)

lemma slot_of_log [simp]: "slot_of (r\<lparr>r_log := l\<rparr>) m = slot_of r m"
  by (simp add: slot_of_def)

lemma log_inv_created:
  "log_inv E r \<Longrightarrow> log_inv E (tell E (InstanceCreated iid n k s) (upd_slot n (become_running iid c) r))"
  by (auto simp: log_inv_def tell_def log_ok_snoc created_in_def split: if_splits)

lemma log_inv_fail_node: "log_inv E r \<Longrightarrow> log_inv E (fail_node E' n rf r)"
  by (simp add: fail_node_def leave_untaken_def log_inv_upd)

lemma log_inv_give_input: "log_inv E r \<Longrightarrow> log_inv E (fst (give_input E n st r))"
proof -
  assume inv: "log_inv E r"
  have "log_inv E (upd_slot n (become_running iid c) r) \<and>
      log_inv E (tell E (InputHandedOver n iid) (tick (upd_slot n (become_running iid c) r)))"
    if "slot_of r n = Some s" "s_live s = Running iid c0" for s iid c0 c
  proof -
    have "running_id s = Some iid" using that(2) by (simp add: running_id_def)
    then have a: "log_inv E (upd_slot n (become_running iid c) r)" by (rule log_inv_run[OF inv that(1)])
    moreover have "observer E \<Longrightarrow> created_in n iid (r_log r)"
      using inv that(1) \<open>running_id s = Some iid\<close> by (auto simp: log_inv_def)
    ultimately show ?thesis by (intro conjI log_inv_tell) simp_all
  qed
  with inv show ?thesis
    by (auto simp: give_input_def case_prod_unfold Let_def split: option.splits live.splits)
qed

lemma log_inv_give_held: "log_inv E r \<Longrightarrow> log_inv E (give_held E n r)"
  using log_inv_give_input[of E r n "r_state r"]
  by (auto simp: give_held_def case_prod_unfold intro!: log_inv_upd)

lemma log_inv_hand_to: "log_inv E r \<Longrightarrow> log_inv E (hand_to E n r)"
  by (auto simp: hand_to_def begin_creation_def creation_impossible_def
      split: option.splits presence.splits sum.splits intro!: log_inv_give_held log_inv_fail_node log_inv_upd)

lemma log_inv_hand_loop: "log_inv E r \<Longrightarrow> log_inv E (hand_loop E ns r)"
  by (induction ns arbitrary: r) (auto intro: log_inv_hand_to)

lemma log_inv_hand_over: "log_inv E r \<Longrightarrow> log_inv E (hand_over E ns r)"
  by (simp add: hand_over_def log_inv_hand_loop)

lemma log_inv_settle_created: "log_inv E r \<Longrightarrow> log_inv E (settle_created E n inst st r)"
  unfolding settle_created_def case_prod_unfold Let_def
  by (auto split: option.splits intro!: log_inv_give_held log_inv_upd log_inv_give_input log_inv_created)

lemma log_inv_on_created: "log_inv E r \<Longrightarrow> log_inv E (on_created E n iid res r)"
  unfolding on_created_def Let_def
  by (auto split: option.splits sum.splits intro!: log_inv_settle_created log_inv_fail_node log_inv_upd)

lemma log_inv_hold_targets: "log_inv E r \<Longrightarrow> log_inv E (fst (hold_targets ts r))"
  by (induction ts r rule: hold_targets.induct) (simp_all add: Let_def case_prod_unfold log_inv_upd)

lemma log_inv_step_checkpoint: "log_inv E r \<Longrightarrow> log_inv E (take_step_checkpoint F E r)"
  by (auto simp: take_step_checkpoint_def split: option.splits sum.splits sink_answer.splits)

lemma log_inv_commit:
  assumes "log_inv E r" "observer E \<Longrightarrow> r_log r \<noteq> [] \<and> last (r_log r) = EventHandled n iid ObsResult"
  shows "log_inv E (commit_result F E n st ts r)"
proof -
  define r1 where "r1 = tell E (EdgeEvaluated n ts) (tell E (UpdateApplied n) (r\<lparr>r_state := st\<rparr>))"
  have "log_inv E (tell E (UpdateApplied n) (r\<lparr>r_state := st\<rparr>))"
    by (rule log_inv_tell) (use assms in auto)
  then have 1: "log_inv E r1" unfolding r1_def by (rule log_inv_tell) (simp add: tell_def)
  show ?thesis
    unfolding commit_result_def Let_def case_prod_unfold r1_def[symmetric]
    by (auto intro!: log_inv_hand_over log_inv_step_checkpoint log_inv_hold_targets 1)
qed

lemma log_inv_on_ended: "log_inv E r \<Longrightarrow> log_inv E (on_ended F E n iid res r)"
proof (cases "\<exists>s. slot_of r n = Some s \<and> running_id s = Some iid")
  case False
  then show "log_inv E r \<Longrightarrow> ?thesis" by (auto simp: on_ended_def split: option.splits)
next
  case True
  assume inv: "log_inv E r"
  have c: "observer E \<Longrightarrow> created_in n iid (r_log r)" using inv True by (auto simp: log_inv_def)
  have 1: "log_inv E (upd_slot n end_instance r)" by (rule log_inv_upd[OF inv]) simp
  have 2: "log_inv E (tell E (EventHandled n iid e) (upd_slot n end_instance r))" for e
    by (rule log_inv_tell[OF 1]) (simp add: c)
  have 3: "log_inv E (result_step F E n u (tell E (EventHandled n iid ObsResult) (upd_slot n end_instance r)))" for u
    using 2 by (auto simp: result_step_def split: comp.splits edge_error.splits
        intro!: log_inv_fail_node log_inv_commit[where iid = iid]) (auto simp: tell_def)
  show ?thesis
    using 1 2 3 inv unfolding on_ended_def Let_def leave_untaken_def
    by (auto split: option.splits sum.splits event.splits event_end_error.splits intro!: log_inv_fail_node log_inv_upd)
qed

lemma log_inv_abandon: "log_inv E r \<Longrightarrow> log_inv E (abandon_all_live r)"
proof -
  have "slot_of (abandon_all_live r) n = map_option (\<lambda>s. if is_live s then abandon s else s) (slot_of r n)" for n
    using map_of_map_key[of "\<lambda>_ s. if is_live s then abandon s else s" "r_slots r" n]
    by (simp add: slot_of_def abandon_all_live_def)
  then show "log_inv E r \<Longrightarrow> ?thesis" by (auto simp: log_inv_def split: if_splits)
qed

lemma reached_log_inv: "reached F E g s r \<Longrightarrow> log_inv E r"
proof (induction rule: reached.induct)
  case new
  have "s_live (snd p) = Absent" if "p \<in> set (r_slots (run_new g s))" for p
    using that by (auto simp: run_new_def Let_def in_set_map_filter slot_new_def split: option.splits)
  then have "running_id sl = None" if "slot_of (run_new g s) n = Some sl" for n sl
    using map_of_SomeD[of "r_slots (run_new g s)" n sl] that by (fastforce simp: slot_of_def running_id_def)
  then show ?case by (fastforce simp: log_inv_def)
qed (auto simp: step_def Let_def split: message.splits intro: log_inv_upd log_inv_hand_over log_inv_on_created
    log_inv_on_ended log_inv_abandon log_inv_tell)

section \<open>Concluding\<close>

lemma loop_head_stopping:
  "is_stopping r \<Longrightarrow> (\<exists>out r'. loop_head F E r = Concluded out r') \<or> (loop_head F E r = Waiting r \<and> grace E \<noteq> 0)"
  by (auto simp: loop_head_def concluded_def read_token_def Let_def)

lemma concluded_Concluded [simp]: "\<exists>out r'. concluded res = Concluded out r'"
  by (simp add: concluded_def)

lemma drive_loop_stopping:
  "is_stopping r \<Longrightarrow> Deadline \<in> set wakes \<or> grace E = 0 \<Longrightarrow> \<exists>out r'. drive_loop F E r wakes = Concluded out r'"
proof (induction wakes arbitrary: r)
  case Nil
  then show ?case using loop_head_stopping[of r F E] by (auto simp: drive_loop.simps[of F E r])
next
  case (Cons w ws)
  show ?case
  proof (cases "loop_head F E r = Waiting r \<and> grace E \<noteq> 0")
    case True
    have step: "is_stopping (step F E m r)" for m
      using runs_to_stopping[OF runs_to_step] Cons.prems(1) by blast
    show ?thesis
      using True Cons.prems Cons.IH step
      unfolding drive_loop.simps[of F E r "w # ws"]
      by (cases w) auto
  next
    case False
    then show ?thesis using loop_head_stopping[of r F E] Cons.prems(1) by (auto simp: drive_loop.simps[of F E r])
  qed
qed

section \<open>Concrete runs\<close>

definition demo_start :: "(nat, nat) wake list \<Rightarrow> start_error + (nat, nat, unit) driven" where
  "demo_start wakes = start nat_fields demo_env (demo_graph ()) \<lparr>fields_of = 4, limit_of = 9, size_of = 1\<rparr> [''ask''] wakes"

definition demo_wakes :: "nat event \<Rightarrow> (nat, nat) wake list" where
  "demo_wakes e = [Message (Created ''ask'' 1 (Inr (1, core_new))), Message (EndedMsg ''ask'' 1 (Inr e)), Deadline]"

lemma demo_ended: "case demo_start (demo_wakes (EvResult 1)) of Inr (Concluded (RunEnded s) r) \<Rightarrow> fields_of s = 5 | _ \<Rightarrow> False"
  by code_simp

lemma demo_failed: "case demo_start (demo_wakes (EvRefused (Reason ''no''))) of
    Inr (Concluded (RunFailed [NodeRefusedInput n text] cp) r) \<Rightarrow> cp_nodes cp = [''ask''] \<and> fields_of (r_state r) = 4 | _ \<Rightarrow> False"
  by code_simp

section \<open>Properties of whole runs\<close>

text \<open>
  C7: an outcome tells the truth: a run ends only when every node is idle and no failure was
  recorded, with its last state; it fails only when the executor triggered the token because of a
  failure, which is listed; it is cancelled only when the host cancelled first.
\<close>

theorem start_outcome_true:
  assumes "start F E g s names wakes = Inr (Concluded out r)"
  shows "outcome_true E out r"
proof -
  have "drive F E (run_new g s) (Nodes names) wakes = Concluded out r"
    using assms by (auto simp: start_def bind_sum_Inr_iff)
  then obtain r0 where r0: "reached F E g s r0" "conclude F E None r0 = (out, r)" "all_idle r0 \<or> is_stopping r0"
    using drive_reached[of F E g s "Nodes names" wakes] by (auto simp: concluded_from_def into_checkpoint_def)
  show ?thesis by (rule conclude_true[OF reached_phase_ok[OF r0(1)] r0(3,2)])
qed

theorem start_outcome_true_witness:
  "\<exists>s r. demo_start (demo_wakes (EvResult 1)) = Inr (Concluded (RunEnded s) r) \<and> all_idle r \<and> s = r_state r"
proof -
  obtain s r where d: "demo_start (demo_wakes (EvResult 1)) = Inr (Concluded (RunEnded s) r)"
    using demo_ended by (auto split: sum.splits driven.splits outcome.splits)
  from start_outcome_true[OF d[unfolded demo_start_def]] d show ?thesis by auto
qed

text \<open>
  C8: what a run leaves behind can be taken up again: the checkpoint of a failed or cancelled run
  lists exactly the nodes that are not idle, and when it lists one, \<open>resume\<close> accepts it on the same
  graph and limit and rebuilds the state the run ended with. The hypotheses are the round trip of
  the fields and that the serializer writes UTF-8.
\<close>

theorem outcome_resumable:
  assumes "build b = Inr g" "built_state F s" "start F E g s names wakes = Inr (Concluded out r)"
    and "outcome_checkpoint_of out = Some cp"
    and "\<And>json. to_json F (r_state r) = Ret json \<Longrightarrow>
        from_utf8 json = Inr json \<and> de_slice F json = Ret (fields_of (r_state r))"
  shows "cp_nodes cp = non_idle_names r \<and>
    (cp_nodes cp \<noteq> [] \<longrightarrow> resume_checks F g cp (limit_of s) = Inr (r_state r))"
proof -
  have "drive F E (run_new g s) (Nodes names) wakes = Concluded out r"
    using assms(3) by (auto simp: start_def bind_sum_Inr_iff)
  then obtain r0 where r0: "reached F E g s r0" "conclude F E None r0 = (out, r)"
    using drive_reached[of F E g s "Nodes names" wakes] by (auto simp: concluded_from_def into_checkpoint_def)
  note c = conclude_checkpoint[OF r0(2) assms(4)]
  have st: "built_state F (r_state r)" "limit_of (r_state r) = limit_of s"
    using reached_state[OF r0(1) assms(2)] c(2) by simp_all
  obtain json where json: "to_json F (r_state r) = Ret json"
    using state_ok_to_json[OF built_state_ok[OF st(1)]] by blast
  have cp: "cp = \<lparr>cp_state = json, cp_structure = g_structure g, cp_nodes = non_idle_names r\<rparr>"
    using c assms(5)[OF json] json reached_fixed[OF r0(1)]
    by (auto simp: outcome_checkpoint_def Let_def checkpoint_build_def)
  have n: "distinct (non_idle_names r)" "set (non_idle_names r) \<subseteq> dom (g_nodes g)"
    using names_run[of r0] reached_names[OF r0(1) build_graph_ok[OF assms(1)]] c(3) by auto
  have "check_names g (non_idle_names r) = Inr ()" if "non_idle_names r \<noteq> []"
    using n that by (simp add: check_names_Inr_iff)
  moreover have "rebuild_with_limit F json (limit_of s) = Ret (r_state r)"
    using assms(5)[OF json] built_state_ok[OF st(1)] st(2) by (simp add: rebuild_with_limit_Ret_iff)
  ultimately show ?thesis
    by (simp add: cp resume_checks_def check_structure_same rebuild_state_def)
qed

theorem outcome_resumable_witness:
  "\<exists>fs cp r. demo_start (demo_wakes (EvRefused (Reason ''no''))) = Inr (Concluded (RunFailed fs cp) r) \<and>
     resume_checks nat_fields (demo_graph ()) cp 9 = Inr (r_state r)"
proof -
  obtain n t cp r where d: "demo_start (demo_wakes (EvRefused (Reason ''no''))) =
      Inr (Concluded (RunFailed [NodeRefusedInput n t] cp) r)"
    and r: "cp_nodes cp = [''ask'']" "fields_of (r_state r) = 4"
    using demo_failed by (auto split: sum.splits driven.splits outcome.splits list.splits run_failure.splits)
  have "show_nat 4 = ''4''" by code_simp
  then have b: "built_state nat_fields \<lparr>fields_of = 4, limit_of = 9, size_of = 1\<rparr>"
    by (intro built_state.created)
       (simp add: create_with_limit_Ret_iff state_ok_def nat_fields_def serialize_def usize_max_def)
  have j: "from_utf8 json = Inr json \<and> de_slice nat_fields json = Ret (fields_of (r_state r))"
    if "to_json nat_fields (r_state r) = Ret json" for json
  proof -
    have "json = ''4''" using that r(2) \<open>show_nat 4 = ''4''\<close> by (simp add: to_json_def serialize_def nat_fields_def)
    moreover have "from_utf8 ''4'' = Inr ''4''" "de_slice nat_fields ''4'' = Ret 4" by code_simp+
    ultimately show ?thesis using r(2) by simp
  qed
  have "outcome_checkpoint_of (RunFailed [NodeRefusedInput n t] cp) = Some cp" by simp
  from outcome_resumable[OF demo_build b d[unfolded demo_start_def] this j] d r(1) show ?thesis by auto
qed

text \<open>
  C12: a stopping run always concludes: once the token reads as triggered the loop gives an outcome
  as soon as its deadline comes, whatever messages come before it, and at once for a zero grace.
\<close>

theorem stopped_run_concludes:
  assumes "is_stopping r \<or> token_triggered E r" "Deadline \<in> set wakes \<or> grace E = 0"
  shows "\<exists>out r'. drive_loop F E r wakes = Concluded out r'"
proof (cases "is_stopping r")
  case True
  then show ?thesis using assms(2) by (rule drive_loop_stopping)
next
  case False
  then have "is_stopping (read_token E r)" using assms(1) by (simp add: read_token_stops)
  moreover have "loop_head F E r = loop_head F E (read_token E r)"
    using calculation by (simp add: loop_head_def read_token_def[of E "read_token E r"])
  then have "drive_loop F E r wakes = drive_loop F E (read_token E r) wakes"
    by (simp add: drive_loop.simps[of F E r] drive_loop.simps[of F E "read_token E r"])
  ultimately show ?thesis using drive_loop_stopping[of "read_token E r" wakes E F] assms(2) by simp
qed

theorem stopped_run_concludes_witness:
  "\<exists>out r'. drive_loop nat_fields demo_env (begin_stopping demo_env ByHost demo_run)
     [Message (EndedMsg ''ask'' 1 (Inl Finished)), Deadline] = Concluded out r'"
  by (rule stopped_run_concludes) simp_all

text \<open>
  the first stop decides: in every state a run reaches, a recorded failure means that the run
  is stopping; stopping by the executor means that a failure was recorded and the executor
  triggered the token; stopping by the host means that the host's cancellation was visible.
\<close>

theorem who_stopped:
  assumes "reached F E g s r"
  shows "case r_phase r of
     PhaseRunning \<Rightarrow> r_failures r = [] \<and> \<not> r_fired r
   | PhaseStopping d ByExecutor \<Rightarrow> r_failures r \<noteq> [] \<and> r_fired r
   | PhaseStopping d ByHost \<Rightarrow> \<not> r_fired r \<and> (\<exists>t. host_at E = Some t \<and> t \<le> r_tick r)"
  using reached_phase_ok[OF assms] by (simp add: phase_ok_def)

theorem who_stopped_witness:
  "\<not> r_fired (read_token (demo_env\<lparr>host_at := Some 0\<rparr>) (run_new (demo_graph ()) demo_state :: (nat, nat, unit) run))"
proof -
  define E where "E = demo_env\<lparr>host_at := Some 0\<rparr>"
  define r where "r = read_token E (run_new (demo_graph ()) demo_state :: (nat, nat, unit) run)"
  have "reached nat_fields E (demo_graph ()) demo_state r"
    unfolding r_def by (intro reached.token reached.new)
  note who_stopped[OF this]
  moreover have "\<exists>d. r_phase r = PhaseStopping d ByHost"
    by (simp add: r_def E_def read_token_def token_triggered_def is_stopping_def begin_stopping_def)
  ultimately show ?thesis by (auto simp: r_def E_def)
qed

text \<open>
  the observations come in a sensible order: in every state a run reaches, each hand-over and
  each event is of an instance whose creation was observed before, each applied update directly
  follows the result it comes from, and each edge evaluation directly follows its update.
\<close>

theorem observations_ordered:
  assumes "reached F E g s r"
  shows "log_ok (r_log r)"
  using reached_log_inv[OF assms] by (simp add: log_inv_def)

theorem observations_ordered_witness:
  "log_ok (r_log (hand_over demo_env [''ask''] (upd_slot ''ask'' hold (run_new (demo_graph ()) demo_state)) :: (nat, nat, unit) run))"
  by (rule observations_ordered[where F = nat_fields and E = demo_env and g = "demo_graph ()" and s = demo_state]) (intro reached.handed reached.held reached.new)

end
