(* ===== verification/Flow_Signals.thy ===== *)
theory Flow_Signals
  imports Exec_Run
begin

text \<open>
  What both nodes of \<open>br-flow-nodes\<close> share: waiting for an input, the cancellation or the drop
  (\<open>signals.rs\<close>), and ending with a terminal event (\<open>settle.rs\<close>). The instance runs as a task of its
  own on the core of \<open>Instance_Core\<close>. The other side (the executor and the host) may act between
  any two operations of the task: the acts come in batches, one batch before each operation, and
  a task that waits is polled again as long as batches are left.
\<close>

section \<open>The task and its outside\<close>

datatype 'i outer_act = ActGive 'i | ActDropInput | ActDropEvents | ActCancel

record ('i, 'e) task =
  t_core :: "('i, 'e) inner"
  t_cancelled :: bool
  t_acts :: "'i outer_act list list"
  t_waker :: waker
  t_read :: "'i list"

fun do_act :: "('i, 'e) task \<Rightarrow> 'i outer_act \<Rightarrow> ('i, 'e) task" where
  "do_act t (ActGive i) = t\<lparr>t_core := fst (give (t_core t) i)\<rparr>"
| "do_act t ActDropInput = t\<lparr>t_core := fst (input_end_dropped (t_core t))\<rparr>"
| "do_act t ActDropEvents = t\<lparr>t_core := fst (event_end_dropped (t_core t))\<rparr>"
| "do_act t ActCancel = t\<lparr>t_cancelled := True\<rparr>"

definition observe :: "('i, 'e) task \<Rightarrow> ('i, 'e) task" where
  "observe t = (case t_acts t of
     [] \<Rightarrow> t
   | batch # rest \<Rightarrow> (foldl do_act t batch)\<lparr>t_acts := rest\<rparr>)"

section \<open>Signals\<close>

datatype 'i awaited = Input 'i | AwCancelled | Gone

text \<open>One poll of the biased select: the drop, then the cancellation, then the next input.\<close>

definition poll_input :: "('i, 'e) task \<Rightarrow> ('i, 'e) task \<times> 'i awaited poll" where
  "poll_input t = (let t = observe t in
     if is_dropped (t_core t) then (t, Ready Gone)
     else let t = observe t in
       if t_cancelled t then (t, Ready AwCancelled)
       else let t = observe t in
         (case poll_next (t_core t) (t_waker t) of
            (c, Ready (Some i), _) \<Rightarrow> (t\<lparr>t_core := c, t_read := t_read t @ [i]\<rparr>, Ready (Input i))
          | (c, Ready None, _) \<Rightarrow> (t\<lparr>t_core := c\<rparr>, Ready Gone)
          | (c, Pending, _) \<Rightarrow> (t\<lparr>t_core := c\<rparr>, Pending)))"

lemma foldl_do_act [simp]:
  "t_acts (foldl do_act t b) = t_acts t" "t_read (foldl do_act t b) = t_read t"
  "t_waker (foldl do_act t b) = t_waker t"
proof -
  have a: "t_acts (do_act t a) = t_acts t" "t_read (do_act t a) = t_read t"
    "t_waker (do_act t a) = t_waker t" for a and t :: "('a, 'b) task" by (cases a; simp)+
  show "t_acts (foldl do_act t b) = t_acts t" by (induction b arbitrary: t) (simp_all add: a)
  show "t_read (foldl do_act t b) = t_read t" by (induction b arbitrary: t) (simp_all add: a)
  show "t_waker (foldl do_act t b) = t_waker t" by (induction b arbitrary: t) (simp_all add: a)
qed

lemma observe_simps [simp]:
  "t_acts (observe t) = tl (t_acts t)" "t_read (observe t) = t_read t" "t_waker (observe t) = t_waker t"
  by (auto simp: observe_def split: list.splits)

lemma poll_input_acts: "poll_input t = (t', Pending) \<Longrightarrow> t_acts t' = tl (tl (tl (t_acts t)))"
  by (auto simp: poll_input_def Let_def split: prod.splits poll.splits option.splits if_splits)

text \<open>Waiting: \<open>None\<close> when the outside does nothing any more and the task waits for ever.\<close>

function next_input :: "('i, 'e) task \<Rightarrow> ('i, 'e) task \<times> 'i awaited option" where
  "next_input t = (case poll_input t of
     (t', Ready a) \<Rightarrow> (t', Some a)
   | (t', Pending) \<Rightarrow> if t_acts t = [] then (t', None) else next_input t')"
  by pat_completeness auto
termination
  by (relation "measure (\<lambda>t. length (t_acts t))") (auto dest!: poll_input_acts[OF sym] simp: length_tl[symmetric] neq_Nil_conv)

declare next_input.simps [simp del]

section \<open>Ending\<close>

definition task_op :: "(('i, 'e) inner \<Rightarrow> ('i, 'e) inner) \<Rightarrow> ('i, 'e) task \<Rightarrow> ('i, 'e) task" where
  "task_op f t = (let t = observe t in t\<lparr>t_core := f (t_core t)\<rparr>)"

definition reader_close_op :: "('i, 'e) task \<Rightarrow> ('i, 'e) task" where
  "reader_close_op t = task_op (\<lambda>c. fst (close_input c)) t"

definition reader_drain_op :: "('i, 'e) task \<Rightarrow> ('i, 'e) task \<times> 'i list" where
  "reader_drain_op t = (let t = observe t in
     (t\<lparr>t_core := fst (drain (t_core t))\<rparr>, snd (drain (t_core t))))"

text \<open>\<open>finish\<close> consumes the sender, whose drop follows.\<close>

definition sender_finish_op :: "'e \<Rightarrow> ('i, 'e) task \<Rightarrow> ('i, 'e) task" where
  "sender_finish_op e t = task_op (\<lambda>c. fst (sender_gone c)) (task_op (\<lambda>c. fst (finish c e)) t)"

definition settle_task :: "'e \<Rightarrow> ('i, 'e) task \<Rightarrow> ('i, 'e) task" where
  "settle_task e t = sender_finish_op e (fst (reader_drain_op (reader_close_op t)))"

text \<open>The end of the task drops what it still owns: the sender, then the reader.\<close>

definition leave_task :: "('i, 'e) task \<Rightarrow> ('i, 'e) task" where
  "leave_task t = reader_close_op (task_op (\<lambda>c. fst (sender_gone c)) t)"

text \<open>How a task ended: with the event it sent, with none, or it still waits.\<close>

datatype 'e task_end = Settled 'e | LeftSilent | StillWaiting

definition settle_end :: "'e \<Rightarrow> ('i, 'e) task \<Rightarrow> ('i, 'e) task \<times> 'e task_end" where
  "settle_end e t = (reader_close_op (settle_task e t), Settled e)"

definition leave_end :: "('i, 'e) task \<Rightarrow> ('i, 'e) task \<times> 'e task_end" where
  "leave_end t = (leave_task t, LeftSilent)"

section \<open>Panics\<close>

text \<open>\<open>caught\<close>: a panic of the host's code becomes its text.\<close>

definition caught :: "('a, 'e) comp \<Rightarrow> string + ('e + 'a)" where
  "caught c = (case c of Ret a \<Rightarrow> Inr (Inr a) | Err e \<Rightarrow> Inr (Inl e) | Panic text \<Rightarrow> Inl text)"

section \<open>Lemmas\<close>

text \<open>What no act of the outside undoes.\<close>

locale lasting =
  fixes P :: "('i, 'e) task \<Rightarrow> bool"
  assumes act: "P t \<Longrightarrow> P (do_act t a)"
    and acts: "P t \<Longrightarrow> P (t\<lparr>t_acts := bs\<rparr>)"
begin

lemma batch: "P t \<Longrightarrow> P (foldl do_act t b)"
  by (induction b arbitrary: t) (simp_all add: act)

lemma observed: "P t \<Longrightarrow> P (observe t)"
  by (auto simp: observe_def acts batch split: list.splits)

end

text \<open>An ended core takes no input and has none queued.\<close>

definition shut :: "('i, 'e) task \<Rightarrow> bool" where
  "shut t \<longleftrightarrow> \<not> accepts_input (t_core t) \<and> queue (t_core t) = []"

text \<open>The event a task sent is the one the executor reads, unless it dropped the instance.\<close>

definition sent_or_dropped :: "'e \<Rightarrow> ('i, 'e) task \<Rightarrow> bool" where
  "sent_or_dropped e t \<longleftrightarrow> node_side (t_core t) = Sent e \<or> is_dropped (t_core t)"

text \<open>The node side is at work, or the executor dropped the instance.\<close>

definition at_work :: "('i, 'e) task \<Rightarrow> bool" where
  "at_work t \<longleftrightarrow> is_working (node_side (t_core t)) \<or> is_dropped (t_core t)"

lemmas outside_ops = is_dropped_def give_def input_end_dropped_def event_end_dropped_def detach_eq
  accepts_input_iff

lemma do_act_cases:
  obtains i where "a = ActGive i" | "a = ActDropInput" | "a = ActDropEvents" | "a = ActCancel"
  by (cases a) auto

interpretation dropped: lasting "\<lambda>t. is_dropped (t_core t)"
  by unfold_locales (rule_tac a = a in do_act_cases, auto simp: outside_ops)

interpretation cancelled: lasting t_cancelled
  by unfold_locales (rule_tac a = a in do_act_cases, auto)

interpretation shut: lasting shut
  by unfold_locales (rule_tac a = a in do_act_cases, auto simp: outside_ops shut_def split: node_side.splits)

interpretation closed: lasting "\<lambda>t. \<not> accepts_input (t_core t)"
  by unfold_locales (rule_tac a = a in do_act_cases, auto simp: outside_ops split: node_side.splits)

interpretation sent: lasting "sent_or_dropped e" for e
  by unfold_locales (rule_tac a = a in do_act_cases, auto simp: outside_ops sent_or_dropped_def)

interpretation at_work: lasting at_work
  by unfold_locales (rule_tac a = a in do_act_cases, auto simp: outside_ops at_work_def)

lemma settle_end_spec:
  assumes "at_work t"
  shows "sent_or_dropped e (fst (settle_end e t)) \<and> shut (fst (settle_end e t))"
proof -
  have c: "at_work (reader_close_op t)"
    using at_work.observed[OF assms]
    by (auto simp: reader_close_op_def task_op_def Let_def at_work_def is_dropped_def close_input_def
        split: node_side.splits gate.splits)
  define t2 where "t2 = fst (reader_drain_op (reader_close_op t))"
  have d: "at_work t2"
    using at_work.observed[OF c]
    by (simp add: t2_def reader_drain_op_def Let_def at_work_def is_dropped_def drain_def)
  define t3 where "t3 = task_op (\<lambda>c. fst (finish c e)) t2"
  have f: "sent_or_dropped e t3" "shut t3"
    using at_work.observed[OF d]
    by (auto simp: t3_def task_op_def Let_def at_work_def sent_or_dropped_def shut_def is_dropped_def
        finish_def retire_def accepts_input_iff)
  define t4 where "t4 = task_op (\<lambda>c. fst (sender_gone c)) t3"
  have g: "sent_or_dropped e t4" "shut t4"
    using sent.observed[OF f(1)] shut.observed[OF f(2)]
    by (auto simp: t4_def task_op_def Let_def sent_or_dropped_def shut_def is_dropped_def
        sender_gone_def retire_def accepts_input_iff)
  have "sent_or_dropped e (reader_close_op t4) \<and> shut (reader_close_op t4)"
    using sent.observed[OF g(1)] shut.observed[OF g(2)]
    by (auto simp: reader_close_op_def task_op_def Let_def sent_or_dropped_def shut_def is_dropped_def
        close_input_def accepts_input_iff split: node_side.splits gate.splits)
  then show ?thesis by (simp add: settle_end_def settle_task_def sender_finish_op_def t4_def t3_def t2_def)
qed

lemma poll_input_at_work: "at_work t \<Longrightarrow> at_work (fst (poll_input t))"
proof -
  assume w: "at_work t"
  have 1: "at_work (observe t)" using w by (rule at_work.observed)
  have 2: "at_work (observe (observe t))" using 1 by (rule at_work.observed)
  have 3: "at_work (observe (observe (observe t)))" using 2 by (rule at_work.observed)
  show ?thesis
    using 1 2 3
    by (auto simp: poll_input_def Let_def poll_next_def at_work_def is_dropped_def
        split: prod.splits list.splits)
qed

lemma next_input_at_work: "at_work t \<Longrightarrow> at_work (fst (next_input t))"
proof (induction t rule: next_input.induct)
  case (1 t)
  then show ?case
    using poll_input_at_work[OF "1.prems"]
    by (subst next_input.simps) (auto split: prod.splits poll.splits)
qed

lemma next_input_dropped: "is_dropped (t_core t) \<Longrightarrow> snd (next_input t) = Some Gone"
  using dropped.observed[of t] by (subst next_input.simps) (simp add: poll_input_def Let_def)

lemma next_input_cancelled:
  "t_cancelled t \<Longrightarrow> snd (next_input t) = Some Gone \<or> snd (next_input t) = Some AwCancelled"
  using cancelled.observed[of t] cancelled.observed[of "observe t"]
  by (subst (1 2) next_input.simps) (simp add: poll_input_def Let_def)

lemma poll_input_read:
  "t_read (fst (poll_input t)) = t_read t @ (case snd (poll_input t) of Ready (Input i) \<Rightarrow> [i] | _ \<Rightarrow> [])"
  by (auto simp: poll_input_def Let_def split: prod.splits poll.splits option.splits)

lemma next_input_read:
  "t_read (fst (next_input t)) = t_read t @ (case snd (next_input t) of Some (Input i) \<Rightarrow> [i] | _ \<Rightarrow> [])"
proof (induction t rule: next_input.induct)
  case (1 t)
  then show ?case using poll_input_read[of t]
    by (subst (1 2) next_input.simps) (auto split: prod.splits poll.splits)
qed

lemma next_input_acts: "length (t_acts (fst (next_input t))) \<le> length (t_acts t)"
proof (induction t rule: next_input.induct)
  case (1 t)
  have "length (t_acts (fst (poll_input t))) \<le> length (t_acts t)"
    by (auto simp: poll_input_def Let_def split: prod.splits poll.splits option.splits)
  then show ?case using "1.IH" by (subst next_input.simps) (fastforce split: prod.splits poll.splits)
qed

end
