(* ===== verification/Flow_Merger.thy ===== *)
theory Flow_Merger
  imports Flow_Signals
begin

text \<open>
  The merger of \<open>br-flow-nodes/src/merger\<close>: it reads inputs until one makes it fire or refuse. The
  ready and the spent function are the host's and return.
\<close>

section \<open>The merger\<close>

datatype late_input = Silent | FailLate | FireAgain

record 'f merger_rules =
  mr_name :: string
  mr_ready :: "'f state \<Rightarrow> bool"
  mr_spent :: "'f state \<Rightarrow> bool"

record 'f merger =
  mg_rules :: "'f merger_rules"
  mg_late_input :: late_input

definition merger_new :: "string \<Rightarrow> ('f state \<Rightarrow> bool) \<Rightarrow> ('f state \<Rightarrow> bool) \<Rightarrow> 'f merger" where
  "merger_new name ready spent =
     \<lparr>mg_rules = \<lparr>mr_name = name, mr_ready = ready, mr_spent = spent\<rparr>, mg_late_input = Silent\<rparr>"

definition merger_late_input :: "'f merger \<Rightarrow> late_input \<Rightarrow> 'f merger" where
  "merger_late_input m late = m\<lparr>mg_late_input := late\<rparr>"

datatype decision = Wait | Fire | Refuse

definition decide :: "'f merger_rules \<Rightarrow> late_input \<Rightarrow> 'f state \<Rightarrow> decision" where
  "decide R late s =
     (if mr_spent R s \<and> late = Silent then Wait
      else if mr_spent R s \<and> late = FailLate then Refuse
      else if mr_ready R s then Fire else Wait)"

definition late_reason :: "'f merger_rules \<Rightarrow> reason" where
  "late_reason R = Reason (''merger '' @ mr_name R @ '': the merge was already done, a late input is refused'')"

lemma poll_input_queue:
  "poll_input t = (t', Ready (Input i)) \<Longrightarrow> t_acts t = [] \<Longrightarrow> length (queue (t_core t')) < length (queue (t_core t))"
  by (auto simp: poll_input_def Let_def observe_def poll_next_def split: list.splits prod.splits poll.splits
      option.splits if_splits)

lemma next_input_less:
  "next_input t = (t', Some (Input i)) \<Longrightarrow> length (t_acts t') < length (t_acts t) \<or>
     (t_acts t' = t_acts t \<and> length (queue (t_core t')) < length (queue (t_core t)))"
proof (induction t rule: next_input.induct)
  case (1 t)
  have acts: "t_acts (fst (poll_input t)) = tl (tl (tl (t_acts t)))" if "snd (poll_input t) = Ready (Input i)"
    using that by (auto simp: poll_input_def Let_def split: prod.splits poll.splits option.splits if_splits)
  show ?case
  proof (cases "snd (poll_input t)")
    case (Ready a)
    then have p: "poll_input t = (t', Ready (Input i))"
      using "1.prems" by (subst (asm) next_input.simps) (auto split: prod.splits)
    show ?thesis
    proof (cases "t_acts t")
      case Nil
      then show ?thesis using poll_input_queue[OF p] acts p by simp
    next
      case (Cons b bs)
      have "length (tl (tl bs)) < length (t_acts t)" by (simp add: Cons less_Suc_eq_le)
      then show ?thesis using acts p Cons by simp
    qed
  next
    case Pending
    then obtain t1 where p: "poll_input t = (t1, Pending)" by (cases "poll_input t") auto
    then have n: "t_acts t \<noteq> []" "next_input t1 = (t', Some (Input i))"
      using "1.prems" by (auto simp: next_input.simps[of t] split: if_splits)
    have "length (t_acts t1) < length (t_acts t)"
      using poll_input_acts[OF p] n(1) by (cases "t_acts t") (simp_all add: less_Suc_eq_le)
    then show ?thesis using "1.IH"[OF p[symmetric] refl n] by auto
  qed
qed

function merger_run ::
  "('f, 'u) fields_ops \<Rightarrow> 'f merger_rules \<Rightarrow> late_input \<Rightarrow> ('f state, 'u event) task \<Rightarrow>
     ('f state, 'u event) task \<times> 'u event task_end" where
  "merger_run F R late t = (case next_input t of
     (t', None) \<Rightarrow> (t', StillWaiting)
   | (t', Some Gone) \<Rightarrow> leave_end t'
   | (t', Some AwCancelled) \<Rightarrow> settle_end EvCancelled t'
   | (t', Some (Input s)) \<Rightarrow> (case decide R late s of
        Wait \<Rightarrow> merger_run F R late t'
      | Fire \<Rightarrow> settle_end (EvResult (empty_update F)) t'
      | Refuse \<Rightarrow> settle_end (EvRefused (late_reason R)) t'))"
  by pat_completeness auto
termination
  by (relation "measures [\<lambda>(F, R, late, t). length (t_acts t), \<lambda>(F, R, late, t). length (queue (t_core t))]")
     (auto dest!: next_input_less[OF sym])

declare merger_run.simps [simp del]

definition merger_create ::
  "('f, 'u) fields_ops \<Rightarrow> 'f merger \<Rightarrow> bool \<Rightarrow> 'f state outer_act list list \<Rightarrow> waker \<Rightarrow>
     ('f state, 'u event) task \<times> 'u event task_end" where
  "merger_create F m cancelled acts w = merger_run F (mg_rules m) (mg_late_input m)
     \<lparr>t_core = core_new, t_cancelled = cancelled, t_acts = acts, t_waker = w, t_read = []\<rparr>"

section \<open>Lemmas\<close>

lemma end_reads [simp]:
  "t_read (fst (settle_end e t)) = t_read t" "snd (settle_end e t) = Settled e"
  "t_read (fst (leave_end t)) = t_read t" "snd (leave_end t) = LeftSilent"
  by (simp_all add: settle_end_def settle_task_def leave_end_def leave_task_def reader_close_op_def
      task_op_def sender_finish_op_def reader_drain_op_def Let_def)

lemma end_cancelled: "t_cancelled t \<Longrightarrow> t_cancelled (fst (settle_end e t))"
  using cancelled.observed
  by (simp add: settle_end_def settle_task_def reader_close_op_def task_op_def sender_finish_op_def
      reader_drain_op_def Let_def cancelled.observed)

lemma next_input_was_cancelled: "next_input t = (t', Some AwCancelled) \<Longrightarrow> t_cancelled t'"
proof (induction t rule: next_input.induct)
  case (1 t)
  have "t_cancelled t1" if "poll_input t = (t1, Ready AwCancelled)" for t1
    using that by (auto simp: poll_input_def Let_def split: prod.splits poll.splits option.splits if_splits)
  then show ?case using "1.prems" "1.IH"
    by (subst (asm) next_input.simps) (auto split: prod.splits poll.splits if_splits)
qed

lemma core_new_at_work [simp]: "at_work \<lparr>t_core = core_new, t_cancelled = c, t_acts = acts, t_waker = w, t_read = rs\<rparr>"
  by (simp add: at_work_def core_new_def)

lemma merger_at_work_final:
  "at_work t \<Longrightarrow> snd (merger_run F R late t) = Settled e \<Longrightarrow>
     sent_or_dropped e (fst (merger_run F R late t)) \<and> shut (fst (merger_run F R late t))"
proof (induction F R late t rule: merger_run.induct)
  case (1 F R late t)
  have w: "at_work (fst (next_input t))" by (rule next_input_at_work[OF "1.prems"(1)])
  show ?case
    using "1.prems"(2) "1.IH" w settle_end_spec[OF w]
    by (subst (asm) merger_run.simps, subst (1 2) merger_run.simps)
       (auto split: prod.splits option.splits awaited.splits decision.splits)
qed

section \<open>Properties\<close>

text \<open>
  What a merger promises, in terms of the functions of the host and of the policy alone: an input fires
  the merge when it is ready and not late, or late under \<open>FireAgain\<close>; a late input is refused under
  \<open>FailLate\<close>; every other input leaves no trace.
\<close>

definition fires_on :: "'f merger_rules \<Rightarrow> late_input \<Rightarrow> 'f state \<Rightarrow> bool" where
  "fires_on R late s \<longleftrightarrow> mr_ready R s \<and> (mr_spent R s \<longrightarrow> late = FireAgain)"

definition refuses_on :: "'f merger_rules \<Rightarrow> late_input \<Rightarrow> 'f state \<Rightarrow> bool" where
  "refuses_on R late s \<longleftrightarrow> mr_spent R s \<and> late = FailLate"

definition passes_over :: "'f merger_rules \<Rightarrow> late_input \<Rightarrow> 'f state \<Rightarrow> bool" where
  "passes_over R late s \<longleftrightarrow> (if mr_spent R s then late = Silent \<or> late = FireAgain \<and> \<not> mr_ready R s else \<not> mr_ready R s)"

lemma decide_by_policy:
  "decide R late s = Fire \<longleftrightarrow> fires_on R late s" "decide R late s = Refuse \<longleftrightarrow> refuses_on R late s"
  "decide R late s = Wait \<longleftrightarrow> passes_over R late s"
  by (cases late; simp add: decide_def fires_on_def refuses_on_def passes_over_def)+

fun merger_promise ::
  "('f, 'u) fields_ops \<Rightarrow> 'f merger_rules \<Rightarrow> late_input \<Rightarrow> 'f state list \<Rightarrow> bool \<Rightarrow> 'u event task_end \<Rightarrow> bool" where
  "merger_promise F R late reads cancelled (Settled (EvResult u)) \<longleftrightarrow> u = empty_update F \<and> reads \<noteq> [] \<and>
     list_all (passes_over R late) (butlast reads) \<and> fires_on R late (last reads)"
| "merger_promise F R late reads cancelled (Settled (EvRefused r)) \<longleftrightarrow> r = late_reason R \<and> reads \<noteq> [] \<and>
     list_all (passes_over R late) (butlast reads) \<and> refuses_on R late (last reads)"
| "merger_promise F R late reads cancelled (Settled EvCancelled) \<longleftrightarrow>
     list_all (passes_over R late) reads \<and> cancelled"
| "merger_promise F R late reads cancelled (Settled (EvFailed c)) \<longleftrightarrow> False"
| "merger_promise F R late reads cancelled LeftSilent \<longleftrightarrow> list_all (passes_over R late) reads"
| "merger_promise F R late reads cancelled StillWaiting \<longleftrightarrow> list_all (passes_over R late) reads"

lemma merger_promise_Cons:
  "passes_over R late s \<Longrightarrow> merger_promise F R late reads c e \<Longrightarrow> merger_promise F R late (s # reads) c e"
  by (induction F R late reads c e rule: merger_promise.induct) simp_all

text \<open>
  C19: when a merger fires, refuses or stays silent, for each late-input policy: the \<open>Result\<close> of a
  merger is the empty update, sent on the first input read that the ready function accepts and the spent
  function does not call late (under \<open>FireAgain\<close>, late or not); its \<open>Refused\<close> is sent on the first late
  input, under \<open>FailLate\<close> only; every input read before leaves no trace, a merger that ends in another way
  (cancelled, given up) or still waits read only such inputs, and it never sends \<open>Failed\<close>.
\<close>

theorem merger_decides:
  "\<exists>reads. t_read (fst (merger_run F R late t)) = t_read t @ reads \<and>
     merger_promise F R late reads (t_cancelled (fst (merger_run F R late t))) (snd (merger_run F R late t))"
proof (induction F R late t rule: merger_run.induct)
  case (1 F R late t)
  obtain t' a where n: "next_input t = (t', a)" by fastforce
  note policy = decide_by_policy [symmetric]
  have rd: "t_read t' = t_read t @ (case a of Some (Input i) \<Rightarrow> [i] | _ \<Rightarrow> [])" using next_input_read[of t] n by simp
  note run = merger_run.simps[of F R late t, unfolded n]
  show ?case
  proof (cases "\<exists>s. a = Some (Input s) \<and> decide R late s = Wait")
    case True
    then obtain s where a: "a = Some (Input s)" "decide R late s = Wait" by blast
    then show ?thesis
      using "1.IH"[OF n[symmetric] a(1) refl a(2)] rd by (auto simp: run intro!: merger_promise_Cons decide_by_policy(3) [THEN iffD1])
  next
    case False
    have "t_cancelled (fst (settle_end EvCancelled t'))" if "a = Some AwCancelled"
      using that n by (intro end_cancelled next_input_was_cancelled) simp
    then show ?thesis
      using False rd by (auto simp: run policy split: option.splits awaited.splits decision.splits)
  qed
qed

text \<open>
  the terminal event of a merger is final: when it settles, the executor reads exactly that
  event unless it dropped the instance, and no input is queued or taken any more.
\<close>

theorem merger_event_final:
  assumes "snd (merger_create F m cancelled acts w) = Settled e"
  shows "sent_or_dropped e (fst (merger_create F m cancelled acts w)) \<and>
    shut (fst (merger_create F m cancelled acts w))"
  using assms unfolding merger_create_def by (intro merger_at_work_final) simp_all

definition demo_merger :: "nat merger" where
  "demo_merger = merger_late_input (merger_new ''join'' (\<lambda>s. fields_of s > 3) (\<lambda>s. fields_of s > 8)) FailLate"

definition demo_input :: "nat \<Rightarrow> nat state" where
  "demo_input n = \<lparr>fields_of = n, limit_of = 9, size_of = 1\<rparr>"

theorem merger_event_final_witness:
  "node_side (t_core (fst (merger_create nat_fields demo_merger False
     [[ActGive (demo_input 2)], [ActGive (demo_input 5)]] (Waker 1 None)))) = Sent (EvResult 0)"
proof -
  have s: "snd (merger_create nat_fields demo_merger False
     [[ActGive (demo_input 2)], [ActGive (demo_input 5)]] (Waker 1 None)) = Settled (EvResult 0)"
    by code_simp
  have "\<not> is_dropped (t_core (fst (merger_create nat_fields demo_merger False
     [[ActGive (demo_input 2)], [ActGive (demo_input 5)]] (Waker 1 None))))" by code_simp
  then show ?thesis using merger_event_final[OF s] by (simp add: sent_or_dropped_def)
qed

end
