(* ===== verification/Flow_MapReduce.thy ===== *)
theory Flow_MapReduce
  imports Flow_Signals
begin

text \<open>
  The map-reduce node of \<open>br-flow-nodes/src/map_reduce\<close>. Its work is a state machine whose states
  are the await points of the code (\<open>mr_at\<close>): the creation of an internal instance, the next end of
  an internal instance, the wait after a cancellation, and the end. A wake is what an await
  resolves to. The cancellation of the outer token and the drop of the outer instance become
  visible at any observation the environment chooses (\<open>me_trigger_at\<close>, \<open>me_drop_at\<close>), counted by
  \<open>w_tick\<close>. The map and the reduce function are the host's and return.
\<close>

section \<open>Data\<close>

datatype fault_mode = NonStrict | Strict

datatype 'g element_outcome = ElDone "'g state" | ElFailed string

definition outcome_state :: "'g element_outcome \<Rightarrow> 'g state option" where
  "outcome_state out = (case out of ElDone s \<Rightarrow> Some s | ElFailed _ \<Rightarrow> None)"

definition outcome_failure :: "'g element_outcome \<Rightarrow> string option" where
  "outcome_failure out = (case out of ElDone _ \<Rightarrow> None | ElFailed text \<Rightarrow> Some text)"

datatype map_reduce_error =
  InvalidInitialValue nat string
| InstanceNotCreated nat cause
| InstanceIdMismatch nat string string
| InputRefused nat
| InternalFailed nat cause
| InternalRefused nat string
| InternalCancelled nat
| InternalVanished nat
| UpdateRejected nat string

text \<open>The \<open>Display\<close> of an error, which may be the panic of the \<open>Display\<close> of its cause.\<close>

definition instance_text :: "nat \<Rightarrow> string" where
  "instance_text p = ''the internal instance '' @ show_nat p"

fun show_map_reduce_error :: "map_reduce_error \<Rightarrow> string + string" where
  "show_map_reduce_error (InvalidInitialValue p reason) =
     Inr (''the initial value of internal state '' @ show_nat p @ '' is invalid: '' @ reason)"
| "show_map_reduce_error (InstanceNotCreated p c) =
     bind_sum (display c) (\<lambda>text. Inr (instance_text p @ '' could not be created: '' @ text))"
| "show_map_reduce_error (InstanceIdMismatch p expected returned) =
     Inr (instance_text p @ '' carries the instance id '' @ returned @ '', not the id '' @ expected
       @ '' it was given'')"
| "show_map_reduce_error (InputRefused p) =
     Inr (instance_text p @ '' refused its input: its input end is closed'')"
| "show_map_reduce_error (InternalFailed p c) =
     bind_sum (display c) (\<lambda>text. Inr (instance_text p @ '' failed: '' @ text))"
| "show_map_reduce_error (InternalRefused p reason) =
     Inr (instance_text p @ '' refused its input: '' @ reason)"
| "show_map_reduce_error (InternalCancelled p) =
     Inr (instance_text p @ '' was cancelled while its cancel token was not triggered'')"
| "show_map_reduce_error (InternalVanished p) =
     Inr (instance_text p @ '' vanished without sending a terminal event'')"
| "show_map_reduce_error (UpdateRejected p reason) =
     Inr (''the update of '' @ instance_text p @ '' was not accepted: '' @ reason)"

record ('f, 'g, 'u) map_reduce_rules =
  mp_name :: string
  mp_map :: "'f state \<Rightarrow> 'g list"
  mp_limit :: nat
  mp_reduce :: "'g element_outcome list \<Rightarrow> 'u"

record ('f, 'g, 'u) map_reduce =
  mp_rules :: "('f, 'g, 'u) map_reduce_rules"
  mp_internal_size_limit :: nat
  mp_fault_mode :: fault_mode

definition map_reduce_new ::
  "string \<Rightarrow> ('f state \<Rightarrow> 'g list) \<Rightarrow> nat \<Rightarrow> ('g element_outcome list \<Rightarrow> 'u) \<Rightarrow> ('f, 'g, 'u) map_reduce" where
  "map_reduce_new name mp lim rd = \<lparr>mp_rules = \<lparr>mp_name = name, mp_map = mp, mp_limit = lim, mp_reduce = rd\<rparr>,
     mp_internal_size_limit = DEFAULT_STATE_LIMIT, mp_fault_mode = NonStrict\<rparr>"

section \<open>The initial states\<close>

fun initial_states_from ::
  "('g, 'v) fields_ops \<Rightarrow> nat \<Rightarrow> nat \<Rightarrow> 'g list \<Rightarrow> map_reduce_error + 'g state list" where
  "initial_states_from G lim position [] = Inr []"
| "initial_states_from G lim position (f # fs) = (case caught (create_with_limit G f lim) of
     Inr (Inr s) \<Rightarrow> bind_sum (initial_states_from G lim (position + 1) fs) (\<lambda>ss. Inr (s # ss))
   | Inr (Inl e) \<Rightarrow> Inl (InvalidInitialValue position (into_string (invalid_reason e)))
   | Inl text \<Rightarrow> Inl (InvalidInitialValue position text))"

definition initial_states ::
  "('g, 'v) fields_ops \<Rightarrow> ('f, 'g, 'u) map_reduce_rules \<Rightarrow> nat \<Rightarrow> 'f state \<Rightarrow> map_reduce_error + 'g state list" where
  "initial_states G R lim s = initial_states_from G lim 0 (mp_map R s)"

section \<open>The work\<close>

datatype 'u work_outcome =
  WorkResult 'u
| WorkCancelled
| WorkFailed map_reduce_error
| WorkDropped
| WorkPanicked string

datatype halt = HaltCancel | HaltDropped | HaltFault map_reduce_error | HaltPanic string

type_synonym 'v received = "event_end_error + 'v event"

datatype 'u mr_at = AtCreation instance_id | AtJoin | AtStop | AtEnd "'u work_outcome"

record ('g, 'v, 'u) work =
  w_states :: "'g state list"
  w_failures :: "string option list"
  w_children :: "nat list"
  w_next :: nat
  w_fired :: bool
  w_tick :: nat
  w_ends :: "(nat \<times> 'v received) list"
  w_at :: "'u mr_at"

record mr_env =
  me_trigger_at :: "nat option"
  me_drop_at :: "nat option"
  me_uuids :: uuid_ops
  me_now_v7 :: "nat \<Rightarrow> 128 word"

definition visible :: "nat option \<Rightarrow> nat \<Rightarrow> bool" where
  "visible at t = (case at of None \<Rightarrow> False | Some t0 \<Rightarrow> t0 \<le> t)"

text \<open>What an await resolves to. A child that broke is a task that panicked or was aborted.\<close>

datatype ('g, 'v) mr_wake =
  ChildEnd nat "'v received"
| ChildBroken nat
| CreationDone "string + (cause + (instance_id \<times> ('g, 'v) icore))"
| SpuriousWake

definition mr_tick :: "('g, 'v, 'u) work \<Rightarrow> ('g, 'v, 'u) work" where
  "mr_tick w = w\<lparr>w_tick := w_tick w + 1\<rparr>"

text \<open>The child scope: triggered by its own trigger or by the outer token.\<close>

definition scope_triggered :: "mr_env \<Rightarrow> ('g, 'v, 'u) work \<Rightarrow> bool" where
  "scope_triggered E w = (w_fired w \<or> visible (me_trigger_at E) (w_tick w))"

text \<open>The first two branches of every biased select of the work.\<close>

definition select_signals :: "mr_env \<Rightarrow> ('g, 'v, 'u) work \<Rightarrow> ('g, 'v, 'u) work \<times> halt option" where
  "select_signals E w = (let w = mr_tick w in
     if visible (me_drop_at E) (w_tick w) then (w, Some HaltDropped)
     else let w = mr_tick w in
       if visible (me_trigger_at E) (w_tick w) then (w, Some HaltCancel) else (w, None))"

section \<open>The end of an element\<close>

definition element_fault ::
  "('g, 'v) fields_ops \<Rightarrow> nat \<Rightarrow> 'g state \<Rightarrow> 'v received \<Rightarrow> map_reduce_error + 'g state" where
  "element_fault G position s received = (case received of
     Inr (EvResult update) \<Rightarrow> (case caught (apply_update G s update) of
        Inr (Inr s') \<Rightarrow> Inr s'
      | Inr (Inl e) \<Rightarrow> Inl (UpdateRejected position (show_apply_error e))
      | Inl text \<Rightarrow> Inl (UpdateRejected position text))
   | Inr (EvFailed c) \<Rightarrow> Inl (InternalFailed position c)
   | Inr (EvRefused reason) \<Rightarrow> Inl (InternalRefused position (into_string reason))
   | Inr EvCancelled \<Rightarrow> Inl (InternalCancelled position)
   | Inl _ \<Rightarrow> Inl (InternalVanished position))"

definition element_end ::
  "('g, 'v) fields_ops \<Rightarrow> mr_env \<Rightarrow> nat \<Rightarrow> 'v received \<Rightarrow> ('g, 'v, 'u) work \<Rightarrow> halt + ('g, 'v, 'u) work" where
  "element_end G E position received w =
     (if (case received of Inr EvCancelled \<Rightarrow> scope_triggered E w | _ \<Rightarrow> False) then Inl HaltCancel
      else case element_fault G position (w_states w ! position) received of
        Inr s \<Rightarrow> Inr (w\<lparr>w_states := (w_states w)[position := s]\<rparr>)
      | Inl fault \<Rightarrow> Inl (HaltFault fault))"

definition receive ::
  "('g, 'v) fields_ops \<Rightarrow> mr_env \<Rightarrow> fault_mode \<Rightarrow> nat \<Rightarrow> 'v received \<Rightarrow> ('g, 'v, 'u) work \<Rightarrow>
     halt + ('g, 'v, 'u) work" where
  "receive G E mode position received w = (case element_end G E position received w of
     Inl (HaltFault error) \<Rightarrow>
       if mode = NonStrict then (case show_map_reduce_error error of
          Inr text \<Rightarrow> Inr (w\<lparr>w_failures := (w_failures w)[position := Some text]\<rparr>)
        | Inl panic_text \<Rightarrow> Inl (HaltPanic panic_text))
       else Inl (HaltFault error)
   | ended \<Rightarrow> ended)"

text \<open>A child end taken from the set of children, which remembers it.\<close>

definition join_child :: "nat \<Rightarrow> 'v received \<Rightarrow> ('g, 'v, 'u) work \<Rightarrow> ('g, 'v, 'u) work" where
  "join_child position received w = w\<lparr>w_children := remove1 position (w_children w),
     w_ends := w_ends w @ [(position, received)]\<rparr>"

section \<open>Starting and stopping\<close>

definition element_outcome_of :: "'g state \<Rightarrow> string option \<Rightarrow> 'g element_outcome" where
  "element_outcome_of s failure = (case failure of Some text \<Rightarrow> ElFailed text | None \<Rightarrow> ElDone s)"

definition finish_work ::
  "('f, 'g, 'u) map_reduce_rules \<Rightarrow> mr_env \<Rightarrow> ('g, 'v, 'u) work \<Rightarrow> ('g, 'v, 'u) work" where
  "finish_work R E w = (let w = mr_tick w in
     w\<lparr>w_at := AtEnd (if scope_triggered E w then WorkCancelled
       else WorkResult (mp_reduce R (map (\<lambda>(s, f). element_outcome_of s f) (zip (w_states w) (w_failures w)))))\<rparr>)"

definition stop_failed :: "map_reduce_error \<Rightarrow> ('g, 'v, 'u) work \<Rightarrow> ('g, 'v, 'u) work" where
  "stop_failed e w = w\<lparr>w_fired := True, w_children := [], w_at := AtEnd (WorkFailed e)\<rparr>"

text \<open>One poll of the select of \<open>stop_cancelled\<close>: the drop, then the next child end.\<close>

definition stop_cancelled :: "mr_env \<Rightarrow> ('g, 'v, 'u) work \<Rightarrow> ('g, 'v, 'u) work" where
  "stop_cancelled E w = (let w = mr_tick w in
     if visible (me_drop_at E) (w_tick w) then w\<lparr>w_at := AtEnd WorkDropped\<rparr>
     else if w_children w = [] then w\<lparr>w_at := AtEnd WorkCancelled\<rparr>
     else w\<lparr>w_at := AtStop\<rparr>)"

definition halted :: "mr_env \<Rightarrow> halt \<Rightarrow> ('g, 'v, 'u) work \<Rightarrow> ('g, 'v, 'u) work" where
  "halted E h w = (case h of
     HaltDropped \<Rightarrow> w\<lparr>w_at := AtEnd WorkDropped\<rparr>
   | HaltCancel \<Rightarrow> stop_cancelled E w
   | HaltFault e \<Rightarrow> stop_failed e w
   | HaltPanic text \<Rightarrow> w\<lparr>w_at := AtEnd (WorkPanicked text)\<rparr>)"

definition invalid_id_cause :: "mr_env \<Rightarrow> 128 word \<Rightarrow> cause" where
  "invalid_id_cause E value = Cause (Inr (show_invalid_id (me_uuids E) value))"

text \<open>The head of \<open>start\<close>, up to its await.\<close>

definition begin_start :: "mr_env \<Rightarrow> ('g, 'v, 'u) work \<Rightarrow> ('g, 'v, 'u) work" where
  "begin_start E w = (let w = mr_tick w in
     case instance_id_new (me_uuids E) (me_now_v7 E (w_tick w)) of
       Inl value \<Rightarrow> halted E (HaltFault (InstanceNotCreated (w_next w) (invalid_id_cause E value))) w
     | Inr iid \<Rightarrow> w\<lparr>w_at := AtCreation iid\<rparr>)"

text \<open>\<open>start_available\<close> and the head of \<open>complete\<close>, up to the next await.\<close>

definition complete ::
  "('f, 'g, 'u) map_reduce_rules \<Rightarrow> mr_env \<Rightarrow> ('g, 'v, 'u) work \<Rightarrow> ('g, 'v, 'u) work" where
  "complete R E w =
     (if w_next w < length (w_states w) \<and> length (w_children w) < mp_limit R then
        (let w = mr_tick w in
         if scope_triggered E w then halted E HaltCancel w else begin_start E w)
      else if w_children w = [] then finish_work R E w
      else w\<lparr>w_at := AtJoin\<rparr>)"

text \<open>The tail of \<open>start\<close>: the creation gave its result.\<close>

definition created ::
  "mr_env \<Rightarrow> instance_id \<Rightarrow> string + (cause + (instance_id \<times> ('g, 'v) icore)) \<Rightarrow> ('g, 'v, 'u) work \<Rightarrow>
     halt + ('g, 'v, 'u) work" where
  "created E iid result w = (let position = w_next w in
     case result of
       Inl text \<Rightarrow> Inl (HaltFault (InstanceNotCreated position (Cause (Inr text))))
     | Inr (Inl c) \<Rightarrow> Inl (HaltFault (InstanceNotCreated position c))
     | Inr (Inr (returned, c)) \<Rightarrow>
         if returned \<noteq> iid then
           Inl (HaltFault (InstanceIdMismatch position (show_uuid (me_uuids E) iid) (show_uuid (me_uuids E) returned)))
         else if \<not> is_ok (fst (snd (give c (w_states w ! position)))) then Inl (HaltFault (InputRefused position))
         else Inr (w\<lparr>w_children := w_children w @ [position], w_next := position + 1\<rparr>))"

definition continue_with ::
  "mr_env \<Rightarrow> (('g, 'v, 'u) work \<Rightarrow> ('g, 'v, 'u) work) \<Rightarrow> ('g, 'v, 'u) work \<Rightarrow> halt + ('g, 'v, 'u) work \<Rightarrow>
     ('g, 'v, 'u) work" where
  "continue_with E k w res = (case res of Inl h \<Rightarrow> halted E h w | Inr w' \<Rightarrow> k w')"

text \<open>
  One await: the signals first, then what woke it. A wake that the await cannot get is no step.
\<close>

definition work_step ::
  "('g, 'v) fields_ops \<Rightarrow> ('f, 'g, 'u) map_reduce_rules \<Rightarrow> fault_mode \<Rightarrow> mr_env \<Rightarrow>
     ('g, 'v, 'u) work \<Rightarrow> ('g, 'v) mr_wake \<Rightarrow> ('g, 'v, 'u) work" where
  "work_step G R mode E w wake = (case w_at w of
     AtEnd out \<Rightarrow> w
   | AtStop \<Rightarrow> (case wake of
       ChildEnd position received \<Rightarrow> stop_cancelled E (w\<lparr>w_children := remove1 position (w_children w)\<rparr>)
     | ChildBroken position \<Rightarrow> stop_cancelled E (w\<lparr>w_children := remove1 position (w_children w)\<rparr>)
     | _ \<Rightarrow> stop_cancelled E w)
   | AtCreation iid \<Rightarrow> (case select_signals E w of
       (w, Some h) \<Rightarrow> halted E h w
     | (w, None) \<Rightarrow> (case wake of
         ChildEnd position received \<Rightarrow>
           if position \<in> set (w_children w) then
             let w = join_child position received w in
             continue_with E (\<lambda>w. w) w (receive G E mode position received w)
           else w
       | ChildBroken position \<Rightarrow>
           if position \<in> set (w_children w) then halted E HaltDropped w else w
       | CreationDone result \<Rightarrow> continue_with E (complete R E) w (created E iid result w)
       | SpuriousWake \<Rightarrow> w))
   | AtJoin \<Rightarrow> (case select_signals E w of
       (w, Some h) \<Rightarrow> halted E h w
     | (w, None) \<Rightarrow> (case wake of
         ChildEnd position received \<Rightarrow>
           if position \<in> set (w_children w) then
             let w = join_child position received w in
             continue_with E (complete R E) w (receive G E mode position received w)
           else w
       | ChildBroken position \<Rightarrow>
           if position \<in> set (w_children w) then halted E HaltDropped w else w
       | _ \<Rightarrow> w)))"

definition work_new :: "'g state list \<Rightarrow> ('g, 'v, 'u) work" where
  "work_new states = \<lparr>w_states = states, w_failures = replicate (length states) None, w_children = [],
     w_next = 0, w_fired = False, w_tick = 0, w_ends = [], w_at = AtJoin\<rparr>"

definition work_run ::
  "('g, 'v) fields_ops \<Rightarrow> ('f, 'g, 'u) map_reduce_rules \<Rightarrow> fault_mode \<Rightarrow> mr_env \<Rightarrow> nat \<Rightarrow> 'f state \<Rightarrow>
     ('g, 'v) mr_wake list \<Rightarrow> ('g, 'v, 'u) work" where
  "work_run G R mode E lim s wakes = (case initial_states G R lim s of
     Inl e \<Rightarrow> (work_new [])\<lparr>w_at := AtEnd (WorkFailed e)\<rparr>
   | Inr states \<Rightarrow> foldl (work_step G R mode E) (complete R E (work_new states)) wakes)"

section \<open>The instance\<close>

text \<open>The work has the same outer token and ends: what they show already is visible from its start.\<close>

definition task_env :: "('i, 'e) task \<Rightarrow> mr_env \<Rightarrow> mr_env" where
  "task_env t E = E\<lparr>me_trigger_at := (if t_cancelled t then Some 0 else me_trigger_at E),
     me_drop_at := (if is_dropped (t_core t) then Some 0 else me_drop_at E)\<rparr>"

definition mr_instance ::
  "('g, 'v) fields_ops \<Rightarrow> ('f, 'g, 'u) map_reduce \<Rightarrow> mr_env \<Rightarrow> ('g, 'v) mr_wake list \<Rightarrow>
     ('f state, 'u event) task \<Rightarrow> ('f state, 'u event) task \<times> 'u event task_end" where
  "mr_instance G M E wakes t = (case next_input t of
     (t, None) \<Rightarrow> (t, StillWaiting)
   | (t, Some Gone) \<Rightarrow> leave_end t
   | (t, Some AwCancelled) \<Rightarrow> settle_end EvCancelled t
   | (t, Some (Input first)) \<Rightarrow>
       let t = reader_close_op t;
           (t, drained) = reader_drain_op t;
           given = (if drained = [] then first else last drained)
       in (case w_at (work_run G (mp_rules M) (mp_fault_mode M) (task_env t E) (mp_internal_size_limit M) given wakes) of
            AtEnd (WorkResult u) \<Rightarrow> settle_end (EvResult u) t
          | AtEnd WorkCancelled \<Rightarrow> settle_end EvCancelled t
          | AtEnd (WorkFailed e) \<Rightarrow> settle_end (EvFailed (Cause (show_map_reduce_error e))) t
          | AtEnd WorkDropped \<Rightarrow> leave_end t
          | AtEnd (WorkPanicked text) \<Rightarrow> leave_end t
          | _ \<Rightarrow> (t, StillWaiting)))"

section \<open>Invariants of the work\<close>

text \<open>
  What the end of an internal instance makes of its element, as the documentation has it: the state with
  its update, or a failure whose text says which fault it was; a cause that cannot be shown makes nothing.
\<close>

fun element_gives :: "('g, 'v) fields_ops \<Rightarrow> nat \<Rightarrow> 'g state \<Rightarrow> 'v received \<Rightarrow> 'g element_outcome \<Rightarrow> bool" where
  "element_gives G k s (Inr (EvResult update)) out \<longleftrightarrow> (case apply_update G s update of
     Ret s' \<Rightarrow> out = ElDone s'
   | Err e \<Rightarrow> out = ElFailed (''the update of the internal instance '' @ show_nat k @ '' was not accepted: '' @ show_apply_error e)
   | Panic text \<Rightarrow> out = ElFailed (''the update of the internal instance '' @ show_nat k @ '' was not accepted: '' @ text))"
| "element_gives G k s (Inr (EvFailed c)) out \<longleftrightarrow>
     (\<exists>text. display c = Inr text \<and> out = ElFailed (''the internal instance '' @ show_nat k @ '' failed: '' @ text))"
| "element_gives G k s (Inr (EvRefused reason)) out \<longleftrightarrow>
     out = ElFailed (''the internal instance '' @ show_nat k @ '' refused its input: '' @ into_string reason)"
| "element_gives G k s (Inr EvCancelled) out \<longleftrightarrow>
     out = ElFailed (''the internal instance '' @ show_nat k @ '' was cancelled while its cancel token was not triggered'')"
| "element_gives G k s (Inl _) out \<longleftrightarrow>
     out = ElFailed (''the internal instance '' @ show_nat k @ '' vanished without sending a terminal event'')"

lemma element_gives_Inr: "element_fault G k s r = Inr s' \<Longrightarrow> element_gives G k s r (ElDone s')"
  by (cases "(G, k, s, r, ElDone s')" rule: element_gives.cases)
    (auto simp: element_fault_def caught_def split: comp.splits)

lemma element_gives_Inl:
  "element_fault G k s r = Inl e \<Longrightarrow> show_map_reduce_error e = Inr text \<Longrightarrow> element_gives G k s r (ElFailed text)"
  by (auto simp: element_fault_def caught_def instance_text_def bind_sum_Inr_iff
    split: sum.splits event.splits comp.splits)

lemma element_gives_unique: "element_gives G k s r out \<Longrightarrow> element_gives G k s r out' \<Longrightarrow> out = out'"
  by (cases "(G, k, s, r, out)" rule: element_gives.cases) (auto split: comp.splits)

text \<open>The shape of the work: children are positions already started, at most the limit at once.\<close>

definition work_shape :: "('f, 'g, 'u) map_reduce_rules \<Rightarrow> nat \<Rightarrow> ('g, 'v, 'u) work \<Rightarrow> bool" where
  "work_shape R n w \<longleftrightarrow> length (w_states w) = n \<and> length (w_failures w) = n \<and> w_next w \<le> n \<and>
     distinct (w_children w) \<and> set (w_children w) \<subseteq> {..<w_next w} \<and> length (w_children w) \<le> mp_limit R"

text \<open>What is known of each element: its initial state, or the outcome of the end it gave.\<close>

fun known ::
  "('g, 'v) fields_ops \<Rightarrow> nat \<Rightarrow> 'g state \<Rightarrow> 'v received option \<Rightarrow> 'g state \<Rightarrow> string option \<Rightarrow> bool" where
  "known G k s0 None s failure \<longleftrightarrow> s = s0 \<and> failure = None"
| "known G k s0 (Some r) s failure \<longleftrightarrow> element_gives G k s0 r (element_outcome_of s failure)"

definition elements_ok ::
  "('g, 'v) fields_ops \<Rightarrow> fault_mode \<Rightarrow> 'g state list \<Rightarrow> ('g, 'v, 'u) work \<Rightarrow> bool" where
  "elements_ok G mode S w \<longleftrightarrow> distinct (map fst (w_ends w)) \<and>
     set (map fst (w_ends w)) = {..<w_next w} - set (w_children w) \<and>
     (\<forall>k < length S. known G k (S ! k) (map_of (w_ends w) k) (w_states w ! k) (w_failures w ! k)) \<and>
     (mode = Strict \<longrightarrow> (\<forall>k < length S. w_failures w ! k = None))"

definition work_inv ::
  "('g, 'v) fields_ops \<Rightarrow> ('f, 'g, 'u) map_reduce_rules \<Rightarrow> fault_mode \<Rightarrow> 'g state list \<Rightarrow> ('g, 'v, 'u) work \<Rightarrow> bool" where
  "work_inv G R mode S w \<longleftrightarrow> work_shape R (length S) w \<and> (case w_at w of
     AtCreation iid \<Rightarrow> w_next w < length S \<and> length (w_children w) < mp_limit R \<and> elements_ok G mode S w
   | AtJoin \<Rightarrow> w_children w \<noteq> [] \<and> (w_next w < length S \<longrightarrow> length (w_children w) = mp_limit R) \<and> elements_ok G mode S w
   | AtStop \<Rightarrow> w_children w \<noteq> []
   | AtEnd (WorkResult u) \<Rightarrow> w_next w = length S \<and> w_children w = [] \<and> elements_ok G mode S w \<and>
       u = mp_reduce R (map (\<lambda>(s, f). element_outcome_of s f) (zip (w_states w) (w_failures w)))
   | AtEnd out \<Rightarrow> True)"

lemma shape_tick [simp]: "work_shape R n (mr_tick w) = work_shape R n w"
  by (simp add: work_shape_def mr_tick_def)

lemma shape_at [simp]: "work_shape R n (w\<lparr>w_at := a\<rparr>) = work_shape R n w"
  by (simp add: work_shape_def)

lemma elements_tick [simp]: "elements_ok G mode S (mr_tick w) = elements_ok G mode S w"
  by (simp add: elements_ok_def mr_tick_def)

lemma elements_at [simp]: "elements_ok G mode S (w\<lparr>w_at := a\<rparr>) = elements_ok G mode S w"
  by (simp add: elements_ok_def)

lemma tick_simps [simp]:
  "w_at (mr_tick w) = w_at w" "w_next (mr_tick w) = w_next w" "w_children (mr_tick w) = w_children w"
  "w_states (mr_tick w) = w_states w" "w_failures (mr_tick w) = w_failures w" "w_ends (mr_tick w) = w_ends w"
  "w_fired (mr_tick w) = w_fired w" "w_tick (mr_tick w) = w_tick w + 1"
  by (simp_all add: mr_tick_def)

lemma stop_cancelled_inv: "work_shape R (length S) w \<Longrightarrow> work_inv G R mode S (stop_cancelled E w)"
  by (simp add: work_inv_def stop_cancelled_def Let_def)

lemma halted_inv: "work_shape R (length S) w \<Longrightarrow> work_inv G R mode S (halted E h w)"
proof (cases h)
  case HaltCancel
  then show "work_shape R (length S) w \<Longrightarrow> ?thesis" by (simp add: halted_def stop_cancelled_inv)
qed (auto simp: halted_def work_inv_def stop_failed_def work_shape_def)

lemma begin_start_inv:
  "work_shape R (length S) w \<Longrightarrow> elements_ok G mode S w \<Longrightarrow> w_next w < length S \<Longrightarrow>
   length (w_children w) < mp_limit R \<Longrightarrow> work_inv G R mode S (begin_start E w)"
  by (auto simp: begin_start_def Let_def halted_inv work_inv_def[of _ _ _ _ "w_at_update _ _"] split: sum.split)

lemma complete_inv:
  assumes "work_shape R (length S) w" "elements_ok G mode S w" "0 < mp_limit R"
  shows "work_inv G R mode S (complete R E w)"
proof -
  have l: "length (w_states w) = length S" "w_next w \<le> length S" "length (w_children w) \<le> mp_limit R"
    using assms(1) by (auto simp: work_shape_def)
  have b: "work_inv G R mode S (begin_start E (mr_tick w))"
    if "w_next w < length S" "length (w_children w) < mp_limit R"
    using assms that by (intro begin_start_inv) simp_all
  have f: "work_inv G R mode S (finish_work R E w)" if "w_children w = []" "w_next w = length S"
    using assms that by (simp add: work_inv_def finish_work_def Let_def)
  have j: "work_inv G R mode S (w\<lparr>w_at := AtJoin\<rparr>)"
    if "w_children w \<noteq> []" "w_next w < length S \<longrightarrow> length (w_children w) = mp_limit R"
    using assms that by (simp add: work_inv_def)
  show ?thesis
    using b f j l assms(1,3) by (auto simp: complete_def Let_def halted_inv)
qed

lemma element_end_Inr:
  "element_end G E k r w = Inr w' \<longleftrightarrow>
     (case r of Inr EvCancelled \<Rightarrow> \<not> scope_triggered E w | _ \<Rightarrow> True) \<and>
     (\<exists>s. element_fault G k (w_states w ! k) r = Inr s \<and> w' = w\<lparr>w_states := (w_states w)[k := s]\<rparr>)"
  by (auto simp: element_end_def split: sum.splits event.splits)

text \<open>A received end that does not stop the work is recorded for its element.\<close>

lemma receive_Inr:
  assumes "receive G E mode k r w = Inr w'"
  shows "(\<exists>s. element_fault G k (w_states w ! k) r = Inr s \<and> w' = w\<lparr>w_states := (w_states w)[k := s]\<rparr>) \<or>
    (\<exists>e text. mode = NonStrict \<and> element_fault G k (w_states w ! k) r = Inl e \<and> show_map_reduce_error e = Inr text
       \<and> w' = w\<lparr>w_failures := (w_failures w)[k := Some text]\<rparr>)"
  using assms
  by (auto simp: receive_def element_end_def split: sum.splits halt.splits if_splits)

lemma element_recorded:
  assumes inv: "work_shape R (length S) w" "elements_ok G mode S w" and k: "k \<in> set (w_children w)"
    and rec: "receive G E mode k r (join_child k r w) = Inr w'"
  shows "work_shape R (length S) w' \<and> elements_ok G mode S w' \<and> w_at w' = w_at w \<and> w_next w' = w_next w
    \<and> w_children w' = remove1 k (w_children w)"
proof -
  have kn: "k < w_next w" "w_next w \<le> length S" "k < length S" using inv(1) k by (auto simp: work_shape_def)
  have fresh: "map_of (w_ends w) k = None" using inv(2) k by (auto simp: elements_ok_def map_of_eq_None_iff)
  then have st: "w_states w ! k = S ! k" "w_failures w ! k = None"
    using inv(2) kn(3) by (auto simp: elements_ok_def)
  define v where "v = join_child k r w"
  have v: "w_states v = w_states w" "w_failures v = w_failures w" "w_next v = w_next w" "w_at v = w_at w"
    "w_children v = remove1 k (w_children w)" "w_ends v = w_ends w @ [(k, r)]"
    by (simp_all add: v_def join_child_def)
  have ends: "w_ends w' = w_ends w @ [(k, r)]" "w_next w' = w_next w" "w_children w' = remove1 k (w_children w)"
    "w_at w' = w_at w"
    using receive_Inr[OF rec] by (auto simp: join_child_def)
  have lookup: "map_of (w_ends w') j = (if j = k then Some r else map_of (w_ends w) j)" for j
    using fresh by (auto simp: ends map_add_def split: option.splits)
  have other: "w_states w' ! j = w_states w ! j \<and> w_failures w' ! j = w_failures w ! j" if "j \<noteq> k" for j
    using receive_Inr[OF rec] that by (auto simp: join_child_def)
  have this_one: "element_gives G k (S ! k) r (element_outcome_of (w_states w' ! k) (w_failures w' ! k))"
    using receive_Inr[OF rec] st kn(3) inv(1)
    by (auto simp: join_child_def element_outcome_of_def work_shape_def intro: element_gives_Inr element_gives_Inl)
  have strict: "mode = Strict \<Longrightarrow> w_failures w' = w_failures w"
    using receive_Inr[OF rec] by (auto simp: join_child_def)
  have shape: "work_shape R (length S) w'"
    using receive_Inr[OF rec] inv(1) by (auto simp: join_child_def work_shape_def length_remove1 dest: notin_set_remove1 split: if_splits)
  have keys: "set (map fst (w_ends w')) = {..<w_next w'} - set (w_children w')" "distinct (map fst (w_ends w'))"
    using inv kn(1) k fresh by (auto simp: ends elements_ok_def work_shape_def map_of_eq_None_iff)
  have "known G j (S ! j) (map_of (w_ends w') j) (w_states w' ! j) (w_failures w' ! j)"
    if "j < length S" for j
    using inv(2) that this_one other[of j] by (cases "j = k") (auto simp: lookup elements_ok_def)
  then have "elements_ok G mode S w'"
    using keys strict inv(2) unfolding elements_ok_def by simp
  then show ?thesis using shape ends by simp
qed

lemma select_signals_same:
  assumes "select_signals E w = (w', h)"
  shows "work_shape R n w' = work_shape R n w" "elements_ok G mode S w' = elements_ok G mode S w"
    "w_at w' = w_at w" "w_next w' = w_next w" "w_children w' = w_children w" "w_ends w' = w_ends w"
    "w_states w' = w_states w"
  using assms by (auto simp: select_signals_def Let_def split: if_splits)

lemma join_shape: "work_shape R n w \<Longrightarrow> work_shape R n (join_child k r w)"
  by (auto simp: work_shape_def join_child_def length_remove1 dest: notin_set_remove1)

lemma continue_inv:
  assumes "work_shape R (length S) w" "\<And>w'. res = Inr w' \<Longrightarrow> work_inv G R mode S (k w')"
  shows "work_inv G R mode S (continue_with E k w res)"
  using assms by (auto simp: continue_with_def halted_inv split: sum.split)

lemma created_Inr:
  assumes "work_shape R (length S) w" "elements_ok G mode S w" "w_next w < length S"
    "length (w_children w) < mp_limit R" "created E iid res w = Inr w'"
  shows "work_shape R (length S) w' \<and> elements_ok G mode S w' \<and> w_next w' = w_next w + 1
    \<and> length (w_children w') = length (w_children w) + 1"
proof -
  have w': "w' = w\<lparr>w_children := w_children w @ [w_next w], w_next := w_next w + 1\<rparr>"
    using assms(5) by (auto simp: created_def Let_def split: sum.splits prod.splits if_splits)
  have sub: "set (w_children w) \<subseteq> {..<w_next w}" using assms(1) by (simp add: work_shape_def)
  then have "w_next w \<notin> set (w_children w)" by auto
  then have "work_shape R (length S) w'" using assms(1,3,4) by (auto simp: w' work_shape_def less_Suc_eq)
  moreover have "{..<w_next w + 1} - set (w_children w @ [w_next w]) = {..<w_next w} - set (w_children w)"
    by auto
  then have "elements_ok G mode S w'" using assms(2) unfolding w' elements_ok_def by simp
  ultimately show ?thesis by (simp add: w')
qed

lemma signals_then:
  assumes inv: "work_shape R (length S) w"
    and none: "\<And>w'. select_signals E w = (w', None) \<Longrightarrow> work_inv G R mode S (k w')"
  shows "work_inv G R mode S (case select_signals E w of (w', Some h) \<Rightarrow> halted E h w' | (w', None) \<Rightarrow> k w')"
proof (cases "select_signals E w")
  case (Pair w' h)
  have "work_shape R (length S) w'" using inv by (simp add: select_signals_same[OF Pair])
  then show ?thesis using none[of w'] Pair by (cases h) (simp_all add: halted_inv)
qed

lemma work_step_inv:
  assumes lim: "0 < mp_limit R" and inv: "work_inv G R mode S w"
  shows "work_inv G R mode S (work_step G R mode E w wake)"
proof (cases "w_at w")
  case (AtCreation iid)
  have at: "work_shape R (length S) w" "elements_ok G mode S w" "w_next w < length S"
    "length (w_children w) < mp_limit R"
    using inv AtCreation by (simp_all add: work_inv_def)
  have "work_inv G R mode S (case wake of
      ChildEnd position received \<Rightarrow>
           if position \<in> set (w_children v) then
             let v = join_child position received v in
             continue_with E (\<lambda>w. w) v (receive G E mode position received v)
           else v
       | ChildBroken position \<Rightarrow> if position \<in> set (w_children v) then halted E HaltDropped v else v
       | CreationDone result \<Rightarrow> continue_with E (complete R E) v (created E iid result v)
       | SpuriousWake \<Rightarrow> v)" if v: "select_signals E w = (v, None)" for v
  proof -
    note same = select_signals_same[OF v]
    have vi: "work_shape R (length S) v" "elements_ok G mode S v" "w_next v < length S"
      "length (w_children v) < mp_limit R" "w_at v = AtCreation iid"
      using at AtCreation by (simp_all add: same)
    then have "work_inv G R mode S v" by (simp add: work_inv_def)
    moreover have "work_inv G R mode S (continue_with E (\<lambda>w. w) (join_child p r v) (receive G E mode p r (join_child p r v)))"
      if "p \<in> set (w_children v)" for p r
      using vi element_recorded[OF vi(1,2) that] that
      by (intro continue_inv join_shape) (fastforce simp: work_inv_def length_remove1)+
    moreover have "work_inv G R mode S (continue_with E (complete R E) v (created E iid res v))" for res
      using vi(1) created_Inr[OF vi(1-4)] lim by (intro continue_inv) (auto intro: complete_inv)
    ultimately show ?thesis
      using vi(1) by (cases wake) (auto simp: Let_def halted_inv)
  qed
  then show ?thesis unfolding work_step_def AtCreation by (simp, intro signals_then[OF at(1)])
next
  case AtJoin
  have at: "work_shape R (length S) w" "elements_ok G mode S w" "w_children w \<noteq> []"
    using inv AtJoin by (simp_all add: work_inv_def)
  have "work_inv G R mode S (case wake of
      ChildEnd position received \<Rightarrow>
           if position \<in> set (w_children v) then
             let v = join_child position received v in
             continue_with E (complete R E) v (receive G E mode position received v)
           else v
       | ChildBroken position \<Rightarrow> if position \<in> set (w_children v) then halted E HaltDropped v else v
       | _ \<Rightarrow> v)" if v: "select_signals E w = (v, None)" for v
  proof -
    note same = select_signals_same[OF v]
    have vi: "work_shape R (length S) v" "elements_ok G mode S v" using at by (simp_all add: same)
    have "work_inv G R mode S v" using inv AtJoin by (simp add: work_inv_def same)
    moreover have "work_inv G R mode S (continue_with E (complete R E) (join_child p r v) (receive G E mode p r (join_child p r v)))"
      if "p \<in> set (w_children v)" for p r
      using vi element_recorded[OF vi that] lim
      by (intro continue_inv join_shape) (auto intro: complete_inv)
    ultimately show ?thesis using vi(1) by (cases wake) (auto simp: Let_def halted_inv)
  qed
  then show ?thesis unfolding work_step_def AtJoin by (simp, intro signals_then[OF at(1)])
next
  case AtStop
  then have s: "work_shape R (length S) w" using inv by (simp add: work_inv_def)
  then have "work_shape R (length S) (w\<lparr>w_children := remove1 p (w_children w)\<rparr>)" for p
    by (auto simp: work_shape_def length_remove1 dest: notin_set_remove1)
  then show ?thesis using s AtStop by (cases wake) (simp_all add: work_step_def stop_cancelled_inv)
next
  case (AtEnd out)
  then show ?thesis using inv by (simp add: work_step_def)
qed

lemma work_new_ok: "work_shape R (length S) (work_new S) \<and> elements_ok G mode S (work_new S)"
  by (simp add: work_shape_def elements_ok_def work_new_def)

lemma work_run_inv:
  assumes lim: "0 < mp_limit R" and S: "initial_states G R size_limit s = Inr S"
  shows "work_inv G R mode S (work_run G R mode E size_limit s wakes)"
proof -
  have "work_inv G R mode S (foldl (work_step G R mode E) w wakes)" if "work_inv G R mode S w" for w
    using that by (induction wakes arbitrary: w) (simp_all add: work_step_inv[OF lim])
  moreover have "work_inv G R mode S (complete R E (work_new S))"
    using lim by (intro complete_inv) (simp_all add: work_new_ok)
  ultimately show ?thesis using S by (simp add: work_run_def)
qed

section \<open>Progress\<close>

text \<open>
  What is left to do: a start and an end for each element not started, an end for each child, and
  the end of the work or of the wait after a cancellation.
\<close>

definition todo :: "('g, 'v, 'u) work \<Rightarrow> nat" where
  "todo w = (case w_at w of AtEnd _ \<Rightarrow> 0
     | AtStop \<Rightarrow> Suc (length (w_children w))
     | _ \<Rightarrow> Suc (Suc (2 * (length (w_states w) - w_next w) + length (w_children w))))"

text \<open>The wakes an await can get.\<close>

fun awaited_wake :: "('g, 'v, 'u) work \<Rightarrow> ('g, 'v) mr_wake \<Rightarrow> bool" where
  "awaited_wake w (ChildEnd p r) = (p \<in> set (w_children w))"
| "awaited_wake w (ChildBroken p) = (p \<in> set (w_children w))"
| "awaited_wake w (CreationDone res) = (case w_at w of AtCreation _ \<Rightarrow> True | _ \<Rightarrow> False)"
| "awaited_wake w SpuriousWake = False"

lemma todo_stop: "todo (stop_cancelled E w) \<le> Suc (length (w_children w))"
  by (simp add: stop_cancelled_def Let_def todo_def)

lemma todo_halted: "todo (halted E h w) \<le> Suc (length (w_children w))"
  using todo_stop[of E w] by (cases h) (simp_all add: halted_def stop_failed_def todo_def)

lemma todo_complete: "todo (complete R E w) \<le> Suc (Suc (2 * (length (w_states w) - w_next w) + length (w_children w)))"
proof -
  define b where "b = Suc (Suc (2 * (length (w_states w) - w_next w) + length (w_children w)))"
  have halt: "todo (halted E h (mr_tick w)) \<le> b" "todo (halted E h (mr_tick (mr_tick w))) \<le> b" for h
    using todo_halted[of E h "mr_tick w"] todo_halted[of E h "mr_tick (mr_tick w)"] by (simp_all add: b_def)
  have "todo (begin_start E (mr_tick w)) \<le> b"
  proof (cases "instance_id_new (me_uuids E) (me_now_v7 E (w_tick (mr_tick (mr_tick w))))")
    case (Inl v)
    then show ?thesis using halt(2) by (simp add: begin_start_def Let_def)
  qed (simp add: begin_start_def Let_def todo_def b_def)
  moreover have "todo (finish_work R E w) \<le> b" "todo (w\<lparr>w_at := AtJoin\<rparr>) \<le> b"
    by (simp_all add: finish_work_def Let_def todo_def b_def)
  ultimately show ?thesis using halt(1) unfolding b_def[symmetric] by (simp add: complete_def Let_def)
qed

lemma children_less: "k \<in> set xs \<Longrightarrow> length (remove1 k xs) < length xs"
  by (induction xs) auto

lemma todo_receive:
  assumes "receive G E mode k r (join_child k r w) = Inr w'" "k \<in> set (w_children w)"
  shows "length (w_states w') = length (w_states w)" "w_next w' = w_next w"
    "length (w_children w') < length (w_children w)" "w_at w' = w_at w"
  using receive_Inr[OF assms(1)] children_less[OF assms(2)] by (auto simp: join_child_def)

lemma todo_child:
  assumes k: "k \<in> set (w_children w)" and c: "\<And>v. todo (c v) \<le> Suc (Suc (2 * (length (w_states v) - w_next v) + length (w_children v)))"
  shows "todo (continue_with E c (join_child k r w) (receive G E mode k r (join_child k r w)))
    < Suc (Suc (2 * (length (w_states w) - w_next w) + length (w_children w)))"
proof (cases "receive G E mode k r (join_child k r w)")
  case (Inl h)
  then show ?thesis
    using todo_halted[of E h "join_child k r w"] children_less[OF k] by (simp add: continue_with_def join_child_def)
next
  case (Inr w')
  then show ?thesis using c[of w'] todo_receive[OF Inr k] by (simp add: continue_with_def)
qed

section \<open>A concrete work\<close>

definition demo_mr :: "(nat, nat, nat) map_reduce_rules" where
  "demo_mr = \<lparr>mp_name = ''fan'', mp_map = (\<lambda>s. [fields_of s, 2]), mp_limit = 1,
     mp_reduce = (\<lambda>outs. sum_list (map (\<lambda>out. case out of ElDone s \<Rightarrow> fields_of s | ElFailed _ \<Rightarrow> 50) outs))\<rparr>"

definition demo_mr_env :: mr_env where
  "demo_mr_env = \<lparr>me_trigger_at = None, me_drop_at = None,
     me_uuids = \<lparr>version_num = (\<lambda>_. 7), is_rfc4122 = (\<lambda>_. True), show_uuid = (\<lambda>_. ''id'')\<rparr>, me_now_v7 = of_nat\<rparr>"

definition demo_el :: "nat state" where
  "demo_el = \<lparr>fields_of = 4, limit_of = 9, size_of = 1\<rparr>"

text \<open>The first element fails, the second gives 2 + 3.\<close>

definition demo_mr_wakes :: "(nat, nat) mr_wake list" where
  "demo_mr_wakes = [CreationDone (Inr (Inr (2, core_new))), ChildEnd 0 (Inr (EvRefused (Reason ''no''))),
     CreationDone (Inr (Inr (8, core_new))), ChildEnd 1 (Inr (EvResult 3))]"

section \<open>Where the ends come from\<close>

text \<open>The ends of internal instances among the wakes.\<close>

definition child_ends :: "('g, 'v) mr_wake list \<Rightarrow> (nat \<times> 'v received) list" where
  "child_ends wakes = List.map_filter (\<lambda>wake. case wake of ChildEnd k r \<Rightarrow> Some (k, r) | _ \<Rightarrow> None) wakes"

lemma child_ends_mem: "(k, r) \<in> set (child_ends wakes) \<longleftrightarrow> ChildEnd k r \<in> set wakes"
  by (induction wakes) (auto simp: child_ends_def List.map_filter_simps split: mr_wake.splits)

lemma stop_kept [simp]: "w_ends (stop_cancelled E w) = w_ends w" "w_states (stop_cancelled E w) = w_states w"
  by (simp_all add: stop_cancelled_def Let_def)

lemma halted_kept [simp]: "w_ends (halted E h w) = w_ends w" "w_states (halted E h w) = w_states w"
  by (cases h; simp add: halted_def stop_failed_def)+

lemma complete_kept [simp]: "w_ends (complete R E w) = w_ends w"
  by (simp add: complete_def begin_start_def finish_work_def Let_def split: sum.split)

lemma receive_ends: "receive G E mode k r w = Inr w' \<Longrightarrow> w_ends w' = w_ends w"
  using receive_Inr [of G E mode k r w w'] by auto

lemma created_ends: "created E iid res w = Inr w' \<Longrightarrow> w_ends w' = w_ends w"
  by (auto simp: created_def Let_def split: sum.splits prod.splits if_splits)

lemma child_ends_cons: "set (child_ends (wake # wakes)) =
    (case wake of ChildEnd k r \<Rightarrow> {(k, r)} | _ \<Rightarrow> {}) \<union> set (child_ends wakes)"
  by (cases wake) (simp_all add: child_ends_def List.map_filter_simps)

text \<open>A step takes at most the end of its own wake.\<close>

lemma step_takes:
  "w_ends (work_step G R mode E w wake) = w_ends w \<or>
   (\<exists>k r. wake = ChildEnd k r \<and> w_ends (work_step G R mode E w wake) = w_ends w @ [(k, r)])"
proof -
  obtain v h where v: "select_signals E w = (v, h)"
    by fastforce
  have same: "w_ends v = w_ends w"
    using select_signals_same(6) [OF v] .
  have taken: "w_ends (continue_with E f (join_child k r v) (receive G E mode k r (join_child k r v))) = w_ends w @ [(k, r)]"
    if "\<And>x. w_ends (f x) = w_ends x" for f k r
    using that receive_ends [of G E mode k r "join_child k r v"] same
    by (auto simp: continue_with_def join_child_def split: sum.split)
  have made: "w_ends (continue_with E (complete R E) v (created E iid res v)) = w_ends w" for iid res
    using created_ends [of E iid res v] same by (auto simp: continue_with_def split: sum.split)
  show ?thesis
  proof (cases "w_at w")
    case (AtCreation iid)
    then show ?thesis
      using v same taken made by (cases h; cases wake) (auto simp: work_step_def Let_def)
  next
    case AtJoin
    then show ?thesis
      using v same taken by (cases h; cases wake) (auto simp: work_step_def Let_def)
  next
    case AtStop
    then show ?thesis by (cases wake) (auto simp: work_step_def)
  qed (simp add: work_step_def)
qed

lemma run_takes:
  assumes "initial_states G R lim s = Inr S"
  shows "set (w_ends (work_run G R mode E lim s wakes)) \<subseteq> set (child_ends wakes)"
proof -
  have "set (w_ends (foldl (work_step G R mode E) w wakes)) \<subseteq> set (w_ends w) \<union> set (child_ends wakes)" for w
  proof (induction wakes arbitrary: w)
    case (Cons wake wakes)
    have "set (w_ends (work_step G R mode E w wake)) \<subseteq> set (w_ends w) \<union> (case wake of ChildEnd k r \<Rightarrow> {(k, r)} | _ \<Rightarrow> {})"
      using step_takes [of G R mode E w wake] by auto
    then show ?case
      using Cons.IH [of "work_step G R mode E w wake"] unfolding child_ends_cons foldl.simps by blast
  qed simp
  from this [of "complete R E (work_new S)"] show ?thesis
    using assms by (simp add: work_run_def work_new_def)
qed

text \<open>What a work that gives a result has: an end of its own for each element.\<close>

lemma result_outcomes:
  assumes "0 < mp_limit R" "w_at (work_run G R mode E lim s wakes) = AtEnd (WorkResult u)"
  obtains S outs where "initial_states G R lim s = Inr S" "length outs = length S" "u = mp_reduce R outs"
    "\<forall>k < length S. \<exists>r. ChildEnd k r \<in> set wakes \<and> element_gives G k (S ! k) r (outs ! k)"
    "mode = Strict \<longrightarrow> (\<forall>k < length S. outcome_failure (outs ! k) = None)"
proof (cases "initial_states G R lim s")
  case (Inl e)
  then show ?thesis using assms(2) by (simp add: work_run_def)
next
  case (Inr S)
  define w where "w = work_run G R mode E lim s wakes"
  define outs where "outs = map (\<lambda>(s, f). element_outcome_of s f) (zip (w_states w) (w_failures w))"
  have inv: "work_inv G R mode S w"
    unfolding w_def by (rule work_run_inv [OF assms(1) Inr])
  then have len: "length (w_states w) = length S" "length (w_failures w) = length S"
    and el: "elements_ok G mode S w" and e: "w_next w = length S" "w_children w = []"
    and u: "u = mp_reduce R outs"
    using assms(2) by (auto simp: work_inv_def work_shape_def w_def [symmetric] outs_def)
  have out: "outs ! k = element_outcome_of (w_states w ! k) (w_failures w ! k)" if "k < length S" for k
    using that len by (simp add: outs_def)
  have "\<exists>r. ChildEnd k r \<in> set wakes \<and> element_gives G k (S ! k) r (outs ! k)" if k: "k < length S" for k
  proof -
    have "k \<in> set (map fst (w_ends w))"
      using el e k by (simp add: elements_ok_def)
    then obtain r where r: "map_of (w_ends w) k = Some r"
      by (cases "map_of (w_ends w) k") (simp_all add: map_of_eq_None_iff flip: set_map)
    then have "ChildEnd k r \<in> set wakes"
      using map_of_SomeD [OF r] run_takes [OF Inr, of mode E wakes] by (auto simp: w_def child_ends_mem)
    moreover have "known G k (S ! k) (map_of (w_ends w) k) (w_states w ! k) (w_failures w ! k)"
      using el k by (simp add: elements_ok_def)
    ultimately show ?thesis
      using r out [OF k] by auto
  qed
  moreover have "mode = Strict \<longrightarrow> (\<forall>k < length S. outcome_failure (outs ! k) = None)"
    using el out by (simp add: elements_ok_def element_outcome_of_def outcome_failure_def)
  moreover have "length outs = length S"
    using len by (simp add: outs_def)
  ultimately show ?thesis
    using that Inr u by blast
qed

section \<open>Properties\<close>

text \<open>
  C21: the update of a map-reduce node is \<open>reduce\<close> of one outcome for each element in map order, where
  the outcome of an element is what the documentation says of an end that its own internal instance
  gave: its initial state with the update it sent, or the failure that names its fault; under \<open>Strict\<close>
  none is a failure.
\<close>

theorem map_reduce_outcomes:
  assumes "0 < mp_limit R" "w_at (work_run G R mode E size_limit s wakes) = AtEnd (WorkResult u)"
  shows "\<exists>S outs. initial_states G R size_limit s = Inr S \<and> length outs = length S \<and> u = mp_reduce R outs \<and>
    (\<forall>k < length S. \<exists>r. ChildEnd k r \<in> set wakes \<and> element_gives G k (S ! k) r (outs ! k)) \<and>
    (mode = Strict \<longrightarrow> (\<forall>k < length S. outcome_failure (outs ! k) = None))"
  using result_outcomes [OF assms] by metis

lemma demo_mr_result:
  "w_at (work_run nat_fields demo_mr NonStrict demo_mr_env 9 demo_el demo_mr_wakes) = AtEnd (WorkResult 55)"
  "0 < mp_limit demo_mr"
proof -
  show "w_at (work_run nat_fields demo_mr NonStrict demo_mr_env 9 demo_el demo_mr_wakes) = AtEnd (WorkResult 55)"
    by code_simp
qed (simp add: demo_mr_def)

theorem map_reduce_outcomes_witness:
  "\<exists>outs. 55 = mp_reduce demo_mr outs \<and>
     outs ! 0 = ElFailed ''the internal instance 0 refused its input: no'' \<and> length outs = 2"
proof -
  have S: "initial_states nat_fields demo_mr 9 demo_el = Inr [demo_el, \<lparr>fields_of = 2, limit_of = 9, size_of = 1\<rparr>]"
    by code_simp
  have zero: "show_nat 0 = ''0''"
    by code_simp
  obtain outs where o: "55 = mp_reduce demo_mr outs" "length outs = 2"
    "\<forall>k < 2. \<exists>r. ChildEnd k r \<in> set demo_mr_wakes \<and>
       element_gives nat_fields k ([demo_el, \<lparr>fields_of = 2, limit_of = 9, size_of = 1\<rparr>] ! k) r (outs ! k)"
    using map_reduce_outcomes [OF demo_mr_result(2,1)] unfolding S by auto
  then have "\<exists>r. ChildEnd 0 r \<in> set demo_mr_wakes \<and> element_gives nat_fields 0 demo_el r (outs ! 0)"
    by (metis nth_Cons_0 zero_less_numeral)
  then show ?thesis
    using o(1,2) by (intro exI [of _ outs]) (auto simp: demo_mr_wakes_def zero into_string_def)
qed

text \<open>
  C4: the order in which the internal instances end, the limit, the fault mode and the moments at which
  the work looks at its signals do not show in the update: two runs in which each internal instance ends
  once, with the same ends in any order, give the same update when both give one.
\<close>

theorem map_reduce_order_irrelevant:
  assumes "0 < mp_limit R" "w_at (work_run G R mode E size_limit s wakes) = AtEnd (WorkResult u)"
    and "0 < lim" "w_at (work_run G (R\<lparr>mp_limit := lim\<rparr>) mode' E' size_limit s wakes') = AtEnd (WorkResult u')"
    and "distinct (map fst (child_ends wakes))" "set (child_ends wakes') = set (child_ends wakes)"
  shows "u' = u"
proof -
  obtain S outs where a: "initial_states G R size_limit s = Inr S" "length outs = length S" "u = mp_reduce R outs"
    "\<forall>k < length S. \<exists>r. ChildEnd k r \<in> set wakes \<and> element_gives G k (S ! k) r (outs ! k)"
    using result_outcomes [OF assms(1,2)] .
  obtain S' outs' where b: "initial_states G (R\<lparr>mp_limit := lim\<rparr>) size_limit s = Inr S'" "length outs' = length S'"
    "u' = mp_reduce R outs'"
    "\<forall>k < length S'. \<exists>r. ChildEnd k r \<in> set wakes' \<and> element_gives G k (S' ! k) r (outs' ! k)"
    using assms(3) by (rule_tac result_outcomes [OF _ assms(4)]) simp_all
  have S: "S' = S"
    using a(1) b(1) by (simp add: initial_states_def)
  have "outs' ! k = outs ! k" if k: "k < length S" for k
  proof -
    obtain r r' where r: "(k, r) \<in> set (child_ends wakes)" "element_gives G k (S ! k) r (outs ! k)"
      and r': "(k, r') \<in> set (child_ends wakes)" "element_gives G k (S ! k) r' (outs' ! k)"
      using a(4) b(4) k unfolding S child_ends_mem [symmetric] assms(6) by blast
    then have "r' = r"
      using assms(5) by (meson eq_key_imp_eq_value)
    then show ?thesis
      using r r' element_gives_unique by blast
  qed
  then have "outs' = outs"
    using a(2) b(2) S by (intro nth_equalityI) simp_all
  then show ?thesis
    using a(3) b(3) by simp
qed

definition is_result :: "'u mr_at \<Rightarrow> bool" where
  "is_result a = (case a of AtEnd (WorkResult _) \<Rightarrow> True | _ \<Rightarrow> False)"

text \<open>The same ends with both internal instances live at once, the second ending first.\<close>

definition demo_mr_swapped :: "(nat, nat) mr_wake list" where
  "demo_mr_swapped = [CreationDone (Inr (Inr (2, core_new))), CreationDone (Inr (Inr (6, core_new))),
     ChildEnd 1 (Inr (EvResult 3)), ChildEnd 0 (Inr (EvRefused (Reason ''no'')))]"

theorem map_reduce_order_irrelevant_witness:
  "w_at (work_run nat_fields (demo_mr\<lparr>mp_limit := 2\<rparr>) NonStrict demo_mr_env 9 demo_el demo_mr_swapped) = AtEnd (WorkResult 55)"
proof -
  have "is_result (w_at (work_run nat_fields (demo_mr\<lparr>mp_limit := 2\<rparr>) NonStrict demo_mr_env 9 demo_el demo_mr_swapped))"
    by code_simp
  then obtain u where u:
    "w_at (work_run nat_fields (demo_mr\<lparr>mp_limit := 2\<rparr>) NonStrict demo_mr_env 9 demo_el demo_mr_swapped) = AtEnd (WorkResult u)"
    by (auto simp: is_result_def split: mr_at.splits work_outcome.splits)
  have "child_ends demo_mr_wakes = [(0, Inr (EvRefused (Reason ''no''))), (1, Inr (EvResult 3))]"
    "child_ends demo_mr_swapped = [(1, Inr (EvResult 3)), (0, Inr (EvRefused (Reason ''no'')))]"
    by (simp_all add: child_ends_def demo_mr_wakes_def demo_mr_swapped_def List.map_filter_simps)
  then have "u = 55"
    using map_reduce_order_irrelevant [OF demo_mr_result(2,1), of 2 NonStrict demo_mr_env demo_mr_swapped u] u by auto
  with u show ?thesis by simp
qed


text \<open>
  C20: at most \<open>limit\<close> internal instances are live at once, the one being created included, each of
  another element, whatever the wakes are.
\<close>

theorem map_reduce_limit:
  assumes "0 < mp_limit R"
  shows "length (w_children (work_run G R mode E size_limit s wakes)) +
      (case w_at (work_run G R mode E size_limit s wakes) of AtCreation _ \<Rightarrow> 1 | _ \<Rightarrow> 0) \<le> mp_limit R
    \<and> distinct (w_children (work_run G R mode E size_limit s wakes))"
proof (cases "initial_states G R size_limit s")
  case (Inl e)
  then show ?thesis by (simp add: work_run_def work_new_def)
next
  case (Inr S)
  from work_run_inv[OF assms Inr, of mode E wakes] show ?thesis
    by (auto simp: work_inv_def work_shape_def split: mr_at.splits)
qed


theorem map_reduce_limit_witness:
  "length (w_children (work_run nat_fields demo_mr Strict demo_mr_env 9 \<lparr>fields_of = 4, limit_of = 9, size_of = 1\<rparr>
     [CreationDone (Inr (Inr (2, core_new)))])) = 1 \<and> mp_limit demo_mr = 1"
proof -
  have l: "0 < mp_limit demo_mr" by (simp add: demo_mr_def)
  have "0 < length (w_children (work_run nat_fields demo_mr Strict demo_mr_env 9 \<lparr>fields_of = 4, limit_of = 9, size_of = 1\<rparr>
     [CreationDone (Inr (Inr (2, core_new)))]))" by code_simp
  moreover have "mp_limit demo_mr = 1" by (simp add: demo_mr_def)
  ultimately show ?thesis
    using map_reduce_limit[OF l, of nat_fields Strict demo_mr_env 9 "\<lparr>fields_of = 4, limit_of = 9, size_of = 1\<rparr>"
        "[CreationDone (Inr (Inr (2, core_new)))]"] by linarith
qed

text \<open>
  C22: the work comes to an end: every wake an await was waiting for brings it closer, so that it
  ends after at most two wakes for each element (its creation and its end) and two more.
\<close>

theorem map_reduce_progress:
  assumes "0 < mp_limit R" "work_inv G R mode S w" "awaited_wake w wake" "\<forall>out. w_at w \<noteq> AtEnd out"
  shows "todo (work_step G R mode E w wake) < todo w"
proof (cases "w_at w")
  case (AtCreation iid)
  note inv = assms(2)[unfolded work_inv_def AtCreation, simplified]
  obtain v h where v: "select_signals E w = (v, h)" by fastforce
  note same = select_signals_same[OF v]
  have td: "todo w = Suc (Suc (2 * (length (w_states v) - w_next v) + length (w_children v)))"
    by (simp add: todo_def AtCreation same)
  have len: "w_next v < length (w_states v)" using inv by (simp add: same work_shape_def)
  have halt: "todo (halted E h' v) < todo w" for h' using todo_halted[of E h' v] td len by linarith
  have stay: "todo (continue_with E (\<lambda>w. w) (join_child p r v) (receive G E mode p r (join_child p r v))) < todo w"
    if "p \<in> set (w_children v)" for p r
    unfolding td by (rule todo_child[OF that]) (auto simp: todo_def split: mr_at.splits)
  have made: "todo (continue_with E (complete R E) v (created E iid res v)) < todo w" for res
  proof (cases "created E iid res v")
    case (Inl h')
    then show ?thesis using halt by (simp add: continue_with_def)
  next
    case (Inr v')
    then have "w_next v' = w_next v + 1" "length (w_children v') = length (w_children v) + 1" "w_states v' = w_states v"
      by (auto simp: created_def Let_def split: sum.splits prod.splits if_splits)
    then show ?thesis using todo_complete[of R E v'] len td by (simp add: continue_with_def Inr)
  qed
  show ?thesis
    using assms(3) halt stay made v
    by (cases h; cases wake) (auto simp: work_step_def AtCreation Let_def same)
next
  case AtJoin
  note inv = assms(2)[unfolded work_inv_def AtJoin, simplified]
  obtain v h where v: "select_signals E w = (v, h)" by fastforce
  note same = select_signals_same[OF v]
  have td: "todo w = Suc (Suc (2 * (length (w_states v) - w_next v) + length (w_children v)))"
    by (simp add: todo_def AtJoin same)
  have halt: "todo (halted E h' v) < todo w" for h' using todo_halted[of E h' v] td by linarith
  have more: "todo (continue_with E (complete R E) (join_child p r v) (receive G E mode p r (join_child p r v))) < todo w"
    if "p \<in> set (w_children v)" for p r
    unfolding td by (rule todo_child[OF that]) (rule todo_complete)
  show ?thesis
    using assms(3) halt more v
    by (cases h; cases wake) (auto simp: work_step_def AtJoin Let_def same)
next
  case AtStop
  have "todo (stop_cancelled E (w\<lparr>w_children := remove1 p (w_children w)\<rparr>)) < todo w" if "p \<in> set (w_children w)" for p
    using todo_stop[of E "w\<lparr>w_children := remove1 p (w_children w)\<rparr>"] children_less[OF that]
    by (simp add: todo_def[of w] AtStop)
  then show ?thesis using assms(3) AtStop by (cases wake) (auto simp: work_step_def)
next
  case (AtEnd out)
  then show ?thesis using assms(4) by simp
qed

theorem map_reduce_progress_witness:
  "todo (work_step nat_fields demo_mr Strict demo_mr_env
      (complete demo_mr demo_mr_env (work_new [\<lparr>fields_of = 4, limit_of = 9, size_of = 1\<rparr>]))
      (CreationDone (Inr (Inr (2, core_new)))))
   < todo (complete demo_mr demo_mr_env (work_new [\<lparr>fields_of = 4, limit_of = 9, size_of = 1\<rparr>]) :: (nat, nat, nat) work)"
proof -
  define w where "w = (complete demo_mr demo_mr_env (work_new [\<lparr>fields_of = 4, limit_of = 9, size_of = 1\<rparr>]) :: (nat, nat, nat) work)"
  have l: "0 < mp_limit demo_mr" by (simp add: demo_mr_def)
  have i: "work_inv nat_fields demo_mr Strict [\<lparr>fields_of = 4, limit_of = 9, size_of = 1\<rparr>] w"
    unfolding w_def using l by (intro complete_inv) (simp_all add: work_new_ok[of demo_mr "[_]", simplified])
  have at: "w_at w = AtCreation 2" unfolding w_def by code_simp
  show ?thesis
    unfolding w_def[symmetric] by (rule map_reduce_progress[OF l i]) (simp_all add: at)
qed

text \<open>
  the cancel token wins: when the trigger is visible at an await, no further internal instance
  is started and whatever the wake brings (a fault too) is not taken: the work waits for its live
  children, or ends as cancelled or dropped.
\<close>

theorem map_reduce_cancel_wins:
  assumes "visible (me_trigger_at E) (w_tick w)"
  shows "w_next (work_step G R mode E w wake) = w_next w \<and>
    ((\<exists>out. w_at w = AtEnd out \<and> w_at (work_step G R mode E w wake) = AtEnd out) \<or>
     w_at (work_step G R mode E w wake) \<in> {AtStop, AtEnd WorkCancelled, AtEnd WorkDropped})"
proof -
  have vis: "visible (me_trigger_at E) (Suc (w_tick w))" "visible (me_trigger_at E) (Suc (Suc (w_tick w)))"
    using assms by (auto simp: visible_def split: option.splits)
  have sig: "\<exists>v h. select_signals E w = (v, Some h) \<and> h \<in> {HaltDropped, HaltCancel} \<and> w_next v = w_next w"
    using vis by (simp add: select_signals_def Let_def)
  then obtain v h where v: "select_signals E w = (v, Some h)" "h \<in> {HaltDropped, HaltCancel}" "w_next v = w_next w"
    by blast
  have stop: "w_at (stop_cancelled E x) \<in> {AtStop, AtEnd WorkCancelled, AtEnd WorkDropped}"
    "w_next (stop_cancelled E x) = w_next x" for x
    by (simp_all add: stop_cancelled_def Let_def)
  have "w_at (halted E h v) \<in> {AtStop, AtEnd WorkCancelled, AtEnd WorkDropped} \<and> w_next (halted E h v) = w_next w"
    using v(2,3) stop[of v] by (auto simp: halted_def)
  then show ?thesis
    using v stop by (cases "w_at w"; cases wake) (auto simp: work_step_def)
qed

theorem map_reduce_cancel_wins_witness:
  "w_at (work_step nat_fields demo_mr Strict (demo_mr_env\<lparr>me_trigger_at := Some 0\<rparr>)
     ((work_new [demo_el])\<lparr>w_children := [0], w_next := 1\<rparr>) (ChildEnd 0 (Inl Finished))) \<noteq> AtEnd (WorkFailed (InternalVanished 0))"
  using map_reduce_cancel_wins[of "demo_mr_env\<lparr>me_trigger_at := Some 0\<rparr>"
      "(work_new [demo_el])\<lparr>w_children := [0], w_next := 1\<rparr>" nat_fields demo_mr Strict "ChildEnd 0 (Inl Finished)"]
  by (auto simp: visible_def work_new_def)

section \<open>Where the faults come from\<close>


text \<open>
  A fault of the node itself: an internal instance that could not be created, carries another id or
  refuses its input, as a creation among the wakes has it.
\<close>

fun node_fault :: "mr_env \<Rightarrow> ('g, 'v) mr_wake list \<Rightarrow> nat \<Rightarrow> map_reduce_error \<Rightarrow> bool" where
  "node_fault E wakes n (InstanceNotCreated k c) \<longleftrightarrow> k < n \<and> ((\<exists>v. c = invalid_id_cause E v) \<or>
     CreationDone (Inr (Inl c)) \<in> set wakes \<or> (\<exists>text. c = Cause (Inr text) \<and> CreationDone (Inl text) \<in> set wakes))"
| "node_fault E wakes n (InstanceIdMismatch k expected returned) \<longleftrightarrow> k < n \<and>
     (\<exists>i core. CreationDone (Inr (Inr (i, core))) \<in> set wakes \<and> returned = show_uuid (me_uuids E) i)"
| "node_fault E wakes n (InputRefused k) \<longleftrightarrow> k < n \<and>
     (\<exists>i core. CreationDone (Inr (Inr (i, core))) \<in> set wakes \<and> \<not> accepts_input core)"
| "node_fault E wakes n e \<longleftrightarrow> False"

text \<open>The fault of an element: the failure its own end gives, or a cause that cannot be shown.\<close>

definition element_faulted ::
  "('g, 'v) fields_ops \<Rightarrow> 'g state list \<Rightarrow> ('g, 'v) mr_wake list \<Rightarrow> map_reduce_error \<Rightarrow> bool" where
  "element_faulted G S wakes e \<longleftrightarrow> (\<exists>k < length S. \<exists>r. ChildEnd k r \<in> set wakes \<and> (case show_map_reduce_error e of
     Inr text \<Rightarrow> element_gives G k (S ! k) r (ElFailed text)
   | Inl text \<Rightarrow> \<exists>c. r = Inr (EvFailed c) \<and> display c = Inl text))"

text \<open>The end of a work that did not give a result, and the wakes so far.\<close>

definition fault_known ::
  "('g, 'v) fields_ops \<Rightarrow> fault_mode \<Rightarrow> mr_env \<Rightarrow> 'g state list \<Rightarrow> ('g, 'v) mr_wake list \<Rightarrow> 'u mr_at \<Rightarrow> bool" where
  "fault_known G mode E S wakes a \<longleftrightarrow> (case a of
     AtEnd (WorkFailed e) \<Rightarrow> node_fault E wakes (length S) e \<or> mode = Strict \<and> element_faulted G S wakes e
   | AtEnd (WorkPanicked text) \<Rightarrow> mode = NonStrict \<and>
       (\<exists>k < length S. \<exists>c. ChildEnd k (Inr (EvFailed c)) \<in> set wakes \<and> display c = Inl text)
   | _ \<Rightarrow> True)"

lemma fault_known_more: "fault_known G mode E S wakes a \<Longrightarrow> set wakes \<subseteq> set wakes' \<Longrightarrow> fault_known G mode E S wakes' a"
  unfolding fault_known_def element_faulted_def
  by (auto split: mr_at.splits work_outcome.splits map_reduce_error.splits elim!: node_fault.elims)











end
