(* ===== verification/Agentic_Mail.thy ===== *)
theory Agentic_Mail
  imports Exec_Run
begin

text \<open>
  The vocabulary of \<open>br-agentic-contract\<close> (\<open>ids.rs\<close>, \<open>error.rs\<close>, \<open>mail.rs\<close>, \<open>inbox.rs\<close>,
  \<open>inbox_entry.rs\<close>) and the queue of unread items (\<open>queue.rs\<close>). The identifiers of
  \<open>br-llm-messages\<close> are UUIDs; its entries are a type \<open>'e\<close> seen through the record \<open>entry_ops\<close>, its
  authors a type \<open>'a\<close>.
\<close>

section \<open>Identifiers\<close>

type_synonym uuid = "128 word"
type_synonym entry_id = uuid
type_synonym agent_id = uuid
type_synonym conversation_id = uuid

datatype thread_ref = ThreadRef uuid

definition UUID_V7 :: nat where
  "UUID_V7 = 7"

definition thread_ref_from_uuid :: "uuid_ops \<Rightarrow> uuid \<Rightarrow> unit + thread_ref" where
  "thread_ref_from_uuid U u = (if version_num U u = UUID_V7 then Inr (ThreadRef u) else Inl ())"

datatype mail_id = MailId (mail_entry_id: entry_id)

datatype agent_label = AgentLabel string

definition agent_label_new :: "string \<Rightarrow> unit + agent_label" where
  "agent_label_new text = (if text = [] then Inl () else Inr (AgentLabel text))"

section \<open>Errors of the ports\<close>

datatype port_error = Refused reason | Fault cause

definition port_refused :: "string \<Rightarrow> port_error" where
  "port_refused text = Refused (Reason text)"

definition port_fault :: "string \<Rightarrow> port_error" where
  "port_fault text = Fault (Cause (Inr text))"

definition is_refusal :: "port_error \<Rightarrow> bool" where
  "is_refusal e = (case e of Refused _ \<Rightarrow> True | Fault _ \<Rightarrow> False)"

section \<open>Mails\<close>

datatype document_ref = DocumentRef string

record attachment =
  at_name :: string
  at_document :: document_ref

record mail_document =
  md_name :: string
  md_content :: "8 word list"

record 'a new_mail =
  nm_id :: mail_id
  nm_author :: 'a
  nm_source :: conversation_id
  nm_to :: "agent_id list"
  nm_cc :: "agent_id list"
  nm_subject :: string
  nm_body :: string
  nm_attachments :: "attachment list"

text \<open>The first element that was seen before it.\<close>

fun find_repeated :: "'b set \<Rightarrow> 'b list \<Rightarrow> 'b option" where
  "find_repeated seen [] = None"
| "find_repeated seen (x # xs) = (if x \<in> seen then Some x else find_repeated (insert x seen) xs)"

definition refusal :: "uuid_ops \<Rightarrow> 'a new_mail \<Rightarrow> reason option" where
  "refusal U m = (if nm_to m = [] then Some (Reason ''a mail needs at least one recipient in to'')
     else map_option (\<lambda>recipient. Reason (''the recipient '' @ show_uuid U recipient @ '' is listed twice''))
       (find_repeated {} (nm_to m @ nm_cc m)))"

lemma find_repeated_None: "find_repeated seen xs = None \<longleftrightarrow> distinct xs \<and> set xs \<inter> seen = {}"
  by (induction xs arbitrary: seen) auto

lemma refusal_None_iff: "refusal U m = None \<longleftrightarrow> nm_to m \<noteq> [] \<and> distinct (nm_to m @ nm_cc m)"
  by (simp add: refusal_def find_repeated_None)

datatype 'a mail_item =
  MailTo mail_id agent_id 'a conversation_id "agent_id list" "agent_id list" string string "string list"
| MailCc mail_id string

fun mail_item_id :: "'a mail_item \<Rightarrow> mail_id" where
  "mail_item_id (MailTo i sender author source to cc subject body names) = i"
| "mail_item_id (MailCc i subject) = i"

fun mail_item_subject :: "'a mail_item \<Rightarrow> string" where
  "mail_item_subject (MailTo i sender author source to cc subject body names) = subject"
| "mail_item_subject (MailCc i subject) = subject"

section \<open>Entries and items\<close>

datatype entry_kind =
  HumanMessage | RequestAccepted | QueuePosition | TaskStarted | TaskCompleted | TaskFailed
| RuntimeNotice | AgentMailEntry | OtherEntry

record ('a, 'e) entry_ops =
  en_id :: "'e \<Rightarrow> entry_id"
  en_kind :: "'e \<Rightarrow> entry_kind"
  en_sender :: "'e \<Rightarrow> agent_id"
  en_author :: "'e \<Rightarrow> 'a"
  en_source :: "'e \<Rightarrow> conversation_id"

definition inbox_entry_new :: "('a, 'e) entry_ops \<Rightarrow> 'e \<Rightarrow> unit + 'e" where
  "inbox_entry_new N e = (case en_kind N e of
     AgentMailEntry \<Rightarrow> Inl () | OtherEntry \<Rightarrow> Inl () | _ \<Rightarrow> Inr e)"

datatype ('a, 'e) inbox_item = ItemMail "'a mail_item" | ItemEntry 'e

definition item_id :: "('a, 'e) entry_ops \<Rightarrow> ('a, 'e) inbox_item \<Rightarrow> entry_id" where
  "item_id N it = (case it of ItemMail m \<Rightarrow> mail_entry_id (mail_item_id m) | ItemEntry e \<Rightarrow> en_id N e)"

datatype cursor = Cursor string

type_synonym 'x page = "'x list \<times> cursor option"

section \<open>The queue of unread items\<close>

type_synonym ('a, 'e) queue = "('a, 'e) inbox_item list"

definition push :: "('a, 'e) entry_ops \<Rightarrow> ('a, 'e) queue \<Rightarrow> ('a, 'e) inbox_item \<Rightarrow> ('a, 'e) queue \<times> bool" where
  "push N q it = (if list_ex (\<lambda>h. item_id N h = item_id N it) q then (q, False) else (q @ [it], True))"

fun push_all :: "('a, 'e) entry_ops \<Rightarrow> ('a, 'e) queue \<Rightarrow> ('a, 'e) inbox_item list \<Rightarrow> ('a, 'e) queue \<times> nat" where
  "push_all N q [] = (q, 0)"
| "push_all N q (it # its) = (case push N q it of (q', fresh) \<Rightarrow>
     (case push_all N q' its of (q'', n) \<Rightarrow> (q'', (if fresh then 1 else 0) + n)))"

definition same_cursor :: port_error where
  "same_cursor = port_fault ''the inbox gave the same cursor twice, the list does not advance''"

text \<open>
  \<open>Queue::read\<close>: \<open>items\<close> is the port, for the cursor it is asked after. A port that never stops
  giving new cursors makes it run for ever: \<open>None\<close>.
\<close>

partial_function (option) read_pages ::
  "('a, 'e) entry_ops \<Rightarrow> (cursor option \<Rightarrow> port_error + ('a, 'e) inbox_item page) \<Rightarrow> cursor option \<Rightarrow> nat \<Rightarrow>
     ('a, 'e) queue \<Rightarrow> (('a, 'e) queue \<times> (port_error + nat)) option" where
  "read_pages N items after added q = (case items after of
     Inl e \<Rightarrow> Some (q, Inl e)
   | Inr (page, next) \<Rightarrow> (case push_all N q page of (q', n) \<Rightarrow>
       (case next of
          None \<Rightarrow> Some (q', Inr (added + n))
        | Some c \<Rightarrow> if after = Some c then Some (q', Inl same_cursor)
            else read_pages N items (Some c) (added + n) q')))"

declare read_pages.simps [code]

definition queue_read ::
  "('a, 'e) entry_ops \<Rightarrow> (cursor option \<Rightarrow> port_error + ('a, 'e) inbox_item page) \<Rightarrow> ('a, 'e) queue \<Rightarrow>
     (('a, 'e) queue \<times> (port_error + nat)) option" where
  "queue_read N items q = read_pages N items None 0 q"

definition restore :: "('a, 'e) inbox_item list \<Rightarrow> ('a, 'e) queue \<Rightarrow> ('a, 'e) queue" where
  "restore its q = its @ q"

section \<open>Lemmas\<close>

definition queue_ids :: "('a, 'e) entry_ops \<Rightarrow> ('a, 'e) queue \<Rightarrow> entry_id list" where
  "queue_ids N q = map (item_id N) q"

lemma push_ids: "distinct (queue_ids N q) \<Longrightarrow> distinct (queue_ids N (fst (push N q it)))"
  by (auto simp: queue_ids_def push_def list_ex_iff image_iff)

lemma push_all_Cons:
  "fst (push_all N q (it # its)) = fst (push_all N (fst (push N q it)) its)"
  "snd (push_all N q (it # its)) = (if snd (push N q it) then 1 else 0) + snd (push_all N (fst (push N q it)) its)"
  by (simp_all add: case_prod_unfold)

lemma push_all_append:
  "fst (push_all N q (xs @ ys)) = fst (push_all N (fst (push_all N q xs)) ys)"
  "snd (push_all N q (xs @ ys)) = snd (push_all N q xs) + snd (push_all N (fst (push_all N q xs)) ys)"
  by (induction xs arbitrary: q) (simp_all add: push_all_Cons del: push_all.simps(2))

lemma push_all_ids: "distinct (queue_ids N q) \<Longrightarrow> distinct (queue_ids N (fst (push_all N q its)))"
  by (induction its arbitrary: q) (simp_all add: push_all_Cons push_ids del: push_all.simps(2))

lemma push_set: "set (queue_ids N (fst (push N q it))) = insert (item_id N it) (set (queue_ids N q))"
  by (auto simp: push_def queue_ids_def list_ex_iff intro: image_eqI[OF sym])

lemma push_all_set: "set (queue_ids N (fst (push_all N q its))) = set (queue_ids N q) \<union> set (queue_ids N its)"
proof (induction its arbitrary: q)
  case (Cons it its)
  then show ?case by (simp add: push_all_Cons push_set del: push_all.simps(2)) (simp add: queue_ids_def)
qed (simp add: queue_ids_def)

lemma push_all_count: "length (fst (push_all N q its)) = length q + snd (push_all N q its)"
  by (induction its arbitrary: q) (simp_all add: push_all_Cons push_def del: push_all.simps(2))

lemma push_all_prefix: "\<exists>new. fst (push_all N q its) = q @ new \<and> set new \<subseteq> set its"
proof (induction its arbitrary: q)
  case (Cons it its)
  obtain new where "fst (push_all N (fst (push N q it)) its) = fst (push N q it) @ new" "set new \<subseteq> set its"
    using Cons.IH by blast
  then show ?case
    by (auto simp: push_all_Cons push_def simp del: push_all.simps(2))
qed simp

section \<open>The contract of an inbox\<close>

text \<open>
  What a reader of an inbox relies on, in every state \<open>I\<close> the inbox can be in (\<open>ok I\<close>): the unread
  items of the agent come in a fixed order, each at a position of its own; a page is the next batch
  after the cursor, and the next cursor, given when more items are left, stands at the last item of
  the page.
\<close>

locale paged_inbox =
  fixes ok :: "'s \<Rightarrow> bool" and items :: "'s \<Rightarrow> nat \<Rightarrow> cursor option \<Rightarrow> port_error + 'x page"
    and unread :: "'s \<Rightarrow> (nat \<times> 'x) list" and position :: "cursor option \<Rightarrow> nat"
  assumes sorted: "ok I \<Longrightarrow> sorted_wrt (<) (map fst (unread I))"
    and start: "position None = 0" "ok I \<Longrightarrow> p \<in> set (map fst (unread I)) \<Longrightarrow> 0 < p"
    and page: "ok I \<Longrightarrow> 0 < batch \<Longrightarrow> after = None \<or> position after \<in> set (map fst (unread I)) \<Longrightarrow>
      \<exists>nxt. items I batch after =
          Inr (map snd (take batch (filter (\<lambda>u. position after < fst u) (unread I))), nxt) \<and>
        (if length (filter (\<lambda>u. position after < fst u) (unread I)) \<le> batch then nxt = None
         else \<exists>c. nxt = Some c \<and>
           position (Some c) = fst (filter (\<lambda>u. position after < fst u) (unread I) ! (batch - 1)))"
begin

definition rest :: "'s \<Rightarrow> cursor option \<Rightarrow> (nat \<times> 'x) list" where
  "rest I after = filter (\<lambda>u. position after < fst u) (unread I)"

lemma filter_after_nth:
  fixes xs :: "(nat \<times> 'x) list"
  assumes "sorted_wrt (<) (map fst xs)" "k < length xs"
  shows "filter (\<lambda>u. fst (xs ! k) < fst u) xs = drop (Suc k) xs"
  using assms
proof (induction xs arbitrary: k)
  case (Cons x xs)
  show ?case
  proof (cases k)
    case 0
    then show ?thesis using Cons.prems by (simp add: filter_id_conv)
  next
    case (Suc j)
    then show ?thesis using Cons.IH[of j] Cons.prems by (auto simp: nth_mem not_less less_imp_le)
  qed
qed simp

lemma rest_None: "ok I \<Longrightarrow> rest I None = unread I"
  using start(2)[of I] by (auto simp: rest_def start(1) filter_id_conv)

lemma rest_next:
  assumes "ok I" "0 < batch" "length (rest I after) > batch"
    "position (Some c) = fst (rest I after ! (batch - 1))"
  shows "rest I (Some c) = drop batch (rest I after)" "position (Some c) \<in> set (map fst (unread I))"
    "position after < position (Some c)"
proof -
  have k: "batch - 1 < length (rest I after)" using assms(3) by simp
  have mem: "rest I after ! (batch - 1) \<in> set (rest I after)" using k by (rule nth_mem)
  then show "position (Some c) \<in> set (map fst (unread I))" "position after < position (Some c)"
    using assms(4) by (auto simp: rest_def)
  have so: "sorted_wrt (<) (map fst (rest I after))"
    using sorted[OF assms(1)] unfolding rest_def by (simp add: sorted_wrt_map sorted_wrt_filter)
  have "rest I (Some c) = filter (\<lambda>u. position (Some c) < fst u) (rest I after)"
    using \<open>position after < position (Some c)\<close> by (auto simp: rest_def filter_filter intro!: filter_cong)
  also have "\<dots> = drop (Suc (batch - 1)) (rest I after)"
    unfolding assms(4) by (rule filter_after_nth[OF so k])
  finally show "rest I (Some c) = drop batch (rest I after)" using assms(2) by simp
qed

end

text \<open>The queue reads every unread item of such an inbox, in order, and returns.\<close>

locale paged_items = paged_inbox ok items unread position
  for ok :: "'s \<Rightarrow> bool" and items :: "'s \<Rightarrow> nat \<Rightarrow> cursor option \<Rightarrow> port_error + ('a, 'e) inbox_item page"
    and unread :: "'s \<Rightarrow> (nat \<times> ('a, 'e) inbox_item) list" and position
begin

lemma read_rest:
  assumes "ok I" "0 < batch" "after = None \<or> position after \<in> set (map fst (unread I))"
  shows "read_pages N (items I batch) after added q =
    Some (fst (push_all N q (map snd (rest I after))), Inr (added + snd (push_all N q (map snd (rest I after)))))"
  using assms(3)
proof (induction "length (rest I after)" arbitrary: after added q rule: less_induct)
  case less
  obtain nxt where p: "items I batch after = Inr (map snd (take batch (rest I after)), nxt)"
    and nx: "if length (rest I after) \<le> batch then nxt = None
      else \<exists>c. nxt = Some c \<and> position (Some c) = fst (rest I after ! (batch - 1))"
    using page[OF assms(1,2) less.prems] unfolding rest_def by blast
  define q1 where "q1 = fst (push_all N q (map snd (take batch (rest I after))))"
  define n1 where "n1 = snd (push_all N q (map snd (take batch (rest I after))))"
  show ?case
  proof (cases "length (rest I after) \<le> batch")
    case True
    then show ?thesis
      using p nx by (subst read_pages.simps) (simp add: case_prod_unfold)
  next
    case False
    then obtain c where c: "nxt = Some c" "position (Some c) = fst (rest I after ! (batch - 1))" using nx by auto
    have len: "batch < length (rest I after)" using False by simp
    note rn = rest_next[OF assms(1,2) len c(2)]
    have other: "after \<noteq> Some c" using rn(3) by auto
    have "read_pages N (items I batch) (Some c) (added + n1) q1 =
      Some (fst (push_all N q1 (map snd (drop batch (rest I after)))),
        Inr (added + n1 + snd (push_all N q1 (map snd (drop batch (rest I after))))))"
      using less.hyps[of "Some c" "added + n1" q1] rn(1,2) len assms(2) by simp
    moreover have "map snd (rest I after) = map snd (take batch (rest I after)) @ map snd (drop batch (rest I after))"
      by (simp flip: map_append)
    ultimately show ?thesis
      using p c(1) other
      by (subst read_pages.simps) (simp add: case_prod_unfold push_all_append q1_def n1_def add.assoc)
  qed
qed

lemma reads_all_unread:
  assumes "ok I" "0 < batch"
  shows "queue_read N (items I batch) q =
    Some (fst (push_all N q (map snd (unread I))), Inr (snd (push_all N q (map snd (unread I)))))"
  using read_rest[OF assms, of None N 0 q] by (simp add: queue_read_def rest_None assms(1))

end

text \<open>
  An inbox that also takes read marks: a mark takes the items with its id out of the unread ones, and
  keeps the order of the others.
\<close>

locale marked_inbox = paged_items ok items unread position
  for ok :: "'s \<Rightarrow> bool" and items :: "'s \<Rightarrow> nat \<Rightarrow> cursor option \<Rightarrow> port_error + ('a, 'e) inbox_item page"
    and unread :: "'s \<Rightarrow> (nat \<times> ('a, 'e) inbox_item) list" and position +
  fixes N :: "('a, 'e) entry_ops" and mark :: "entry_id \<Rightarrow> 's \<Rightarrow> 's"
  assumes mark_ok: "ok I \<Longrightarrow> ok (mark i I)"
    and mark_unread: "ok I \<Longrightarrow> unread (mark i I) = filter (\<lambda>u. item_id N (snd u) \<noteq> i) (unread I)"
begin

lemma marks_unread:
  "ok I \<Longrightarrow> ok (foldl (\<lambda>I i. mark i I) I ids) \<and>
     unread (foldl (\<lambda>I i. mark i I) I ids) = filter (\<lambda>u. item_id N (snd u) \<notin> set ids) (unread I)"
  by (induction ids rule: rev_induct) (auto simp: mark_ok mark_unread filter_filter intro!: filter_cong)

lemma read_ids:
  assumes "ok I" "0 < batch" "queue_read N (items I batch) [] = Some (q, r)"
  shows "r = Inr (length q)" "set (queue_ids N q) = (\<lambda>u. item_id N (snd u)) ` set (unread I)" "distinct (queue_ids N q)"
proof -
  have q: "q = fst (push_all N [] (map snd (unread I)))" "r = Inr (snd (push_all N [] (map snd (unread I))))"
    using reads_all_unread[OF assms(1,2), of N "[]"] assms(3) by simp_all
  show "r = Inr (length q)" using push_all_count[of N "[]" "map snd (unread I)"] by (simp add: q)
  show "set (queue_ids N q) = (\<lambda>u. item_id N (snd u)) ` set (unread I)"
    using push_all_set[of N "[]" "map snd (unread I)"] by (simp add: q queue_ids_def image_image)
  show "distinct (queue_ids N q)" unfolding q by (rule push_all_ids) (simp add: queue_ids_def)
qed

text \<open>What was read and is not marked is exactly what is still unread.\<close>

lemma read_then_marked:
  assumes "ok I" "0 < batch" "queue_read N (items I batch) [] = Some (q, r)"
  shows "(\<lambda>u. item_id N (snd u)) ` set (unread (foldl (\<lambda>I i. mark i I) I ids)) = set (queue_ids N q) - set ids"
  using marks_unread[OF assms(1), of ids] read_ids(2)[OF assms] by auto

end

end
