(* ===== verification/Agentic_Session.thy ===== *)
theory Agentic_Session
  imports Agentic_Mail
begin

text \<open>
  The rules a conversation changes under (\<open>rules.rs\<close>), the thread access a session writes to
  (\<open>thread_access.rs\<close>, \<open>memory/thread.rs\<close>, \<open>memory/record.rs\<close>, \<open>memory/streams.rs\<close>) and the session itself
  (\<open>session.rs\<close>). A conversation and its turns are types of \<open>br-llm-messages\<close>, seen through the record
  \<open>messages\<close>; the thread access is a record of operations on a state of its own.
\<close>

section \<open>Conversations\<close>

text \<open>What an entry id names in a conversation: an entry of an input turn, or one of an AI turn (is it
  incoming?), or something else.\<close>

datatype entry_ref = RefIncoming | RefTurn bool | RefOther

text \<open>
  Input turns, closures, responses and results are named by the turn or entry they become. A change
  of a conversation gives the conversation after it, whether it is refused or not.
\<close>

record ('c, 't, 'ai, 'n, 'e, 'a) messages =
  ms_push_turn :: "'t \<Rightarrow> 'c \<Rightarrow> 'c \<times> (cause + unit)"
  ms_push_entry :: "uuid \<Rightarrow> 'n \<Rightarrow> 'c \<Rightarrow> 'c \<times> (cause + unit)"
  ms_turn :: "uuid \<Rightarrow> 'c \<Rightarrow> cause + 't"
  ms_turns :: "'c \<Rightarrow> 't list"
  ms_entry :: "entry_id \<Rightarrow> 'c \<Rightarrow> cause + entry_ref"
  ms_as_ai :: "'t \<Rightarrow> 'ai option"
  ms_of_ai :: "'ai \<Rightarrow> 't"
  ms_open_ai :: "uuid \<Rightarrow> agent_id \<Rightarrow> 'a \<Rightarrow> 'ai"
  ms_push_ai :: "'n \<Rightarrow> 'ai \<Rightarrow> cause + 'ai"
  ms_ai_id :: "'ai \<Rightarrow> uuid"
  ms_ai_agent :: "'ai \<Rightarrow> agent_id"
  ms_ai_author :: "'ai \<Rightarrow> 'a"
  ms_ai_closed :: "'ai \<Rightarrow> bool"
  ms_entry_id :: "'n \<Rightarrow> entry_id"
  ms_input_new :: "uuid \<Rightarrow> 'e list \<Rightarrow> cause + 't"
  ms_of_incoming :: "'e \<Rightarrow> cause + 'n"

text \<open>\<open>br-llm-messages\<close> leaves a conversation as it was when it refuses a change.\<close>

definition rules_keep :: "('c, 't, 'ai, 'n, 'e, 'a) messages \<Rightarrow> bool" where
  "rules_keep M \<longleftrightarrow> (\<forall>t c e. snd (ms_push_turn M t c) = Inl e \<longrightarrow> fst (ms_push_turn M t c) = c) \<and>
     (\<forall>u n c e. snd (ms_push_entry M u n c) = Inl e \<longrightarrow> fst (ms_push_entry M u n c) = c)"

section \<open>Rules\<close>

record 'a ai_turn_ref =
  tr_id :: uuid
  tr_agent :: agent_id
  tr_author :: 'a

datatype session_error = Rules cause | WrongTurn uuid | WrongMailEntry mail_id | Port port_error

text \<open>The error as the cause of another one: its display. \<open>Port\<close> is transparent.\<close>

definition prefixed :: "string \<Rightarrow> string + string \<Rightarrow> string + string" where
  "prefixed p shown = (case shown of Inl panic \<Rightarrow> Inl panic | Inr text \<Rightarrow> Inr (p @ text))"

fun session_cause :: "uuid_ops \<Rightarrow> session_error \<Rightarrow> cause" where
  "session_cause U (Rules e) = Cause (prefixed ''the rules of br-llm-messages refuse the change: '' (display e))"
| "session_cause U (WrongTurn t) = Cause (Inr (''the turn '' @ show_uuid U t @ '' is not the AI turn of that agent and author''))"
| "session_cause U (WrongMailEntry m) = Cause (Inr (''the entry built for the mail '' @ show_uuid U (mail_entry_id m) @
     '' is not the entry of that mail''))"
| "session_cause U (Port (Refused r)) = Cause (Inr (''the request was refused: '' @ as_str r))"
| "session_cause U (Port (Fault e)) = Cause (Inr ''a port failed'')"

type_synonym 'c applied = "'c \<times> (session_error + unit)"

definition by_rules :: "'c \<times> (cause + unit) \<Rightarrow> 'c applied" where
  "by_rules r = (fst r, map_inl Rules (snd r))"

definition apply_input_turn :: "('c, 't, 'ai, 'n, 'e, 'a) messages \<Rightarrow> 't \<Rightarrow> 'c \<Rightarrow> 'c applied" where
  "apply_input_turn M turn c = by_rules (ms_push_turn M turn c)"

definition existing :: "('c, 't, 'ai, 'n, 'e, 'a) messages \<Rightarrow> 'c \<Rightarrow> 'a ai_turn_ref \<Rightarrow> session_error + bool" where
  "existing M c turn = (case ms_turn M (tr_id turn) c of
     Inr t \<Rightarrow> (case ms_as_ai M t of
        Some ai \<Rightarrow> if ms_ai_agent M ai = tr_agent turn \<and> ms_ai_author M ai = tr_author turn then Inr True
          else Inl (WrongTurn (tr_id turn))
      | None \<Rightarrow> Inl (WrongTurn (tr_id turn)))
   | Inl _ \<Rightarrow> Inr False)"

definition apply_entry :: "('c, 't, 'ai, 'n, 'e, 'a) messages \<Rightarrow> 'a ai_turn_ref \<Rightarrow> 'n \<Rightarrow> 'c \<Rightarrow> 'c applied" where
  "apply_entry M turn n c = (case existing M c turn of
     Inl e \<Rightarrow> (c, Inl e)
   | Inr True \<Rightarrow> by_rules (ms_push_entry M (tr_id turn) n c)
   | Inr False \<Rightarrow> (case ms_push_ai M n (ms_open_ai M (tr_id turn) (tr_agent turn) (tr_author turn)) of
        Inl e \<Rightarrow> (c, Inl (Rules e))
      | Inr created \<Rightarrow> by_rules (ms_push_turn M (ms_of_ai M created) c)))"

definition apply_closure :: "('c, 't, 'ai, 'n, 'e, 'a) messages \<Rightarrow> 'a ai_turn_ref \<Rightarrow> 'n \<Rightarrow> 'c \<Rightarrow> 'c applied" where
  "apply_closure M turn closure c = (case existing M c turn of
     Inl e \<Rightarrow> (c, Inl e)
   | Inr False \<Rightarrow> (c, Inl (WrongTurn (tr_id turn)))
   | Inr True \<Rightarrow> by_rules (ms_push_entry M (tr_id turn) closure c))"

definition apply_response :: "('c, 't, 'ai, 'n, 'e, 'a) messages \<Rightarrow> 'a ai_turn_ref \<Rightarrow> 'n \<Rightarrow> 'c \<Rightarrow> 'c applied" where
  "apply_response M turn response c = apply_entry M turn response c"

definition apply_results :: "('c, 't, 'ai, 'n, 'e, 'a) messages \<Rightarrow> 'a ai_turn_ref \<Rightarrow> 'n \<Rightarrow> 'c \<Rightarrow> 'c applied" where
  "apply_results M turn results c = apply_entry M turn results c"

named_theorems apply_defs
declare apply_input_turn_def [apply_defs] apply_entry_def [apply_defs] apply_closure_def [apply_defs]
  apply_response_def [apply_defs] apply_results_def [apply_defs]

text \<open>A refused change leaves the conversation as it was.\<close>

lemma apply_keeps:
  assumes "rules_keep M"
  shows "snd (apply_input_turn M t c) = Inl e \<Longrightarrow> fst (apply_input_turn M t c) = c"
    "snd (apply_entry M r n c) = Inl e \<Longrightarrow> fst (apply_entry M r n c) = c"
    "snd (apply_closure M r n c) = Inl e \<Longrightarrow> fst (apply_closure M r n c) = c"
proof -
  have p: "snd (by_rules (ms_push_turn M t c)) = Inl e \<Longrightarrow> fst (by_rules (ms_push_turn M t c)) = c"
    "snd (by_rules (ms_push_entry M u n c)) = Inl e \<Longrightarrow> fst (by_rules (ms_push_entry M u n c)) = c" for t u n e
    using assms by (auto simp: rules_keep_def by_rules_def map_inl_def split: sum.splits)
  show "snd (apply_input_turn M t c) = Inl e \<Longrightarrow> fst (apply_input_turn M t c) = c"
    "snd (apply_entry M r n c) = Inl e \<Longrightarrow> fst (apply_entry M r n c) = c"
    "snd (apply_closure M r n c) = Inl e \<Longrightarrow> fst (apply_closure M r n c) = c"
    using p by (auto simp: apply_defs split: sum.splits bool.splits)
qed

lemma apply_no_port:
  "snd (apply_input_turn M t c) \<noteq> Inl (Port e)" "snd (apply_entry M r n c) \<noteq> Inl (Port e)"
  "snd (apply_closure M r n c) \<noteq> Inl (Port e)"
  by (auto simp: apply_defs by_rules_def map_inl_def existing_def split: sum.splits bool.splits option.splits if_splits)

section \<open>The thread access\<close>

text \<open>Each operation of the port, on a state of its own; \<open>'h\<close> is the stream an opening gives.\<close>

record ('s, 'c, 't, 'n, 'a, 'h) thread_access =
  ta_read :: "thread_ref \<Rightarrow> 's \<Rightarrow> 's \<times> (port_error + 'c)"
  ta_add_input_turn :: "thread_ref \<Rightarrow> 't \<Rightarrow> 's \<Rightarrow> 's \<times> (port_error + unit)"
  ta_add_entry :: "thread_ref \<Rightarrow> 'a ai_turn_ref \<Rightarrow> 'n \<Rightarrow> 's \<Rightarrow> 's \<times> (port_error + unit)"
  ta_close_turn :: "thread_ref \<Rightarrow> 'a ai_turn_ref \<Rightarrow> 'n \<Rightarrow> 's \<Rightarrow> 's \<times> (port_error + unit)"
  ta_open_response :: "thread_ref \<Rightarrow> 'a ai_turn_ref \<Rightarrow> entry_id \<Rightarrow> 's \<Rightarrow> 's \<times> (port_error + 'h)"
  ta_complete_response :: "thread_ref \<Rightarrow> 'a ai_turn_ref \<Rightarrow> 'n \<Rightarrow> 's \<Rightarrow> 's \<times> (port_error + unit)"
  ta_discard_response :: "thread_ref \<Rightarrow> entry_id \<Rightarrow> 's \<Rightarrow> 's \<times> (port_error + unit)"
  ta_open_result :: "thread_ref \<Rightarrow> 'a ai_turn_ref \<Rightarrow> entry_id \<Rightarrow> 's \<Rightarrow> 's \<times> (port_error + 'h)"
  ta_complete_result :: "thread_ref \<Rightarrow> 'a ai_turn_ref \<Rightarrow> 'n \<Rightarrow> 's \<Rightarrow> 's \<times> (port_error + unit)"
  ta_discard_result :: "thread_ref \<Rightarrow> entry_id \<Rightarrow> 's \<Rightarrow> 's \<times> (port_error + unit)"

section \<open>The session\<close>

record 'c session =
  se_thread :: thread_ref
  se_conversation :: 'c
  se_responses :: "entry_id list"
  se_results :: "entry_id list"

definition session_start ::
  "('s, 'c, 't, 'n, 'a, 'h) thread_access \<Rightarrow> thread_ref \<Rightarrow> 's \<Rightarrow> 's \<times> (port_error + 'c session)" where
  "session_start A thread s = (case ta_read A thread s of
     (s, Inl e) \<Rightarrow> (s, Inl e)
   | (s, Inr c) \<Rightarrow> (s, Inr \<lparr>se_thread = thread, se_conversation = c, se_responses = [], se_results = []\<rparr>))"

definition open_objects :: "'c session \<Rightarrow> nat" where
  "open_objects S = length (se_responses S) + length (se_results S)"

definition session_holds :: "('c, 't, 'ai, 'n, 'e, 'a) messages \<Rightarrow> 'c session \<Rightarrow> entry_id \<Rightarrow> bool" where
  "session_holds M S i = is_ok (ms_entry M i (se_conversation S))"

definition holds_incoming :: "('c, 't, 'ai, 'n, 'e, 'a) messages \<Rightarrow> 'c session \<Rightarrow> entry_id \<Rightarrow> bool" where
  "holds_incoming M S i = (case ms_entry M i (se_conversation S) of
     Inr RefIncoming \<Rightarrow> True | Inr (RefTurn incoming) \<Rightarrow> incoming | _ \<Rightarrow> False)"

definition open_ai_turn :: "('c, 't, 'ai, 'n, 'e, 'a) messages \<Rightarrow> 'c session \<Rightarrow> agent_id \<Rightarrow> 'a ai_turn_ref option" where
  "open_ai_turn M S agent = map_option
     (\<lambda>ai. \<lparr>tr_id = ms_ai_id M ai, tr_agent = agent, tr_author = ms_ai_author M ai\<rparr>)
     (find (\<lambda>ai. ms_ai_agent M ai = agent \<and> \<not> ms_ai_closed M ai)
       (List.map_filter (ms_as_ai M) (rev (ms_turns M (se_conversation S)))))"

definition track :: "entry_id list \<Rightarrow> entry_id \<Rightarrow> entry_id list" where
  "track opened i = (if i \<in> set opened then opened else opened @ [i])"

definition retain_not :: "entry_id \<Rightarrow> entry_id list \<Rightarrow> entry_id list" where
  "retain_not i xs = filter (\<lambda>x. x \<noteq> i) xs"

text \<open>An operation of the session works on the session and the state of the port.\<close>

type_synonym ('s, 'c, 'r) session_op_result = "('c session \<times> 's) \<times> 'r"

definition add_input_turn ::
  "('c, 't, 'ai, 'n, 'e, 'a) messages \<Rightarrow> ('s, 'c, 't, 'n, 'a, 'h) thread_access \<Rightarrow> 't \<Rightarrow> 'c session \<times> 's \<Rightarrow>
     ('s, 'c, session_error + unit) session_op_result" where
  "add_input_turn M A turn Ss = (case apply_input_turn M turn (se_conversation (fst Ss)) of
     (c, Inl e) \<Rightarrow> (((fst Ss)\<lparr>se_conversation := c\<rparr>, snd Ss), Inl e)
   | (c, Inr ()) \<Rightarrow> (case ta_add_input_turn A (se_thread (fst Ss)) turn (snd Ss) of
       (s, r) \<Rightarrow> (((fst Ss)\<lparr>se_conversation := c\<rparr>, s), map_inl Port r)))"

definition add_entry ::
  "('c, 't, 'ai, 'n, 'e, 'a) messages \<Rightarrow> ('s, 'c, 't, 'n, 'a, 'h) thread_access \<Rightarrow> 'a ai_turn_ref \<Rightarrow> 'n \<Rightarrow>
     'c session \<times> 's \<Rightarrow> ('s, 'c, session_error + unit) session_op_result" where
  "add_entry M A turn n Ss = (case apply_entry M turn n (se_conversation (fst Ss)) of
     (c, Inl e) \<Rightarrow> (((fst Ss)\<lparr>se_conversation := c\<rparr>, snd Ss), Inl e)
   | (c, Inr ()) \<Rightarrow> (case ta_add_entry A (se_thread (fst Ss)) turn n (snd Ss) of
       (s, r) \<Rightarrow> (((fst Ss)\<lparr>se_conversation := c\<rparr>, s), map_inl Port r)))"

definition close_turn ::
  "('c, 't, 'ai, 'n, 'e, 'a) messages \<Rightarrow> ('s, 'c, 't, 'n, 'a, 'h) thread_access \<Rightarrow> 'a ai_turn_ref \<Rightarrow> 'n \<Rightarrow>
     'c session \<times> 's \<Rightarrow> ('s, 'c, session_error + unit) session_op_result" where
  "close_turn M A turn closure Ss = (case apply_closure M turn closure (se_conversation (fst Ss)) of
     (c, Inl e) \<Rightarrow> (((fst Ss)\<lparr>se_conversation := c\<rparr>, snd Ss), Inl e)
   | (c, Inr ()) \<Rightarrow> (case ta_close_turn A (se_thread (fst Ss)) turn closure (snd Ss) of
       (s, r) \<Rightarrow> (((fst Ss)\<lparr>se_conversation := c\<rparr>, s), map_inl Port r)))"

definition open_response ::
  "('s, 'c, 't, 'n, 'a, 'h) thread_access \<Rightarrow> 'a ai_turn_ref \<Rightarrow> entry_id \<Rightarrow> 'c session \<times> 's \<Rightarrow>
     ('s, 'c, session_error + 'h) session_op_result" where
  "open_response A turn i Ss = (case ta_open_response A (se_thread (fst Ss)) turn i (snd Ss) of
     (s, Inl e) \<Rightarrow> ((fst Ss, s), Inl (Port e))
   | (s, Inr h) \<Rightarrow> (((fst Ss)\<lparr>se_responses := track (se_responses (fst Ss)) i\<rparr>, s), Inr h))"

definition discard_response ::
  "('s, 'c, 't, 'n, 'a, 'h) thread_access \<Rightarrow> entry_id \<Rightarrow> 'c session \<times> 's \<Rightarrow> ('s, 'c, port_error + unit) session_op_result" where
  "discard_response A i Ss = (case ta_discard_response A (se_thread (fst Ss)) i (snd Ss) of
     (s, r) \<Rightarrow> (((fst Ss)\<lparr>se_responses := retain_not i (se_responses (fst Ss))\<rparr>, s), r))"

definition discard_response_if_open ::
  "('s, 'c, 't, 'n, 'a, 'h) thread_access \<Rightarrow> entry_id \<Rightarrow> 'c session \<times> 's \<Rightarrow> 'c session \<times> 's" where
  "discard_response_if_open A i Ss =
     (if i \<in> set (se_responses (fst Ss)) then fst (discard_response A i Ss) else Ss)"

definition complete_response ::
  "('c, 't, 'ai, 'n, 'e, 'a) messages \<Rightarrow> ('s, 'c, 't, 'n, 'a, 'h) thread_access \<Rightarrow> 'a ai_turn_ref \<Rightarrow> 'n \<Rightarrow>
     'c session \<times> 's \<Rightarrow> ('s, 'c, session_error + unit) session_op_result" where
  "complete_response M A turn response Ss = (case apply_response M turn response (se_conversation (fst Ss)) of
     (c, Inl e) \<Rightarrow> (discard_response_if_open A (ms_entry_id M response) ((fst Ss)\<lparr>se_conversation := c\<rparr>, snd Ss), Inl e)
   | (c, Inr ()) \<Rightarrow> (case ta_complete_response A (se_thread (fst Ss)) turn response (snd Ss) of
       (s, Inl e) \<Rightarrow> (((fst Ss)\<lparr>se_conversation := c\<rparr>, s), Inl (Port e))
     | (s, Inr ()) \<Rightarrow> (((fst Ss)\<lparr>se_conversation := c,
         se_responses := retain_not (ms_entry_id M response) (se_responses (fst Ss))\<rparr>, s), Inr ())))"

definition open_result ::
  "('s, 'c, 't, 'n, 'a, 'h) thread_access \<Rightarrow> 'a ai_turn_ref \<Rightarrow> entry_id \<Rightarrow> 'c session \<times> 's \<Rightarrow>
     ('s, 'c, session_error + 'h) session_op_result" where
  "open_result A turn i Ss = (case ta_open_result A (se_thread (fst Ss)) turn i (snd Ss) of
     (s, Inl e) \<Rightarrow> ((fst Ss, s), Inl (Port e))
   | (s, Inr h) \<Rightarrow> (((fst Ss)\<lparr>se_results := track (se_results (fst Ss)) i\<rparr>, s), Inr h))"

definition discard_result ::
  "('s, 'c, 't, 'n, 'a, 'h) thread_access \<Rightarrow> entry_id \<Rightarrow> 'c session \<times> 's \<Rightarrow> ('s, 'c, port_error + unit) session_op_result" where
  "discard_result A i Ss = (case ta_discard_result A (se_thread (fst Ss)) i (snd Ss) of
     (s, r) \<Rightarrow> (((fst Ss)\<lparr>se_results := retain_not i (se_results (fst Ss))\<rparr>, s), r))"

definition discard_result_if_open ::
  "('s, 'c, 't, 'n, 'a, 'h) thread_access \<Rightarrow> entry_id \<Rightarrow> 'c session \<times> 's \<Rightarrow> 'c session \<times> 's" where
  "discard_result_if_open A i Ss =
     (if i \<in> set (se_results (fst Ss)) then fst (discard_result A i Ss) else Ss)"

definition complete_result ::
  "('c, 't, 'ai, 'n, 'e, 'a) messages \<Rightarrow> ('s, 'c, 't, 'n, 'a, 'h) thread_access \<Rightarrow> 'a ai_turn_ref \<Rightarrow> 'n \<Rightarrow>
     'c session \<times> 's \<Rightarrow> ('s, 'c, session_error + unit) session_op_result" where
  "complete_result M A turn result Ss = (case apply_results M turn result (se_conversation (fst Ss)) of
     (c, Inl e) \<Rightarrow> (discard_result_if_open A (ms_entry_id M result) ((fst Ss)\<lparr>se_conversation := c\<rparr>, snd Ss), Inl e)
   | (c, Inr ()) \<Rightarrow> (case ta_complete_result A (se_thread (fst Ss)) turn result (snd Ss) of
       (s, Inl e) \<Rightarrow> (((fst Ss)\<lparr>se_conversation := c\<rparr>, s), Inl (Port e))
     | (s, Inr ()) \<Rightarrow> (((fst Ss)\<lparr>se_conversation := c,
         se_results := retain_not (ms_entry_id M result) (se_results (fst Ss))\<rparr>, s), Inr ())))"

text \<open>The discards of one list, in order, with the errors they gave.\<close>

fun discard_each :: "(entry_id \<Rightarrow> 's \<Rightarrow> 's \<times> (port_error + unit)) \<Rightarrow> entry_id list \<Rightarrow> 's \<Rightarrow> 's \<times> port_error list" where
  "discard_each d [] s = (s, [])"
| "discard_each d (i # is) s = (case d i s of (s, r) \<Rightarrow> (case discard_each d is s of
     (s, errors) \<Rightarrow> (s, (case r of Inl e \<Rightarrow> e # errors | Inr _ \<Rightarrow> errors))))"

definition discard_all ::
  "('s, 'c, 't, 'n, 'a, 'h) thread_access \<Rightarrow> 'c session \<times> 's \<Rightarrow> ('s, 'c, port_error list) session_op_result" where
  "discard_all A Ss = (case discard_each (ta_discard_response A (se_thread (fst Ss))) (se_responses (fst Ss)) (snd Ss) of
     (s, es) \<Rightarrow> (case discard_each (ta_discard_result A (se_thread (fst Ss))) (se_results (fst Ss)) s of
       (s, es') \<Rightarrow> (((fst Ss)\<lparr>se_responses := [], se_results := []\<rparr>, s), es @ es')))"

end
