(* ===== verification/Agentic_Thread.thy ===== *)
theory Agentic_Thread
  imports Agentic_Session Exec_Work
begin

text \<open>
  The in-memory thread access (\<open>memory/thread.rs\<close>, \<open>memory/streams.rs\<close>, the calls of
  \<open>memory/record.rs\<close> it records), the contract a session relies on as a locale, and the session over
  the thread access. A future of a call runs to its end.
\<close>

section \<open>The in-memory thread access\<close>

text \<open>The calls of the thread access and what its streams take.\<close>

datatype ('t, 'n, 'a, 'd) call =
  CallRead thread_ref
| CallAddInputTurn thread_ref 't
| CallAddEntry thread_ref "'a ai_turn_ref" 'n
| CallCloseTurn thread_ref "'a ai_turn_ref" 'n
| CallOpenResponse thread_ref "'a ai_turn_ref" entry_id
| CallResponseDelta entry_id 'd
| CallCompleteResponse thread_ref "'a ai_turn_ref" 'n
| CallDiscardResponse thread_ref entry_id
| CallOpenResult thread_ref "'a ai_turn_ref" entry_id
| CallResultFragment entry_id string
| CallCompleteResult thread_ref "'a ai_turn_ref" 'n
| CallDiscardResult thread_ref entry_id

text \<open>The flag of a stream is a shared cell: \<open>tm_alive\<close> lists the cells, \<open>tm_open\<close> points to one.\<close>

record ('c, 't, 'n, 'a, 'd) thread_state =
  tm_thread :: thread_ref
  tm_conversation :: 'c
  tm_open :: "entry_id \<Rightarrow> nat option"
  tm_alive :: "bool list"
  tm_calls :: "('t, 'n, 'a, 'd) call list"

type_synonym ('c, 't, 'n, 'a, 'd, 'r) thread_call =
  "('c, 't, 'n, 'a, 'd) thread_state \<Rightarrow> ('c, 't, 'n, 'a, 'd) thread_state \<times> (port_error + 'r)"

definition thread_new :: "thread_ref \<Rightarrow> 'c \<Rightarrow> ('c, 't, 'n, 'a, 'd) thread_state" where
  "thread_new thread c = \<lparr>tm_thread = thread, tm_conversation = c, tm_open = (\<lambda>_. None), tm_alive = [], tm_calls = []\<rparr>"

definition is_open :: "entry_id \<Rightarrow> ('c, 't, 'n, 'a, 'd) thread_state \<Rightarrow> bool" where
  "is_open i s = (tm_open s i \<noteq> None)"

fun show_thread :: "uuid_ops \<Rightarrow> thread_ref \<Rightarrow> string" where
  "show_thread U (ThreadRef u) = show_uuid U u"

definition check_thread :: "uuid_ops \<Rightarrow> thread_ref \<Rightarrow> ('c, 't, 'n, 'a, 'd) thread_state \<Rightarrow> port_error + unit" where
  "check_thread U thread s = (if thread = tm_thread s then Inr ()
     else Inl (port_fault (''unknown thread '' @ show_thread U thread)))"

definition store_change :: "uuid_ops \<Rightarrow> thread_ref \<Rightarrow> ('c \<Rightarrow> 'c applied) \<Rightarrow> ('c, 't, 'n, 'a, 'd, unit) thread_call" where
  "store_change U thread ap s = (case check_thread U thread s of
     Inl e \<Rightarrow> (s, Inl e)
   | Inr _ \<Rightarrow> (s\<lparr>tm_conversation := fst (ap (tm_conversation s))\<rparr>,
       map_inl (\<lambda>e. Fault (session_cause U e)) (snd (ap (tm_conversation s)))))"

definition flag_off :: "nat option \<Rightarrow> bool list \<Rightarrow> bool list" where
  "flag_off previous alive = (case previous of None \<Rightarrow> alive | Some h \<Rightarrow> alive[h := False])"

definition begin_stream :: "entry_id \<Rightarrow> ('c, 't, 'n, 'a, 'd) thread_state \<Rightarrow> ('c, 't, 'n, 'a, 'd) thread_state \<times> nat" where
  "begin_stream i s = (let h = length (tm_alive s) in
     (s\<lparr>tm_open := (tm_open s)(i \<mapsto> h), tm_alive := flag_off (tm_open s i) (tm_alive s @ [True])\<rparr>, h))"

definition end_stream :: "entry_id \<Rightarrow> ('c, 't, 'n, 'a, 'd) thread_state \<Rightarrow> ('c, 't, 'n, 'a, 'd) thread_state" where
  "end_stream i s = s\<lparr>tm_open := (tm_open s)(i := None), tm_alive := flag_off (tm_open s i) (tm_alive s)\<rparr>"

definition record_call :: "('t, 'n, 'a, 'd) call \<Rightarrow> ('c, 't, 'n, 'a, 'd) thread_state \<Rightarrow> ('c, 't, 'n, 'a, 'd) thread_state" where
  "record_call c s = s\<lparr>tm_calls := tm_calls s @ [c]\<rparr>"

definition mem_read :: "uuid_ops \<Rightarrow> thread_ref \<Rightarrow> ('c, 't, 'n, 'a, 'd, 'c) thread_call" where
  "mem_read U thread s = (let s = record_call (CallRead thread) s in
     (s, bind_sum (check_thread U thread s) (\<lambda>_. Inr (tm_conversation s))))"

definition mem_add_input_turn ::
  "uuid_ops \<Rightarrow> ('c, 't, 'ai, 'n, 'e, 'a) messages \<Rightarrow> thread_ref \<Rightarrow> 't \<Rightarrow> ('c, 't, 'n, 'a, 'd, unit) thread_call" where
  "mem_add_input_turn U M thread turn s =
     store_change U thread (apply_input_turn M turn) (record_call (CallAddInputTurn thread turn) s)"

definition mem_add_entry ::
  "uuid_ops \<Rightarrow> ('c, 't, 'ai, 'n, 'e, 'a) messages \<Rightarrow> thread_ref \<Rightarrow> 'a ai_turn_ref \<Rightarrow> 'n \<Rightarrow>
     ('c, 't, 'n, 'a, 'd, unit) thread_call" where
  "mem_add_entry U M thread turn n s =
     store_change U thread (apply_entry M turn n) (record_call (CallAddEntry thread turn n) s)"

definition mem_close_turn ::
  "uuid_ops \<Rightarrow> ('c, 't, 'ai, 'n, 'e, 'a) messages \<Rightarrow> thread_ref \<Rightarrow> 'a ai_turn_ref \<Rightarrow> 'n \<Rightarrow>
     ('c, 't, 'n, 'a, 'd, unit) thread_call" where
  "mem_close_turn U M thread turn closure s =
     store_change U thread (apply_closure M turn closure) (record_call (CallCloseTurn thread turn closure) s)"

text \<open>A stream is its entry and its flag.\<close>

definition mem_open :: "uuid_ops \<Rightarrow> thread_ref \<Rightarrow> entry_id \<Rightarrow> ('c, 't, 'n, 'a, 'd, entry_id \<times> nat) thread_call" where
  "mem_open U thread i s = (case check_thread U thread s of
     Inl e \<Rightarrow> (s, Inl e)
   | Inr _ \<Rightarrow> (fst (begin_stream i s), Inr (i, snd (begin_stream i s))))"

definition mem_open_response ::
  "uuid_ops \<Rightarrow> thread_ref \<Rightarrow> 'a ai_turn_ref \<Rightarrow> entry_id \<Rightarrow> ('c, 't, 'n, 'a, 'd, entry_id \<times> nat) thread_call" where
  "mem_open_response U thread turn i s = mem_open U thread i (record_call (CallOpenResponse thread turn i) s)"

definition mem_open_result ::
  "uuid_ops \<Rightarrow> thread_ref \<Rightarrow> 'a ai_turn_ref \<Rightarrow> entry_id \<Rightarrow> ('c, 't, 'n, 'a, 'd, entry_id \<times> nat) thread_call" where
  "mem_open_result U thread turn i s = mem_open U thread i (record_call (CallOpenResult thread turn i) s)"

definition ended_with :: "entry_id \<Rightarrow> ('c, 't, 'n, 'a, 'd) thread_state \<times> (port_error + unit) \<Rightarrow>
    ('c, 't, 'n, 'a, 'd) thread_state \<times> (port_error + unit)" where
  "ended_with i sr = (if is_ok (snd sr) then (end_stream i (fst sr), snd sr) else sr)"

definition mem_complete_response ::
  "uuid_ops \<Rightarrow> ('c, 't, 'ai, 'n, 'e, 'a) messages \<Rightarrow> thread_ref \<Rightarrow> 'a ai_turn_ref \<Rightarrow> 'n \<Rightarrow>
     ('c, 't, 'n, 'a, 'd, unit) thread_call" where
  "mem_complete_response U M thread turn response s = ended_with (ms_entry_id M response)
     (store_change U thread (apply_response M turn response) (record_call (CallCompleteResponse thread turn response) s))"

definition mem_complete_result ::
  "uuid_ops \<Rightarrow> ('c, 't, 'ai, 'n, 'e, 'a) messages \<Rightarrow> thread_ref \<Rightarrow> 'a ai_turn_ref \<Rightarrow> 'n \<Rightarrow>
     ('c, 't, 'n, 'a, 'd, unit) thread_call" where
  "mem_complete_result U M thread turn result s = ended_with (ms_entry_id M result)
     (store_change U thread (apply_results M turn result) (record_call (CallCompleteResult thread turn result) s))"

definition mem_discard_response :: "uuid_ops \<Rightarrow> thread_ref \<Rightarrow> entry_id \<Rightarrow> ('c, 't, 'n, 'a, 'd, unit) thread_call" where
  "mem_discard_response U thread i s = (let s = record_call (CallDiscardResponse thread i) s in
     ended_with i (s, check_thread U thread s))"

definition mem_discard_result :: "uuid_ops \<Rightarrow> thread_ref \<Rightarrow> entry_id \<Rightarrow> ('c, 't, 'n, 'a, 'd, unit) thread_call" where
  "mem_discard_result U thread i s = (let s = record_call (CallDiscardResult thread i) s in
     ended_with i (s, check_thread U thread s))"

definition memory_access ::
  "uuid_ops \<Rightarrow> ('c, 't, 'ai, 'n, 'e, 'a) messages \<Rightarrow>
     (('c, 't, 'n, 'a, 'd) thread_state, 'c, 't, 'n, 'a, entry_id \<times> nat) thread_access" where
  "memory_access U M = \<lparr>ta_read = mem_read U, ta_add_input_turn = mem_add_input_turn U M,
     ta_add_entry = mem_add_entry U M, ta_close_turn = mem_close_turn U M,
     ta_open_response = mem_open_response U, ta_complete_response = mem_complete_response U M,
     ta_discard_response = mem_discard_response U, ta_open_result = mem_open_result U,
     ta_complete_result = mem_complete_result U M, ta_discard_result = mem_discard_result U\<rparr>"

section \<open>Streams\<close>

definition response_send :: "entry_id \<times> nat \<Rightarrow> 'd \<Rightarrow> ('c, 't, 'n, 'a, 'd) thread_state \<Rightarrow> ('c, 't, 'n, 'a, 'd) thread_state" where
  "response_send stream delta s =
     (if tm_alive s ! snd stream then record_call (CallResponseDelta (fst stream) delta) s else s)"

definition result_send :: "entry_id \<times> nat \<Rightarrow> string \<Rightarrow> ('c, 't, 'n, 'a, 'd) thread_state \<Rightarrow> ('c, 't, 'n, 'a, 'd) thread_state" where
  "result_send stream fragment s =
     (if tm_alive s ! snd stream then record_call (CallResultFragment (fst stream) fragment) s else s)"

text \<open>The flag that is up is the one of the object that is open.\<close>

definition streams_ok :: "('c, 't, 'n, 'a, 'd) thread_state \<Rightarrow> bool" where
  "streams_ok s \<longleftrightarrow> (\<forall>i h. tm_open s i = Some h \<longrightarrow> h < length (tm_alive s)) \<and>
     (\<forall>i j h. tm_open s i = Some h \<and> tm_open s j = Some h \<longrightarrow> i = j) \<and>
     (\<forall>h < length (tm_alive s). tm_alive s ! h \<longleftrightarrow> (\<exists>i. tm_open s i = Some h))"

section \<open>The contract a session relies on\<close>

text \<open>
  A thread access that keeps what it receives: on the thread it serves, an addition changes what it
  stores as the rules say, and is accepted exactly when they accept it; objects are opened, completed
  and discarded one by one, and opening and discarding never fail.
\<close>

locale thread_store =
  fixes M :: "('c, 't, 'ai, 'n, 'e, 'a) messages" and A :: "('s, 'c, 't, 'n, 'a, 'h) thread_access"
    and serves :: "'s \<Rightarrow> thread_ref \<Rightarrow> bool" and stored :: "'s \<Rightarrow> 'c" and opened :: "'s \<Rightarrow> entry_id set"
  assumes read: "is_ok (snd (ta_read A t s)) \<Longrightarrow> snd (ta_read A t s) = Inr (stored s) \<and>
      serves (fst (ta_read A t s)) t \<and> stored (fst (ta_read A t s)) = stored s \<and> opened (fst (ta_read A t s)) = opened s"
    and adds_input: "serves s t \<Longrightarrow> serves (fst (ta_add_input_turn A t x s)) t \<and> opened (fst (ta_add_input_turn A t x s)) = opened s \<and>
      stored (fst (ta_add_input_turn A t x s)) = fst (apply_input_turn M x (stored s)) \<and> is_ok (snd (ta_add_input_turn A t x s)) = is_ok (snd (apply_input_turn M x (stored s)))"
    and adds_entry: "serves s t \<Longrightarrow> serves (fst (ta_add_entry A t w n s)) t \<and> opened (fst (ta_add_entry A t w n s)) = opened s \<and>
      stored (fst (ta_add_entry A t w n s)) = fst (apply_entry M w n (stored s)) \<and> is_ok (snd (ta_add_entry A t w n s)) = is_ok (snd (apply_entry M w n (stored s)))"
    and closes: "serves s t \<Longrightarrow> serves (fst (ta_close_turn A t w n s)) t \<and> opened (fst (ta_close_turn A t w n s)) = opened s \<and>
      stored (fst (ta_close_turn A t w n s)) = fst (apply_closure M w n (stored s)) \<and> is_ok (snd (ta_close_turn A t w n s)) = is_ok (snd (apply_closure M w n (stored s)))"
    and opens_response: "serves s t \<Longrightarrow> serves (fst (ta_open_response A t w i s)) t \<and> is_ok (snd (ta_open_response A t w i s)) \<and>
      opened (fst (ta_open_response A t w i s)) = insert i (opened s) \<and> stored (fst (ta_open_response A t w i s)) = stored s"
    and opens_result: "serves s t \<Longrightarrow> serves (fst (ta_open_result A t w i s)) t \<and> is_ok (snd (ta_open_result A t w i s)) \<and>
      opened (fst (ta_open_result A t w i s)) = insert i (opened s) \<and> stored (fst (ta_open_result A t w i s)) = stored s"
    and completes_response: "serves s t \<Longrightarrow> serves (fst (ta_complete_response A t w n s)) t \<and>
      stored (fst (ta_complete_response A t w n s)) = fst (apply_response M w n (stored s)) \<and>
      is_ok (snd (ta_complete_response A t w n s)) = is_ok (snd (apply_response M w n (stored s))) \<and>
      opened (fst (ta_complete_response A t w n s)) = (if is_ok (snd (ta_complete_response A t w n s)) then opened s - {ms_entry_id M n} else opened s)"
    and completes_result: "serves s t \<Longrightarrow> serves (fst (ta_complete_result A t w n s)) t \<and>
      stored (fst (ta_complete_result A t w n s)) = fst (apply_results M w n (stored s)) \<and>
      is_ok (snd (ta_complete_result A t w n s)) = is_ok (snd (apply_results M w n (stored s))) \<and>
      opened (fst (ta_complete_result A t w n s)) = (if is_ok (snd (ta_complete_result A t w n s)) then opened s - {ms_entry_id M n} else opened s)"
    and discards_response: "serves s t \<Longrightarrow> serves (fst (ta_discard_response A t i s)) t \<and> is_ok (snd (ta_discard_response A t i s)) \<and>
      opened (fst (ta_discard_response A t i s)) = opened s - {i} \<and> stored (fst (ta_discard_response A t i s)) = stored s"
    and discards_result: "serves s t \<Longrightarrow> serves (fst (ta_discard_result A t i s)) t \<and> is_ok (snd (ta_discard_result A t i s)) \<and>
      opened (fst (ta_discard_result A t i s)) = opened s - {i} \<and> stored (fst (ta_discard_result A t i s)) = stored s"
begin

text \<open>The copy of the session is what the thread stores, and the session tracks every open object.\<close>

definition synced :: "'c session \<times> 's \<Rightarrow> bool" where
  "synced Ss \<longleftrightarrow> serves (snd Ss) (se_thread (fst Ss)) \<and> se_conversation (fst Ss) = stored (snd Ss) \<and>
     opened (snd Ss) \<subseteq> set (se_responses (fst Ss)) \<union> set (se_results (fst Ss)) \<and>
     distinct (se_responses (fst Ss)) \<and> distinct (se_results (fst Ss))"

lemma start_synced:
  assumes "session_start A t s = (s', Inr S)" "opened s = {}"
  shows "synced (S, s')"
  using assms read[of t s] by (auto simp: session_start_def synced_def split: prod.splits sum.splits)

end

section \<open>The operations of a session\<close>

datatype ('t, 'n, 'a) session_op =
  SAddInput 't
| SAddEntry "'a ai_turn_ref" 'n
| SClose "'a ai_turn_ref" 'n
| SOpenResponse "'a ai_turn_ref" entry_id
| SCompleteResponse "'a ai_turn_ref" 'n
| SDiscardResponse entry_id
| SOpenResult "'a ai_turn_ref" entry_id
| SCompleteResult "'a ai_turn_ref" 'n
| SDiscardResult entry_id
| SDiscardAll

definition failure_of :: "session_error + 'x \<Rightarrow> session_error list" where
  "failure_of r = (case r of Inl e \<Rightarrow> [e] | Inr _ \<Rightarrow> [])"

text \<open>One operation, with the errors it gives.\<close>

fun session_step ::
  "('c, 't, 'ai, 'n, 'e, 'a) messages \<Rightarrow> ('s, 'c, 't, 'n, 'a, 'h) thread_access \<Rightarrow> ('t, 'n, 'a) session_op \<Rightarrow>
     'c session \<times> 's \<Rightarrow> ('c session \<times> 's) \<times> session_error list" where
  "session_step M A (SAddInput t) Ss = apsnd failure_of (add_input_turn M A t Ss)"
| "session_step M A (SAddEntry w n) Ss = apsnd failure_of (add_entry M A w n Ss)"
| "session_step M A (SClose w n) Ss = apsnd failure_of (close_turn M A w n Ss)"
| "session_step M A (SOpenResponse w i) Ss = apsnd failure_of (open_response A w i Ss)"
| "session_step M A (SCompleteResponse w n) Ss = apsnd failure_of (complete_response M A w n Ss)"
| "session_step M A (SDiscardResponse i) Ss = apsnd (failure_of \<circ> map_inl Port) (discard_response A i Ss)"
| "session_step M A (SOpenResult w i) Ss = apsnd failure_of (open_result A w i Ss)"
| "session_step M A (SCompleteResult w n) Ss = apsnd failure_of (complete_result M A w n Ss)"
| "session_step M A (SDiscardResult i) Ss = apsnd (failure_of \<circ> map_inl Port) (discard_result A i Ss)"
| "session_step M A SDiscardAll Ss = apsnd (map Port) (discard_all A Ss)"

fun session_run ::
  "('c, 't, 'ai, 'n, 'e, 'a) messages \<Rightarrow> ('s, 'c, 't, 'n, 'a, 'h) thread_access \<Rightarrow> ('t, 'n, 'a) session_op list \<Rightarrow>
     'c session \<times> 's \<Rightarrow> ('c session \<times> 's) \<times> session_error list" where
  "session_run M A [] Ss = (Ss, [])"
| "session_run M A (op # ops) Ss = (case session_step M A op Ss of
     (Ss, es) \<Rightarrow> apsnd (\<lambda>es'. es @ es') (session_run M A ops Ss))"

definition no_port_error :: "session_error list \<Rightarrow> bool" where
  "no_port_error es \<longleftrightarrow> (\<forall>e. Port e \<notin> set es)"

lemma retain_not_simps [simp]:
  "set (retain_not i xs) = set xs - {i}" "distinct xs \<Longrightarrow> distinct (retain_not i xs)"
  by (auto simp: retain_not_def)

lemma track_simps [simp]: "set (track xs i) = insert i (set xs)" "distinct xs \<Longrightarrow> distinct (track xs i)"
  by (auto simp: track_def)

lemma no_port_failure: "(\<And>e. r \<noteq> Inl (Port e)) \<Longrightarrow> no_port_error (failure_of r)"
  by (cases r) (auto simp: no_port_error_def failure_of_def)

lemma no_port_nil: "no_port_error []"
  by (simp add: no_port_error_def)

lemma ok_failure: "is_ok r \<Longrightarrow> failure_of r = []" "is_ok q \<Longrightarrow> failure_of (map_inl f q) = []"
  by (cases r; simp add: failure_of_def) (cases q; simp add: failure_of_def)

lemma discard_each_ok:
  assumes "\<And>i s. P s \<Longrightarrow> P (fst (d i s)) \<and> is_ok (snd (d i s)) \<and> f (fst (d i s)) = f s - {i} \<and> g (fst (d i s)) = g s"
    and "P s"
  shows "P (fst (discard_each d is s)) \<and> snd (discard_each d is s) = [] \<and>
    f (fst (discard_each d is s)) = f s - set is \<and> g (fst (discard_each d is s)) = g s"
  using assms(2)
proof (induction "is" arbitrary: s)
  case (Cons i "is")
  show ?case
    using Cons.IH[of "fst (d i s)"] assms(1)[OF Cons.prems, of i]
    by (auto simp: case_prod_unfold is_ok_def split: sum.splits)
qed simp

text \<open>The shape the additions share, and what it gives when the port accepts what the rules accept.\<close>

definition handed :: "'c applied \<Rightarrow> ('s \<Rightarrow> 's \<times> (port_error + unit)) \<Rightarrow> 'c session \<times> 's \<Rightarrow>
    ('c session \<times> 's) \<times> (session_error + unit)" where
  "handed ap call Ss = (case ap of
     (c, Inl e) \<Rightarrow> (((fst Ss)\<lparr>se_conversation := c\<rparr>, snd Ss), Inl e)
   | (c, Inr ()) \<Rightarrow> (case call (snd Ss) of (s, r) \<Rightarrow> (((fst Ss)\<lparr>se_conversation := c\<rparr>, s), map_inl Port r)))"

definition accepted :: "'c applied \<Rightarrow> 's \<Rightarrow> 'c session \<times> 's \<Rightarrow> ('c session \<times> 's) \<times> (session_error + unit)" where
  "accepted ap s' Ss = (if is_ok (snd ap) then (((fst Ss)\<lparr>se_conversation := fst ap\<rparr>, s'), Inr ()) else (Ss, snd ap))"

lemma handed_simps:
  "add_input_turn M A t Ss =
     handed (apply_input_turn M t (se_conversation (fst Ss))) (ta_add_input_turn A (se_thread (fst Ss)) t) Ss"
  "add_entry M A w n Ss =
     handed (apply_entry M w n (se_conversation (fst Ss))) (ta_add_entry A (se_thread (fst Ss)) w n) Ss"
  "close_turn M A w n Ss =
     handed (apply_closure M w n (se_conversation (fst Ss))) (ta_close_turn A (se_thread (fst Ss)) w n) Ss"
  by (simp_all only: handed_def add_input_turn_def add_entry_def close_turn_def)

lemma handed_accepted:
  assumes "\<And>e. snd ap = Inl e \<Longrightarrow> fst ap = se_conversation S" "is_ok (snd (call s)) = is_ok (snd ap)"
  shows "handed ap call (S, s) = accepted ap (fst (call s)) (S, s)"
proof (cases ap)
  case (Pair c r)
  show ?thesis
  proof (cases r)
    case (Inl e)
    then show ?thesis using assms(1)[of e] Pair by (simp add: handed_def accepted_def)
  next
    case (Inr u)
    then obtain s' where "call s = (s', Inr ())" using assms(2) Pair by (cases "call s"; cases "snd (call s)") auto
    then show ?thesis using Inr Pair by (simp add: handed_def accepted_def split: unit.split)
  qed
qed

text \<open>A completion, when the port accepts what the rules accept.\<close>

lemma complete_response_eq:
  assumes "\<not> is_ok (snd (apply_response M w n (se_conversation S))) \<longrightarrow>
      fst (apply_response M w n (se_conversation S)) = se_conversation S"
    "is_ok (snd (ta_complete_response A (se_thread S) w n s)) = is_ok (snd (apply_response M w n (se_conversation S)))"
  shows "complete_response M A w n (S, s) = (if is_ok (snd (apply_response M w n (se_conversation S)))
      then ((S\<lparr>se_conversation := fst (apply_response M w n (se_conversation S)),
        se_responses := retain_not (ms_entry_id M n) (se_responses S)\<rparr>, fst (ta_complete_response A (se_thread S) w n s)), Inr ())
      else (discard_response_if_open A (ms_entry_id M n) (S, s), snd (apply_response M w n (se_conversation S))))"
  using assms unfolding complete_response_def
  by (cases "apply_response M w n (se_conversation S)"; cases "snd (apply_response M w n (se_conversation S))";
      cases "ta_complete_response A (se_thread S) w n s"; cases "snd (ta_complete_response A (se_thread S) w n s)") (simp_all split: unit.split)

lemma complete_result_eq:
  assumes "\<not> is_ok (snd (apply_results M w n (se_conversation S))) \<longrightarrow>
      fst (apply_results M w n (se_conversation S)) = se_conversation S"
    "is_ok (snd (ta_complete_result A (se_thread S) w n s)) = is_ok (snd (apply_results M w n (se_conversation S)))"
  shows "complete_result M A w n (S, s) = (if is_ok (snd (apply_results M w n (se_conversation S)))
      then ((S\<lparr>se_conversation := fst (apply_results M w n (se_conversation S)),
        se_results := retain_not (ms_entry_id M n) (se_results S)\<rparr>, fst (ta_complete_result A (se_thread S) w n s)), Inr ())
      else (discard_result_if_open A (ms_entry_id M n) (S, s), snd (apply_results M w n (se_conversation S))))"
  using assms unfolding complete_result_def
  by (cases "apply_results M w n (se_conversation S)"; cases "snd (apply_results M w n (se_conversation S))";
      cases "ta_complete_result A (se_thread S) w n s"; cases "snd (ta_complete_result A (se_thread S) w n s)") (simp_all split: unit.split)

context thread_store
begin

text \<open>A refused change hands nothing over; an accepted one is kept by the thread.\<close>

lemma add_outcome:
  assumes "rules_keep M" "synced (S, s)"
  shows "add_input_turn M A x (S, s) = accepted (apply_input_turn M x (se_conversation S))
      (fst (ta_add_input_turn A (se_thread S) x s)) (S, s)"
    "add_entry M A w n (S, s) = accepted (apply_entry M w n (se_conversation S))
      (fst (ta_add_entry A (se_thread S) w n s)) (S, s)"
    "close_turn M A w n (S, s) = accepted (apply_closure M w n (se_conversation S))
      (fst (ta_close_turn A (se_thread S) w n s)) (S, s)"
proof -
  have sv: "serves s (se_thread S)" and c: "stored s = se_conversation S" using assms(2) by (simp_all add: synced_def)
  show "add_input_turn M A x (S, s) = accepted (apply_input_turn M x (se_conversation S))
      (fst (ta_add_input_turn A (se_thread S) x s)) (S, s)"
    unfolding handed_simps(1) fst_conv using adds_input[OF sv, of x, unfolded c] apply_keeps(1)[OF assms(1)]
    by (intro handed_accepted) auto
  show "add_entry M A w n (S, s) = accepted (apply_entry M w n (se_conversation S))
      (fst (ta_add_entry A (se_thread S) w n s)) (S, s)"
    unfolding handed_simps(2) fst_conv using adds_entry[OF sv, of w n, unfolded c] apply_keeps(2)[OF assms(1)]
    by (intro handed_accepted) auto
  show "close_turn M A w n (S, s) = accepted (apply_closure M w n (se_conversation S))
      (fst (ta_close_turn A (se_thread S) w n s)) (S, s)"
    unfolding handed_simps(3) fst_conv using closes[OF sv, of w n, unfolded c] apply_keeps(3)[OF assms(1)]
    by (intro handed_accepted) auto
qed

lemma synced_add:
  assumes "rules_keep M" "synced Ss"
  shows "synced (fst (add_input_turn M A x Ss))" "no_port_error (failure_of (snd (add_input_turn M A x Ss)))"
    "synced (fst (add_entry M A w n Ss))" "no_port_error (failure_of (snd (add_entry M A w n Ss)))"
    "synced (fst (close_turn M A w n Ss))" "no_port_error (failure_of (snd (close_turn M A w n Ss)))"
proof -
  obtain S s where Ss: "Ss = (S, s)" by (cases Ss)
  have sv: "serves s (se_thread S)" using assms(2) by (simp add: synced_def Ss)
  note out = add_outcome[OF assms(1) assms(2)[unfolded Ss]]
  have np: "no_port_error (failure_of (snd (apply_input_turn M x c)))" "no_port_error (failure_of (snd (apply_entry M w n c)))"
    "no_port_error (failure_of (snd (apply_closure M w n c)))" for c
    by (rule no_port_failure, rule apply_no_port)+
  show "synced (fst (add_input_turn M A x Ss))" "synced (fst (add_entry M A w n Ss))" "synced (fst (close_turn M A w n Ss))"
    using assms(2) adds_input[OF sv, of x] adds_entry[OF sv, of w n] closes[OF sv, of w n]
    unfolding Ss out by (simp_all add: synced_def accepted_def)
  show "no_port_error (failure_of (snd (add_input_turn M A x Ss)))" "no_port_error (failure_of (snd (add_entry M A w n Ss)))"
    "no_port_error (failure_of (snd (close_turn M A w n Ss)))"
    using np unfolding Ss out by (simp_all add: accepted_def ok_failure, simp_all add: no_port_error_def failure_of_def)
qed

lemma synced_open_discard:
  assumes "synced Ss"
  shows "synced (fst (open_response A w i Ss))" "is_ok (snd (open_response A w i Ss))"
    "synced (fst (open_result A w i Ss))" "is_ok (snd (open_result A w i Ss))"
    "synced (fst (discard_response A i Ss))" "is_ok (snd (discard_response A i Ss))"
    "synced (fst (discard_result A i Ss))" "is_ok (snd (discard_result A i Ss))"
proof -
  obtain S s where Ss: "Ss = (S, s)" by (cases Ss)
  have sv: "serves s (se_thread S)" using assms by (simp add: synced_def Ss)
  note ok = opens_response[OF sv, of w i] opens_result[OF sv, of w i]
    discards_response[OF sv, of i] discards_result[OF sv, of i]
  show "synced (fst (open_response A w i Ss))" "is_ok (snd (open_response A w i Ss))"
    using assms ok(1) by (auto simp: Ss synced_def open_response_def is_ok_def split: prod.splits sum.splits)
  show "synced (fst (open_result A w i Ss))" "is_ok (snd (open_result A w i Ss))"
    using assms ok(2) by (auto simp: Ss synced_def open_result_def is_ok_def split: prod.splits sum.splits)
  show "synced (fst (discard_response A i Ss))" "is_ok (snd (discard_response A i Ss))"
    using assms ok(3) by (auto simp: Ss synced_def discard_response_def case_prod_unfold)
  show "synced (fst (discard_result A i Ss))" "is_ok (snd (discard_result A i Ss))"
    using assms ok(4) by (auto simp: Ss synced_def discard_result_def case_prod_unfold)
qed

lemma synced_complete:
  assumes "rules_keep M" "synced Ss"
  shows "synced (fst (complete_response M A w n Ss))" "no_port_error (failure_of (snd (complete_response M A w n Ss)))"
    "synced (fst (complete_result M A w n Ss))" "no_port_error (failure_of (snd (complete_result M A w n Ss)))"
proof -
  obtain S s where Ss: "Ss = (S, s)" by (cases Ss)
  have sv: "serves s (se_thread S)" and c: "stored s = se_conversation S" using assms(2) by (simp_all add: synced_def Ss)
  note ok = completes_response[OF sv, of w n, unfolded c] completes_result[OF sv, of w n, unfolded c]
  have keep: "\<not> is_ok (snd (apply_response M w n (se_conversation S))) \<longrightarrow>
      fst (apply_response M w n (se_conversation S)) = se_conversation S"
    "\<not> is_ok (snd (apply_results M w n (se_conversation S))) \<longrightarrow>
      fst (apply_results M w n (se_conversation S)) = se_conversation S"
    using apply_keeps(2)[OF assms(1)] by (auto simp: apply_response_def apply_results_def is_ok_def split: sum.splits)
  have okr: "is_ok (snd (ta_complete_response A (se_thread S) w n s)) = is_ok (snd (apply_response M w n (se_conversation S)))"
    "is_ok (snd (ta_complete_result A (se_thread S) w n s)) = is_ok (snd (apply_results M w n (se_conversation S)))"
    using ok by blast+
  note cr = complete_response_eq[of M w n S A s, OF keep(1) okr(1)] and cs = complete_result_eq[of M w n S A s, OF keep(2) okr(2)]
  have d: "synced (discard_response_if_open A (ms_entry_id M n) (S, s))"
    "synced (discard_result_if_open A (ms_entry_id M n) (S, s))"
    using synced_open_discard[OF assms(2)[unfolded Ss]] assms(2)
    by (simp_all add: discard_response_if_open_def discard_result_if_open_def Ss)
  have np: "no_port_error (failure_of (snd (apply_response M w n c)))" "no_port_error (failure_of (snd (apply_results M w n c)))"
    for c unfolding apply_response_def apply_results_def by (rule no_port_failure, rule apply_no_port)+
  show "synced (fst (complete_response M A w n Ss))" "no_port_error (failure_of (snd (complete_response M A w n Ss)))"
    using d(1) ok(1) assms(2) np(1)[of "se_conversation S"] unfolding Ss cr
    by (auto simp: synced_def ok_failure no_port_nil split: if_splits)
  show "synced (fst (complete_result M A w n Ss))" "no_port_error (failure_of (snd (complete_result M A w n Ss)))"
    using d(2) ok(2) assms(2) np(2)[of "se_conversation S"] unfolding Ss cs
    by (auto simp: synced_def ok_failure no_port_nil split: if_splits)
qed

lemma synced_discard_all:
  assumes "synced (S, s)"
  shows "synced (fst (discard_all A (S, s)))" "snd (discard_all A (S, s)) = []"
    "opened (snd (fst (discard_all A (S, s)))) = {}" "open_objects (fst (fst (discard_all A (S, s)))) = 0"
proof -
  let ?t = "se_thread S"
  have sv: "serves s ?t" using assms by (simp add: synced_def)
  note r = discard_each_ok[of "\<lambda>s. serves s ?t" "ta_discard_response A ?t" opened stored, OF discards_response]
  note q = discard_each_ok[of "\<lambda>s. serves s ?t" "ta_discard_result A ?t" opened stored, OF discards_result]
  show "synced (fst (discard_all A (S, s)))" "snd (discard_all A (S, s)) = []"
    "opened (snd (fst (discard_all A (S, s)))) = {}" "open_objects (fst (fst (discard_all A (S, s)))) = 0"
    using assms r[OF _ sv, of "se_responses S"] q[of "fst (discard_each (ta_discard_response A ?t) (se_responses S) s)" "se_results S"]
    by (auto simp: discard_all_def synced_def open_objects_def case_prod_unfold)
qed

lemma synced_step:
  assumes "rules_keep M" "synced Ss"
  shows "synced (fst (session_step M A op Ss)) \<and> no_port_error (snd (session_step M A op Ss))"
proof (cases op)
  case SDiscardAll
  then show ?thesis
    using synced_discard_all[of "fst Ss" "snd Ss"] assms(2) by (simp add: no_port_error_def)
qed (simp_all add: synced_add[OF assms] synced_complete[OF assms] synced_open_discard[OF assms(2)] ok_failure no_port_nil)

lemma synced_run:
  assumes "rules_keep M" "synced Ss"
  shows "synced (fst (session_run M A ops Ss)) \<and> no_port_error (snd (session_run M A ops Ss))"
  using assms(2)
proof (induction ops arbitrary: Ss)
  case (Cons op ops)
  from Cons.IH[of "fst (session_step M A op Ss)"] synced_step[OF assms(1) Cons.prems, of op]
  show ?case by (auto simp: case_prod_unfold no_port_error_def)
qed (simp add: no_port_error_def)

end

section \<open>A concrete conversation library\<close>

text \<open>A conversation is its turns; a turn is its id, the agent and author of an AI turn, and the ids of its
  entries; an id is taken once, and the entry 0 is always refused.\<close>

type_synonym demo_turn = "uuid \<times> (agent_id \<times> string) option \<times> entry_id list"

definition demo_push_turn :: "demo_turn \<Rightarrow> demo_turn list \<Rightarrow> demo_turn list \<times> (cause + unit)" where
  "demo_push_turn t c = (if fst t \<in> fst ` set c \<or> 0 \<in> set (snd (snd t)) then (c, Inl (Cause (Inr ''refused'')))
     else (c @ [t], Inr ()))"

definition demo_push_entry :: "uuid \<Rightarrow> entry_id \<Rightarrow> demo_turn list \<Rightarrow> demo_turn list \<times> (cause + unit)" where
  "demo_push_entry u n c = (if n = 0 \<or> u \<notin> fst ` set c \<or> (\<exists>t \<in> set c. n \<in> set (snd (snd t))) then (c, Inl (Cause (Inr ''refused'')))
     else (map (\<lambda>t. if fst t = u then (u, fst (snd t), snd (snd t) @ [n]) else t) c, Inr ()))"

definition demo_messages :: "(demo_turn list, demo_turn, uuid \<times> agent_id \<times> string \<times> entry_id list, entry_id, entry_id, string) messages" where
  "demo_messages = \<lparr>ms_push_turn = demo_push_turn, ms_push_entry = demo_push_entry,
     ms_turn = (\<lambda>u c. case find (\<lambda>t. fst t = u) c of Some t \<Rightarrow> Inr t | None \<Rightarrow> Inl (Cause (Inr ''unknown''))),
     ms_turns = (\<lambda>c. c),
     ms_entry = (\<lambda>i c. case find (\<lambda>t. i \<in> set (snd (snd t))) c of
        Some t \<Rightarrow> Inr (if fst (snd t) = None then RefIncoming else RefTurn False) | None \<Rightarrow> Inl (Cause (Inr ''unknown''))),
     ms_as_ai = (\<lambda>t. map_option (\<lambda>(a, au). (fst t, a, au, snd (snd t))) (fst (snd t))),
     ms_of_ai = (\<lambda>(u, a, au, ns). (u, Some (a, au), ns)), ms_open_ai = (\<lambda>u a au. (u, a, au, [])),
     ms_push_ai = (\<lambda>n (u, a, au, ns). if n = 0 then Inl (Cause (Inr ''refused'')) else Inr (u, a, au, ns @ [n])),
     ms_ai_id = fst, ms_ai_agent = (\<lambda>(_, a, _). a), ms_ai_author = (\<lambda>(_, _, au, _). au), ms_ai_closed = (\<lambda>_. False),
     ms_entry_id = (\<lambda>n. n), ms_input_new = (\<lambda>u es. Inr (u, None, es)), ms_of_incoming = Inr\<rparr>"

lemma demo_rules_keep: "rules_keep demo_messages"
  by (simp add: rules_keep_def demo_messages_def demo_push_turn_def demo_push_entry_def)

definition demo_turn_ref :: "string ai_turn_ref" where
  "demo_turn_ref = \<lparr>tr_id = 7, tr_agent = 2, tr_author = ''bot''\<rparr>"

definition demo_thread :: "(demo_turn list, demo_turn, entry_id, string, string) thread_state" where
  "demo_thread = thread_new (ThreadRef 1) []"

definition demo_session :: "demo_turn list session" where
  "demo_session = \<lparr>se_thread = ThreadRef 1, se_conversation = [], se_responses = [], se_results = []\<rparr>"

lemma demo_start: "session_start (memory_access demo_uuids demo_messages) (ThreadRef 1) demo_thread =
    (record_call (CallRead (ThreadRef 1)) demo_thread, Inr demo_session)"
  by (simp add: session_start_def memory_access_def mem_read_def check_thread_def demo_thread_def thread_new_def
      record_call_def demo_session_def Let_def)

text \<open>An entry, an open response, a refused completion of it, and an open result.\<close>

definition demo_ops :: "(demo_turn, entry_id, string) session_op list" where
  "demo_ops = [SAddInput (6, None, [3]), SAddEntry demo_turn_ref 4, SOpenResponse demo_turn_ref 5,
     SCompleteResponse demo_turn_ref 4, SOpenResult demo_turn_ref 9]"

section \<open>The in-memory thread access keeps the contract\<close>

lemma ended_with_simps [simp]:
  "tm_thread (fst (ended_with i sr)) = tm_thread (fst sr)"
  "tm_conversation (fst (ended_with i sr)) = tm_conversation (fst sr)"
  "snd (ended_with i sr) = snd sr"
  "dom (tm_open (fst (ended_with i sr))) = (if is_ok (snd sr) then dom (tm_open (fst sr)) - {i} else dom (tm_open (fst sr)))"
  by (auto simp: ended_with_def end_stream_def)

lemma record_call_simps [simp]:
  "tm_thread (record_call c s) = tm_thread s" "tm_conversation (record_call c s) = tm_conversation s"
  "tm_open (record_call c s) = tm_open s" "tm_alive (record_call c s) = tm_alive s"
  by (simp_all add: record_call_def)

lemma is_ok_map_inl [simp]: "is_ok (map_inl f r) = is_ok r"
  by (cases r) simp_all

lemma store_change_served:
  assumes "tm_thread s = t"
  shows "tm_thread (fst (store_change U t ap s)) = t" "tm_open (fst (store_change U t ap s)) = tm_open s"
    "tm_conversation (fst (store_change U t ap s)) = fst (ap (tm_conversation s))"
    "is_ok (snd (store_change U t ap s)) = is_ok (snd (ap (tm_conversation s)))"
  using assms by (simp_all add: store_change_def check_thread_def)

lemmas memory_access_defs = memory_access_def mem_read_def mem_add_input_turn_def mem_add_entry_def mem_close_turn_def
  mem_open_response_def mem_open_result_def mem_complete_response_def mem_complete_result_def
  mem_discard_response_def mem_discard_result_def

interpretation mt: thread_store M "memory_access U M" "\<lambda>s t. tm_thread s = t" tm_conversation "\<lambda>s. dom (tm_open s)"
  for U and M :: "('c, 't, 'ai, 'n, 'e, 'a) messages"
  by unfold_locales
    (auto simp: memory_access_defs store_change_served check_thread_def mem_open_def begin_stream_def Let_def
      split: if_splits)

text \<open>
  C35: a session over the in-memory thread access never fails at the port and never loses its copy:
  whatever operations it runs, in any order, refused ones among them, its copy of the conversation is
  the conversation the thread stores, every object the thread holds open is one it tracks, and none
  is tracked twice in a list.
\<close>

theorem session_in_sync:
  assumes "rules_keep M" "session_start (memory_access U M) t (thread_new t0 c) = (s, Inr S)"
  shows "case session_run M (memory_access U M) ops (S, s) of ((S', s'), es) \<Rightarrow>
    no_port_error es \<and> se_conversation S' = tm_conversation s' \<and>
    dom (tm_open s') \<subseteq> set (se_responses S') \<union> set (se_results S') \<and>
    distinct (se_responses S') \<and> distinct (se_results S')"
  using mt.synced_run[OF assms(1) mt.start_synced[OF assms(2)], where ops = ops and U = U]
  by (simp add: mt.synced_def thread_new_def case_prod_unfold)

theorem session_in_sync_witness:
  "\<exists>S' s' es. session_run demo_messages (memory_access demo_uuids demo_messages) demo_ops
      (demo_session, record_call (CallRead (ThreadRef 1)) demo_thread) = ((S', s'), es) \<and>
    length es = 1 \<and> no_port_error es \<and> se_conversation S' = tm_conversation s' \<and> se_results S' = [9]"
proof -
  let ?r = "session_run demo_messages (memory_access demo_uuids demo_messages) demo_ops
      (demo_session, record_call (CallRead (ThreadRef 1)) demo_thread)"
  have "length (snd ?r) = 1" "se_results (fst (fst ?r)) = [9]" by code_simp+
  then show ?thesis
    using session_in_sync[OF demo_rules_keep demo_start[unfolded demo_thread_def], of demo_ops]
    by (auto simp: demo_thread_def split: prod.splits)
qed

text \<open>
  the session discards every object it holds open: after \<open>discard_all\<close> neither the session nor the
  thread has an open object, no discard failed, and the copy is still the stored conversation.
\<close>

theorem discard_all_clears:
  assumes "rules_keep M" "session_start (memory_access U M) t (thread_new t0 c) = (s, Inr S)"
  shows "case discard_all (memory_access U M) (fst (session_run M (memory_access U M) ops (S, s))) of
    ((S', s'), es) \<Rightarrow> es = [] \<and> open_objects S' = 0 \<and> tm_open s' = Map.empty \<and> se_conversation S' = tm_conversation s'"
proof -
  obtain S1 s1 where r: "fst (session_run M (memory_access U M) ops (S, s)) = (S1, s1)" by fastforce
  have "mt.synced (S1, s1)"
    using mt.synced_run[OF assms(1) mt.start_synced[OF assms(2)], where ops = ops and U = U] by (simp add: r thread_new_def)
  note all = mt.synced_discard_all[OF this, where U = U and M = M]
  then show ?thesis unfolding r by (auto simp: mt.synced_def split: prod.splits)
qed

theorem discard_all_clears_witness:
  "snd (discard_all (memory_access demo_uuids demo_messages)
    (fst (session_run demo_messages (memory_access demo_uuids demo_messages) demo_ops
      (demo_session, record_call (CallRead (ThreadRef 1)) demo_thread)))) = []"
  using discard_all_clears[OF demo_rules_keep demo_start[unfolded demo_thread_def], of demo_ops]
  by (simp add: demo_thread_def case_prod_unfold)

text \<open>
  a change that the rules refuse, or that names a turn that is not the AI turn of that agent and
  author, changes neither the copy nor the port, whatever thread access the session writes to: nothing
  is handed over.
\<close>

theorem refused_not_handed_over:
  assumes "rules_keep M"
  shows "(snd (apply_input_turn M t (se_conversation S)) = Inl e \<longrightarrow> add_input_turn M A t (S, s) = ((S, s), Inl e)) \<and>
    (snd (apply_entry M w n (se_conversation S)) = Inl e \<longrightarrow> add_entry M A w n (S, s) = ((S, s), Inl e)) \<and>
    (snd (apply_closure M w n (se_conversation S)) = Inl e \<longrightarrow> close_turn M A w n (S, s) = ((S, s), Inl e))"
proof -
  have h: "handed ap call (S, s) = ((S, s), Inl e)"
    if "snd ap = Inl e" "fst ap = se_conversation S" for ap and call
    using that by (cases ap) (simp add: handed_def)
  show ?thesis
    using apply_keeps[OF assms] by (simp add: handed_simps h)
qed

theorem refused_not_handed_over_witness:
  "add_entry demo_messages (memory_access demo_uuids demo_messages) demo_turn_ref 0 (demo_session, demo_thread) =
     ((demo_session, demo_thread), Inl (Rules (Cause (Inr ''refused''))))"
proof -
  have "snd (apply_entry demo_messages demo_turn_ref 0 (se_conversation demo_session)) =
      Inl (Rules (Cause (Inr ''refused'')))" by code_simp
  then show ?thesis
    using refused_not_handed_over[OF demo_rules_keep, where w = demo_turn_ref and n = 0 and S = demo_session
        and e = "Rules (Cause (Inr ''refused''))" and s = demo_thread and A = "memory_access demo_uuids demo_messages"]
    by blast
qed

section \<open>Streams of ended objects\<close>

text \<open>One call of the port; what a stream takes is no call of it.\<close>

fun perform :: "uuid_ops \<Rightarrow> ('c, 't, 'ai, 'n, 'e, 'a) messages \<Rightarrow> ('t, 'n, 'a, 'd) call \<Rightarrow>
    ('c, 't, 'n, 'a, 'd) thread_state \<Rightarrow> ('c, 't, 'n, 'a, 'd) thread_state" where
  "perform U M (CallRead t) s = fst (mem_read U t s)"
| "perform U M (CallAddInputTurn t x) s = fst (mem_add_input_turn U M t x s)"
| "perform U M (CallAddEntry t w n) s = fst (mem_add_entry U M t w n s)"
| "perform U M (CallCloseTurn t w n) s = fst (mem_close_turn U M t w n s)"
| "perform U M (CallOpenResponse t w i) s = fst (mem_open_response U t w i s)"
| "perform U M (CallCompleteResponse t w n) s = fst (mem_complete_response U M t w n s)"
| "perform U M (CallDiscardResponse t i) s = fst (mem_discard_response U t i s)"
| "perform U M (CallOpenResult t w i) s = fst (mem_open_result U t w i s)"
| "perform U M (CallCompleteResult t w n) s = fst (mem_complete_result U M t w n s)"
| "perform U M (CallDiscardResult t i) s = fst (mem_discard_result U t i s)"
| "perform U M (CallResponseDelta i d) s = s"
| "perform U M (CallResultFragment i f) s = s"

text \<open>What a call may do to the streams: nothing, begin one or end one.\<close>

definition same_streams :: "('c, 't, 'n, 'a, 'd) thread_state \<Rightarrow> ('c, 't, 'n, 'a, 'd) thread_state \<Rightarrow> bool" where
  "same_streams s s' \<longleftrightarrow> tm_open s' = tm_open s \<and> tm_alive s' = tm_alive s"

lemma perform_streams:
  "same_streams s (perform U M call s) \<or> (\<exists>i. same_streams (fst (begin_stream i s)) (perform U M call s)) \<or>
   (\<exists>i. same_streams (end_stream i s) (perform U M call s))"
  by (cases call; simp add: memory_access_defs store_change_def mem_open_def ended_with_def same_streams_def
      check_thread_def Let_def begin_stream_def end_stream_def split: sum.splits; blast)

lemma streams_ok_same: "same_streams s s' \<Longrightarrow> streams_ok s \<Longrightarrow> streams_ok s'"
  by (simp add: same_streams_def streams_ok_def)

lemma flag_off_length [simp]: "length (flag_off p alive) = length alive"
  by (simp add: flag_off_def split: option.splits)

lemma nth_list_update': "h < length xs \<Longrightarrow> xs[k := x] ! h = (if h = k then x else xs ! h)"
  by (cases "k < length xs") simp_all

lemma flag_off_nth: "h < length alive \<Longrightarrow> flag_off p alive ! h = (alive ! h \<and> p \<noteq> Some h)"
  by (cases p) (auto simp: flag_off_def nth_list_update')

lemma streams_ok_end: "streams_ok s \<Longrightarrow> streams_ok (end_stream i s)"
  unfolding streams_ok_def end_stream_def by (auto simp: flag_off_nth)

lemma streams_ok_begin: "streams_ok s \<Longrightarrow> streams_ok (fst (begin_stream i s))"
  unfolding streams_ok_def begin_stream_def Let_def by (auto simp: flag_off_nth nth_append less_Suc_eq)

lemma streams_ok_perform: "streams_ok s \<Longrightarrow> streams_ok (perform U M call s)"
  using perform_streams[of s U M call] streams_ok_same streams_ok_begin streams_ok_end by blast

lemma streams_ok_fold: "streams_ok s \<Longrightarrow> streams_ok (foldl (\<lambda>s call. perform U M call s) s calls)"
  by (induction calls rule: rev_induct) (simp_all add: streams_ok_perform)

lemma streams_ok_run: "streams_ok (foldl (\<lambda>s call. perform U M call s) (thread_new t c) calls)"
  by (rule streams_ok_fold) (simp add: streams_ok_def thread_new_def)

text \<open>A flag that names no open object stays like that: new objects take new flags.\<close>

definition loose :: "nat \<Rightarrow> ('c, 't, 'n, 'a, 'd) thread_state \<Rightarrow> bool" where
  "loose h s \<longleftrightarrow> h < length (tm_alive s) \<and> (\<forall>i. tm_open s i \<noteq> Some h)"

lemma loose_perform: "loose h s \<Longrightarrow> loose h (perform U M call s)"
  using perform_streams[of s U M call]
  by (auto simp: loose_def same_streams_def begin_stream_def end_stream_def Let_def split: if_splits)

lemma loose_run: "loose h s \<Longrightarrow> loose h (foldl (\<lambda>s call. perform U M call s) s calls)"
  by (induction calls rule: rev_induct) (simp_all add: loose_perform)

definition only_of :: "entry_id \<Rightarrow> nat \<Rightarrow> ('c, 't, 'n, 'a, 'd) thread_state \<Rightarrow> bool" where
  "only_of i h s \<longleftrightarrow> h < length (tm_alive s) \<and> (\<forall>j. tm_open s j = Some h \<longrightarrow> j = i)"

lemma only_of_perform: "only_of i h s \<Longrightarrow> only_of i h (perform U M call s)"
  using perform_streams[of s U M call]
  by (auto simp: only_of_def same_streams_def begin_stream_def end_stream_def Let_def split: if_splits)

lemma only_of_run: "only_of i h s \<Longrightarrow> only_of i h (foldl (\<lambda>s call. perform U M call s) s calls)"
  by (induction calls rule: rev_induct) (simp_all add: only_of_perform)

lemma loose_silent: "streams_ok s \<Longrightarrow> loose h s \<Longrightarrow> \<not> tm_alive s ! h"
  by (auto simp: streams_ok_def loose_def)

text \<open>
  a stream takes what it is given as long as its object is open, and nothing after that: the
  stream an opening gives records what is sent to it; once the object is not open as that stream any
  more (a discard or another opening is enough), whatever is sent to it is dropped, whatever calls
  come after.
\<close>

theorem ended_stream_takes_nothing:
  assumes "s = foldl (\<lambda>s call. perform U M call s) (thread_new t c) before"
    and "mem_open_response U t w i s = (s1, Inr stream)"
    and "s2 = foldl (\<lambda>s call. perform U M call s) s1 between" "tm_open s2 i \<noteq> Some (snd stream)"
    and "s3 = foldl (\<lambda>s call. perform U M call s) s2 after"
  shows "fst stream = i \<and> tm_open s1 i = Some (snd stream) \<and>
    response_send stream d s1 = record_call (CallResponseDelta i d) s1 \<and> response_send stream d s3 = s3 \<and>
    (\<forall>call \<in> {CallDiscardResponse t i, CallDiscardResult t i, CallOpenResponse t w' i, CallOpenResult t w' i}.
       tm_open (perform U M call s1) i \<noteq> Some (snd stream))"
proof -
  have ok: "streams_ok s" unfolding assms(1) by (rule streams_ok_run)
  have t: "tm_thread s = t" and stream: "stream = (i, length (tm_alive s))"
    and s1: "same_streams (fst (begin_stream i s)) s1" and th: "tm_thread s1 = t"
    using assms(2) by (auto simp: mem_open_response_def mem_open_def check_thread_def begin_stream_def same_streams_def
        record_call_def Let_def split: if_splits)
  have ok1: "streams_ok s1" by (rule streams_ok_same[OF s1 streams_ok_begin[OF ok]])
  have o: "tm_open s1 i = Some (snd stream)" and l: "snd stream < length (tm_alive s1)"
    using s1 by (simp_all add: same_streams_def begin_stream_def stream Let_def)
  have only: "only_of i (snd stream) s1" using ok1 o l unfolding streams_ok_def only_of_def by blast
  have "loose (snd stream) s2"
    using only_of_run[OF only, of U M between] assms(3,4) unfolding only_of_def loose_def by blast
  then have "loose (snd stream) s3" unfolding assms(5) by (rule loose_run)
  moreover have "streams_ok s3" unfolding assms(5,3) by (rule streams_ok_fold[OF streams_ok_fold[OF ok1]])
  ultimately have "response_send stream d s3 = s3" using loose_silent by (auto simp: response_send_def)
  moreover have "tm_alive s1 ! snd stream" using ok1 o l unfolding streams_ok_def by blast
  moreover have "tm_open (perform U M call s1) i \<noteq> Some (snd stream)"
    if "call \<in> {CallDiscardResponse t i, CallDiscardResult t i, CallOpenResponse t w' i, CallOpenResult t w' i}" for call
    using that th l by (auto simp: memory_access_defs mem_open_def check_thread_def ended_with_def end_stream_def
        begin_stream_def Let_def)
  ultimately show ?thesis using o stream by (simp add: response_send_def)
qed

theorem ended_stream_takes_nothing_witness:
  "let open_call = (\<lambda>s. mem_open_response demo_uuids (ThreadRef 1) demo_turn_ref 5 s);
       s1 = fst (open_call demo_thread);
       s2 = perform demo_uuids demo_messages (CallDiscardResponse (ThreadRef 1) 5) s1
   in response_send (5, 0) ''d'' s1 = record_call (CallResponseDelta 5 ''d'') s1 \<and> response_send (5, 0) ''d'' s2 = s2"
proof -
  let ?s1 = "fst (mem_open_response demo_uuids (ThreadRef 1) demo_turn_ref 5 demo_thread)"
  let ?s2 = "perform demo_uuids demo_messages (CallDiscardResponse (ThreadRef 1) 5) ?s1"
  have o: "mem_open_response demo_uuids (ThreadRef 1) demo_turn_ref 5 demo_thread = (?s1, Inr (5, 0))"
    by (simp add: mem_open_response_def mem_open_def check_thread_def begin_stream_def demo_thread_def thread_new_def
        record_call_def Let_def)
  moreover have "tm_open ?s2 5 \<noteq> Some (snd (5, 0))"
    by (simp add: memory_access_defs mem_open_def check_thread_def begin_stream_def demo_thread_def thread_new_def
        record_call_def ended_with_def end_stream_def Let_def)
  ultimately show ?thesis
    using ended_stream_takes_nothing[where s = demo_thread and U = demo_uuids and M = demo_messages and t = "ThreadRef 1"
      and c = "[]" and before = "[]" and w = demo_turn_ref and i = 5 and ?s1.0 = ?s1 and stream = "(5, 0)" and ?s2.0 = ?s2
      and between = "[CallDiscardResponse (ThreadRef 1) 5]" and ?s3.0 = ?s2 and after = "[]" and d = "''d''"]
    by (simp add: demo_thread_def Let_def)
qed

end
