(* ===== verification/Agentic_Inbox.thy ===== *)
theory Agentic_Inbox
  imports Agentic_Mail Exec_Work
begin

text \<open>
  The in-memory inbox of \<open>br-agentic-contract/src/memory/inbox.rs\<close>: mails and entries in the order
  they came, read marks, and the paged list of what an agent has not read. Each call holds the lock
  for its whole change. The sequence numbers are \<open>u64\<close>; they stay below \<open>2 ^ 64\<close> (\<open>inbox_ok\<close>).
\<close>

section \<open>Numbers as text\<close>

definition digit_value :: "char \<Rightarrow> nat" where
  "digit_value c = of_char c - 48"

definition is_digit :: "char \<Rightarrow> bool" where
  "is_digit c = byte_in 48 57 c"

text \<open>\<open>str::parse::<u64>\<close>: a sign and at least one digit, within the range.\<close>

definition parse_u64 :: "string \<Rightarrow> nat option" where
  "parse_u64 s = (let ds = (case s of c # r \<Rightarrow> if c = CHR ''+'' \<and> r \<noteq> [] then r else s | [] \<Rightarrow> []) in
     if ds = [] \<or> \<not> list_all is_digit ds then None
     else let n = foldl (\<lambda>n c. 10 * n + digit_value c) 0 ds in
       if int n < 18446744073709551616 then Some n else None)"

section \<open>State\<close>

record ('a, 'e) memory_inbox =
  mi_next_seq :: nat
  mi_mails :: "(nat \<times> agent_id \<times> 'a new_mail) list"
  mi_entries :: "(nat \<times> agent_id \<times> 'e) list"
  mi_documents :: "document_ref \<Rightarrow> 8 word list option"
  mi_read :: "(agent_id \<times> entry_id) list"
  mi_arrivals :: nat

definition memory_inbox_new :: "('a, 'e) memory_inbox" where
  "memory_inbox_new = \<lparr>mi_next_seq = 0, mi_mails = [], mi_entries = [], mi_documents = (\<lambda>_. None),
     mi_read = [], mi_arrivals = 0\<rparr>"

definition mail_item_for :: "agent_id \<Rightarrow> 'a new_mail \<Rightarrow> agent_id \<Rightarrow> 'a mail_item option" where
  "mail_item_for sender m agent =
     (if agent \<in> set (nm_to m) then
        Some (MailTo (nm_id m) sender (nm_author m) (nm_source m) (nm_to m) (nm_cc m) (nm_subject m)
          (nm_body m) (map at_name (nm_attachments m)))
      else if agent \<in> set (nm_cc m) then Some (MailCc (nm_id m) (nm_subject m))
      else None)"

type_synonym ('a, 'e) listed = "nat \<times> agent_id \<times> ('a, 'e) inbox_item"

definition mail_listings :: "nat \<times> agent_id \<times> 'a new_mail \<Rightarrow> ('a, 'e) listed list" where
  "mail_listings sent = (case sent of (sq, sender, m) \<Rightarrow>
     List.map_filter (\<lambda>agent. map_option (\<lambda>it. (sq, agent, ItemMail it)) (mail_item_for sender m agent))
       (nm_to m @ nm_cc m))"

definition listed :: "('a, 'e) memory_inbox \<Rightarrow> ('a, 'e) listed list" where
  "listed I = sort_key fst (concat (map mail_listings (mi_mails I)) @
     map (\<lambda>(sq, agent, e). (sq, agent, ItemEntry e)) (mi_entries I))"

definition unread :: "('a, 'e) entry_ops \<Rightarrow> ('a, 'e) memory_inbox \<Rightarrow> agent_id \<Rightarrow> (nat \<times> ('a, 'e) inbox_item) list" where
  "unread N I agent = map (\<lambda>(sq, _, it). (sq, it))
     (filter (\<lambda>(_, _, it). (agent, item_id N it) \<notin> set (mi_read I))
       (filter (\<lambda>(_, a, _). a = agent) (listed I)))"

section \<open>Operations\<close>

definition take_seq :: "('a, 'e) memory_inbox \<Rightarrow> ('a, 'e) memory_inbox \<times> nat" where
  "take_seq I = (I\<lparr>mi_next_seq := mi_next_seq I + 1\<rparr>, mi_next_seq I + 1)"

definition announce :: "('a, 'e) memory_inbox \<Rightarrow> ('a, 'e) memory_inbox" where
  "announce I = I\<lparr>mi_arrivals := mi_arrivals I + 1\<rparr>"

definition deliver_entry :: "agent_id \<Rightarrow> 'e \<Rightarrow> ('a, 'e) memory_inbox \<Rightarrow> ('a, 'e) memory_inbox" where
  "deliver_entry agent e I = (case take_seq I of (I, sq) \<Rightarrow>
     announce (I\<lparr>mi_entries := mi_entries I @ [(sq, agent, e)]\<rparr>))"

definition deliver_mail ::
  "uuid_ops \<Rightarrow> agent_id \<Rightarrow> 'a new_mail \<Rightarrow> ('a, 'e) memory_inbox \<Rightarrow> ('a, 'e) memory_inbox \<times> (port_error + unit)" where
  "deliver_mail U sender m I = (case refusal U m of
     Some reason \<Rightarrow> (I, Inl (Refused reason))
   | None \<Rightarrow>
      if list_ex (\<lambda>(_, _, sent). nm_id sent = nm_id m) (mi_mails I) then (I, Inr ())
      else (case take_seq I of (I, sq) \<Rightarrow>
        (announce (I\<lparr>mi_mails := mi_mails I @ [(sq, sender, m)]\<rparr>), Inr ())))"

definition put_document :: "document_ref \<Rightarrow> 8 word list \<Rightarrow> ('a, 'e) memory_inbox \<Rightarrow> ('a, 'e) memory_inbox" where
  "put_document r content I = I\<lparr>mi_documents := (mi_documents I)(r \<mapsto> content)\<rparr>"

definition inbox_mail :: "mail_id \<Rightarrow> ('a, 'e) memory_inbox \<Rightarrow> (agent_id \<times> 'a new_mail) option" where
  "inbox_mail i I = map_option snd (find (\<lambda>(_, _, m). nm_id m = i) (mi_mails I))"

definition is_read :: "agent_id \<Rightarrow> entry_id \<Rightarrow> ('a, 'e) memory_inbox \<Rightarrow> bool" where
  "is_read agent it I = ((agent, it) \<in> set (mi_read I))"

definition cursor_position :: "cursor option \<Rightarrow> port_error + nat" where
  "cursor_position after = (case after of
     None \<Rightarrow> Inr 0
   | Some (Cursor s) \<Rightarrow> (case parse_u64 s of
       Some n \<Rightarrow> Inr n | None \<Rightarrow> Inl (port_fault ''the cursor was not given by this inbox'')))"

definition inbox_items ::
  "('a, 'e) entry_ops \<Rightarrow> ('a, 'e) memory_inbox \<Rightarrow> agent_id \<Rightarrow> nat \<Rightarrow> cursor option \<Rightarrow>
     port_error + ('a, 'e) inbox_item page" where
  "inbox_items N I agent limit after = bind_sum (cursor_position after) (\<lambda>p.
     let left = filter (\<lambda>u. p < fst u) (unread N I agent);
         page = take limit left
     in Inr (map snd page,
       if page \<noteq> [] \<and> drop limit left \<noteq> [] then Some (Cursor (show_nat (fst (last page)))) else None))"

text \<open>\<open>wait\<close> is ready when an item is unread, else it waits for the next announcement.\<close>

definition inbox_wait :: "('a, 'e) entry_ops \<Rightarrow> ('a, 'e) memory_inbox \<Rightarrow> agent_id \<Rightarrow> bool" where
  "inbox_wait N I agent = (unread N I agent \<noteq> [])"

definition mark_read ::
  "('a, 'e) entry_ops \<Rightarrow> agent_id \<Rightarrow> entry_id \<Rightarrow> ('a, 'e) memory_inbox \<Rightarrow> ('a, 'e) memory_inbox" where
  "mark_read N agent it I =
     (if list_ex (\<lambda>(_, a, x). a = agent \<and> item_id N x = it) (listed I)
      then I\<lparr>mi_read := List.insert (agent, it) (mi_read I)\<rparr> else I)"

definition inbox_documents ::
  "agent_id \<Rightarrow> mail_id \<Rightarrow> ('a, 'e) memory_inbox \<Rightarrow> port_error + mail_document list" where
  "inbox_documents agent i I =
     (case find (\<lambda>(_, _, m). nm_id m = i \<and> agent \<in> set (nm_to m)) (mi_mails I) of
        None \<Rightarrow> Inl (port_refused ''the agent is not a recipient in to of that mail'')
      | Some (_, _, m) \<Rightarrow> for_each (\<lambda>docs att. case mi_documents I (at_document att) of
            Some content \<Rightarrow> Inr (docs @ [\<lparr>md_name = at_name att, md_content = content\<rparr>])
          | None \<Rightarrow> Inl (port_fault ''a document of the mail is unavailable'')) [] (nm_attachments m))"

section \<open>Lemmas on numbers\<close>

lemma digit_facts: "n < 10 \<Longrightarrow> is_digit (digit n) \<and> digit_value (digit n) = n \<and> digit n \<noteq> CHR ''+''"
proof -
  assume n: "n < 10"
  then have "of_char (digit n) = 48 + n" by (simp add: digit_def)
  moreover have "digit n \<noteq> CHR ''+''"
  proof
    assume "digit n = CHR ''+''"
    then have "of_char (digit n) = (43::nat)" by simp
    then show False using \<open>of_char (digit n) = 48 + n\<close> by simp
  qed
  ultimately show ?thesis using n by (simp add: is_digit_def byte_in_def digit_value_def)
qed

lemma show_nat_digits: "list_all is_digit (show_nat n) \<and> hd (show_nat n) \<noteq> CHR ''+''
    \<and> foldl (\<lambda>n c. 10 * n + digit_value c) 0 (show_nat n) = n"
proof (induction n rule: show_nat.induct)
  case (1 n)
  show ?case
  proof (cases "n < 10")
    case True
    then show ?thesis using digit_facts[of n] by (simp add: show_nat.simps)
  next
    case False
    then show ?thesis using "1.IH" digit_facts[of "n mod 10"] by (subst (1 2 3) show_nat.simps) simp
  qed
qed

lemma parse_show: "n < 2 ^ 64 \<Longrightarrow> parse_u64 (show_nat n) = Some n"
proof -
  assume n: "n < 2 ^ 64"
  have "int n < 18446744073709551616" using n by simp
  moreover have "(case show_nat n of c # r \<Rightarrow> if c = CHR ''+'' \<and> r \<noteq> [] then r else show_nat n | [] \<Rightarrow> []) = show_nat n"
    using show_nat_digits[of n] by (cases "show_nat n") auto
  ultimately show ?thesis using show_nat_digits[of n] by (simp add: parse_u64_def Let_def)
qed

section \<open>The invariant\<close>

text \<open>
  Every mail and entry has a sequence number of its own, none above the last one given, which still
  fits a \<open>u64\<close>; a mail was accepted, so each recipient is listed once, and each mail is kept once.
\<close>

definition seqs :: "('a, 'e) memory_inbox \<Rightarrow> nat list" where
  "seqs I = map fst (mi_mails I) @ map fst (mi_entries I)"

definition mail_ids :: "('a, 'e) memory_inbox \<Rightarrow> mail_id list" where
  "mail_ids I = map (\<lambda>(_, _, m). nm_id m) (mi_mails I)"

definition inbox_ok :: "('a, 'e) memory_inbox \<Rightarrow> bool" where
  "inbox_ok I \<longleftrightarrow> distinct (seqs I) \<and> (\<forall>sq \<in> set (seqs I). 0 < sq \<and> sq \<le> mi_next_seq I) \<and>
     mi_next_seq I < 2 ^ 64 \<and> distinct (mail_ids I) \<and>
     (\<forall>(_, _, m) \<in> set (mi_mails I). nm_to m \<noteq> [] \<and> distinct (nm_to m @ nm_cc m))"

lemma inbox_ok_new: "inbox_ok memory_inbox_new"
  by (simp add: inbox_ok_def memory_inbox_new_def seqs_def mail_ids_def)

lemma inbox_ok_seq: "inbox_ok I \<Longrightarrow> sq \<in> set (seqs I) \<Longrightarrow> 0 < sq \<and> sq < 2 ^ 64"
  by (fastforce simp: inbox_ok_def)

lemma fresh_seq: "inbox_ok I \<Longrightarrow> Suc (mi_next_seq I) \<notin> set (seqs I)"
  by (fastforce simp: inbox_ok_def)

lemma inbox_ok_entry:
  assumes "inbox_ok I" "mi_next_seq I + 1 < 2 ^ 64"
  shows "inbox_ok (deliver_entry agent e I)"
  using assms fresh_seq[OF assms(1)]
  by (auto simp: inbox_ok_def deliver_entry_def take_seq_def announce_def seqs_def mail_ids_def intro: le_SucI)

lemma deliver_mail_cases:
  obtains (refused) rsn where "refusal U m = Some rsn" "deliver_mail U sender m I = (I, Inl (Refused rsn))"
  | (known) "refusal U m = None" "nm_id m \<in> set (mail_ids I)" "deliver_mail U sender m I = (I, Inr ())"
  | (stored) "refusal U m = None" "nm_id m \<notin> set (mail_ids I)"
      "deliver_mail U sender m I = (I\<lparr>mi_next_seq := mi_next_seq I + 1,
         mi_mails := mi_mails I @ [(mi_next_seq I + 1, sender, m)], mi_arrivals := mi_arrivals I + 1\<rparr>, Inr ())"
proof -
  have "list_ex (\<lambda>(_, _, sent). nm_id sent = nm_id m) (mi_mails I) \<longleftrightarrow> nm_id m \<in> set (mail_ids I)"
    by (force simp: list_ex_iff mail_ids_def)
  then show thesis
    using that by (cases "refusal U m"; cases "nm_id m \<in> set (mail_ids I)")
      (simp_all add: deliver_mail_def take_seq_def announce_def)
qed

lemma inbox_ok_mail:
  assumes "inbox_ok I" "mi_next_seq I + 1 < 2 ^ 64"
  shows "inbox_ok (fst (deliver_mail U sender m I))"
proof (cases rule: deliver_mail_cases[of U m sender I])
  case stored
  then show ?thesis
    using assms fresh_seq[OF assms(1)]
    by (auto simp: inbox_ok_def seqs_def mail_ids_def refusal_None_iff intro: le_SucI)
qed (use assms in simp_all)

lemma inbox_ok_unchanged:
  "inbox_ok I \<Longrightarrow> inbox_ok (put_document r content I)"
  "inbox_ok I \<Longrightarrow> inbox_ok (mark_read N agent it I)"
  by (simp_all add: put_document_def mark_read_def inbox_ok_def seqs_def mail_ids_def)

section \<open>What is listed for an agent\<close>

lemma filter_eq_distinct: "distinct xs \<Longrightarrow> filter (\<lambda>x. x = a) xs = (if a \<in> set xs then [a] else [])"
  by (induction xs) auto

lemma filter_map_filter:
  assumes "\<And>x y. f x = Some y \<Longrightarrow> P y \<longleftrightarrow> Q x"
  shows "filter P (List.map_filter f xs) = List.map_filter f (filter Q xs)"
  using assms by (induction xs) (auto simp: List.map_filter_simps split: option.splits)

definition addressed :: "agent_id \<Rightarrow> nat \<times> agent_id \<times> 'a new_mail \<Rightarrow> bool" where
  "addressed agent sent = (agent \<in> set (nm_to (snd (snd sent))) \<or> agent \<in> set (nm_cc (snd (snd sent))))"

definition listing :: "agent_id \<Rightarrow> nat \<times> agent_id \<times> 'a new_mail \<Rightarrow> ('a, 'e) listed" where
  "listing agent sent = (fst sent, agent, ItemMail (the (mail_item_for (fst (snd sent)) (snd (snd sent)) agent)))"

lemma mail_listings_of:
  assumes "distinct (nm_to m @ nm_cc m)"
  shows "filter (\<lambda>(_, a, _). a = agent) (mail_listings (sq, sender, m)) =
    (if addressed agent (sq, sender, m) then [listing agent (sq, sender, m)] else [])"
proof -
  have "filter (\<lambda>(_, a, _). a = agent) (mail_listings (sq, sender, m)) =
    List.map_filter (\<lambda>x. map_option (\<lambda>it. (sq, x, ItemMail it)) (mail_item_for sender m x))
      (filter (\<lambda>x. x = agent) (nm_to m @ nm_cc m))"
    unfolding mail_listings_def prod.case by (rule filter_map_filter) auto
  also have "\<dots> = (if addressed agent (sq, sender, m) then [listing agent (sq, sender, m)] else [])"
    unfolding filter_eq_distinct[OF assms]
    by (auto simp: addressed_def listing_def List.map_filter_simps mail_item_for_def)
  finally show ?thesis .
qed

lemma filter_concat_cond:
  assumes "\<And>x. x \<in> set xs \<Longrightarrow> filter P (f x) = (if Q x then [g x] else [])"
  shows "filter P (concat (map f xs)) = map g (filter Q xs)"
  using assms by (induction xs) auto

definition listed_for :: "('a, 'e) memory_inbox \<Rightarrow> agent_id \<Rightarrow> ('a, 'e) listed list" where
  "listed_for I agent = filter (\<lambda>(_, a, _). a = agent) (listed I)"

lemma listed_for_eq:
  fixes I :: "('a, 'e) memory_inbox"
  assumes "inbox_ok I"
  shows "listed_for I agent = sort_key fst (map (listing agent) (filter (addressed agent) (mi_mails I)) @
    map (\<lambda>(sq, a, e). (sq, a, ItemEntry e)) (filter (\<lambda>(_, a, _). a = agent) (mi_entries I)))"
proof -
  have "filter (\<lambda>(_, a, _). a = agent) (mail_listings sent :: ('a, 'e) listed list) =
      (if addressed agent sent then [listing agent sent] else [])" if "sent \<in> set (mi_mails I)" for sent
    using assms that mail_listings_of[of "snd (snd sent)" agent "fst sent" "fst (snd sent)"]
    by (cases sent) (fastforce simp: inbox_ok_def)
  then have "filter (\<lambda>(_, a, _). a = agent) (concat (map mail_listings (mi_mails I)) :: ('a, 'e) listed list) =
      map (listing agent) (filter (addressed agent) (mi_mails I))"
    by (rule filter_concat_cond)
  moreover have "filter (\<lambda>(_, a, _). a = agent)
        (map (\<lambda>(sq, a, e). (sq, a, ItemEntry e)) (mi_entries I) :: ('a, 'e) listed list) =
      map (\<lambda>(sq, a, e). (sq, a, ItemEntry e)) (filter (\<lambda>(_, a, _). a = agent) (mi_entries I))"
    by (induction "mi_entries I" arbitrary: I) (simp_all add: filter_map comp_def case_prod_unfold)
  ultimately show ?thesis by (simp add: listed_for_def listed_def filter_sort)
qed

lemma sorted_listed_for:
  assumes "inbox_ok I"
  shows "sorted_wrt (<) (map fst (listed_for I agent))" "fst ` set (listed_for I agent) \<subseteq> set (seqs I)"
proof -
  let ?l = "map fst (filter (addressed agent) (mi_mails I)) @ map fst (filter (\<lambda>(_, a, _). a = agent) (mi_entries I))"
  have keys: "mset (map fst (listed_for I agent)) = mset ?l"
    unfolding listed_for_eq[OF assms]
    by (simp add: listing_def multiset.map_comp comp_def case_prod_unfold)
  then have set: "set (map fst (listed_for I agent)) = set ?l" by (rule mset_eq_setD)
  then show "fst ` set (listed_for I agent) \<subseteq> set (seqs I)" by (auto simp: seqs_def)
  have "distinct ?l"
    using assms by (auto simp: inbox_ok_def seqs_def distinct_map_filter)
  then have "distinct (map fst (listed_for I agent))" using keys by (metis mset_eq_imp_distinct_iff)
  moreover have "sorted (map fst (listed_for I agent))" by (simp add: listed_for_eq[OF assms])
  ultimately show "sorted_wrt (<) (map fst (listed_for I agent))" by (simp add: strict_sorted_iff)
qed

lemma unread_eq: "unread N I agent =
    map (\<lambda>(sq, _, it). (sq, it)) (filter (\<lambda>(_, _, it). (agent, item_id N it) \<notin> set (mi_read I)) (listed_for I agent))"
  by (simp add: unread_def listed_for_def)

lemma sorted_unread:
  assumes "inbox_ok I"
  shows "sorted_wrt (<) (map fst (unread N I agent))" "fst ` set (unread N I agent) \<subseteq> set (seqs I)"
proof -
  have "map fst (unread N I agent) =
      map fst (filter (\<lambda>(_, _, it). (agent, item_id N it) \<notin> set (mi_read I)) (listed_for I agent))"
    by (simp add: unread_eq comp_def case_prod_unfold)
  then show "sorted_wrt (<) (map fst (unread N I agent))"
    using sorted_listed_for(1)[OF assms, of agent] by (simp add: sorted_wrt_map sorted_wrt_filter)
  show "fst ` set (unread N I agent) \<subseteq> set (seqs I)"
    using sorted_listed_for(2)[OF assms, of agent] by (fastforce simp: unread_eq)
qed

definition cursor_at :: "cursor option \<Rightarrow> nat" where
  "cursor_at after = (case cursor_position after of Inr n \<Rightarrow> n | Inl _ \<Rightarrow> 0)"

lemma cursor_at_seq: "n < 2 ^ 64 \<Longrightarrow> cursor_position (Some (Cursor (show_nat n))) = Inr n"
  by (simp add: cursor_position_def parse_show)

lemma last_take: "0 < n \<Longrightarrow> n < length xs \<Longrightarrow> last (take n xs) = xs ! (n - 1)"
  by (subst last_conv_nth) auto

section \<open>The inbox keeps the contract of its readers\<close>

lemma inbox_items_page:
  assumes "inbox_ok I" "0 < batch" "cursor_position after = Inr p" "p = 0 \<or> p \<in> set (seqs I)"
  shows "inbox_items N I agent batch after = Inr (map snd (take batch (filter (\<lambda>u. p < fst u) (unread N I agent))),
    if length (filter (\<lambda>u. p < fst u) (unread N I agent)) \<le> batch then None
    else Some (Cursor (show_nat (fst (filter (\<lambda>u. p < fst u) (unread N I agent) ! (batch - 1))))))"
  using assms(2,3) by (auto simp: inbox_items_def Let_def last_take not_le)

interpretation mi: paged_items inbox_ok "\<lambda>I. inbox_items N I agent" "\<lambda>I. unread N I agent" cursor_at
  for N :: "('a, 'e) entry_ops" and agent
proof unfold_locales
  fix I :: "('a, 'e) memory_inbox" assume ok: "inbox_ok I"
  show "sorted_wrt (<) (map fst (unread N I agent))" by (rule sorted_unread(1)[OF ok])
next
  show "cursor_at None = 0" by (simp add: cursor_at_def cursor_position_def)
next
  fix I :: "('a, 'e) memory_inbox" and p assume "inbox_ok I" "p \<in> set (map fst (unread N I agent))"
  then show "0 < p" using sorted_unread(2) inbox_ok_seq by fastforce
next
  fix I :: "('a, 'e) memory_inbox" and batch :: nat and after
  let ?rest = "filter (\<lambda>u. cursor_at after < fst u) (unread N I agent)"
  assume a: "inbox_ok I" "0 < batch" "after = None \<or> cursor_at after \<in> set (map fst (unread N I agent))"
  have seq: "cursor_at after = 0 \<or> cursor_at after \<in> set (seqs I)"
    using a(3) sorted_unread(2)[OF a(1)] by (force simp: cursor_at_def cursor_position_def)
  have "cursor_position after = Inr (cursor_at after)"
    using a(3) sorted_unread(2)[OF a(1), of N agent] inbox_ok_seq[OF a(1), of "cursor_at after"]
    by (force simp: cursor_at_def cursor_position_def split: sum.splits)
  note page = inbox_items_page[OF a(1,2) this seq, of N agent]
  have "\<exists>c. Cursor (show_nat (fst (?rest ! (batch - 1)))) = c \<and> cursor_at (Some c) = fst (?rest ! (batch - 1))"
    if "batch < length ?rest"
  proof -
    have "?rest ! (batch - 1) \<in> set ?rest" using that by (intro nth_mem) simp
    then have "fst (?rest ! (batch - 1)) \<in> set (seqs I)" using sorted_unread(2)[OF a(1), of N agent] by auto
    then have "fst (?rest ! (batch - 1)) < 2 ^ 64" using inbox_ok_seq[OF a(1)] by simp
    then show ?thesis by (simp add: cursor_at_def cursor_at_seq)
  qed
  then show "\<exists>nxt. inbox_items N I agent batch after = Inr (map snd (take batch ?rest), nxt) \<and>
      (if length ?rest \<le> batch then nxt = None
       else \<exists>c. nxt = Some c \<and> cursor_at (Some c) = fst (?rest ! (batch - 1)))"
    unfolding page by auto
qed

section \<open>Deliveries and read marks\<close>

lemma sort_key_last:
  assumes "\<forall>x \<in> set xs \<union> set ys. f x < (f z :: nat)"
  shows "sort_key f (xs @ z # ys) = sort_key f (xs @ ys) @ [z]"
proof (rule properties_for_sort_key)
  show "sorted (map f (sort_key f (xs @ ys) @ [z]))"
    using assms by (auto simp: sorted_append intro: less_imp_le)
next
  fix k assume "k \<in> set (sort_key f (xs @ ys) @ [z])"
  have stable: "filter (\<lambda>x. f k = f x) (sort_key f (xs @ ys)) = filter (\<lambda>x. f k = f x) (xs @ ys)"
    using sort_key_stable[of f "f k" "xs @ ys"] by (simp add: eq_commute)
  show "filter (\<lambda>x. f k = f x) (sort_key f (xs @ ys) @ [z]) = filter (\<lambda>x. f k = f x) (xs @ z # ys)"
  proof (cases "f k = f z")
    case True
    then have "filter (\<lambda>x. f k = f x) ys = []" "filter (\<lambda>x. f k = f x) xs = []"
      using assms by (auto simp: filter_empty_conv)
    then show ?thesis using stable True by simp
  next
    case False
    then show ?thesis using stable by simp
  qed
qed simp

definition mails_for :: "('a, 'e) memory_inbox \<Rightarrow> agent_id \<Rightarrow> ('a, 'e) listed list" where
  "mails_for I a = map (listing a) (filter (addressed a) (mi_mails I))"

definition entries_for :: "('a, 'e) memory_inbox \<Rightarrow> agent_id \<Rightarrow> ('a, 'e) listed list" where
  "entries_for I a = map (\<lambda>(sq, a, e). (sq, a, ItemEntry e)) (filter (\<lambda>(_, x, _). x = a) (mi_entries I))"

lemma listed_for_parts: "inbox_ok I \<Longrightarrow> listed_for I a = sort_key fst (mails_for I a @ entries_for I a)"
  by (simp add: listed_for_eq mails_for_def entries_for_def)

lemma keys_in: "fst ` set (mails_for I a) \<subseteq> set (seqs I)" "fst ` set (entries_for I a) \<subseteq> set (seqs I)"
  by (force simp: seqs_def listing_def mails_for_def entries_for_def)+

lemma keys_below: "inbox_ok I \<Longrightarrow> \<forall>x \<in> set (mails_for I a) \<union> set (entries_for I a). fst x < Suc (mi_next_seq I)"
proof
  fix x assume "inbox_ok I" "x \<in> set (mails_for I a) \<union> set (entries_for I a)"
  then have "fst x \<in> set (seqs I)" using keys_in[of I a] by blast
  then show "fst x < Suc (mi_next_seq I)" using \<open>inbox_ok I\<close> by (simp add: inbox_ok_def less_Suc_eq_le)
qed

lemma parts_entry:
  "mails_for (deliver_entry agent e I) a = mails_for I a"
  "entries_for (deliver_entry agent e I) a =
     entries_for I a @ (if a = agent then [(Suc (mi_next_seq I), agent, ItemEntry e)] else [])"
  by (simp_all add: mails_for_def entries_for_def deliver_entry_def take_seq_def announce_def)

lemma listed_for_entry:
  assumes "inbox_ok I" "mi_next_seq I + 1 < 2 ^ 64"
  shows "listed_for (deliver_entry agent e I) a = listed_for I a @
    (if a = agent then [(mi_next_seq I + 1, agent, ItemEntry e)] else [])"
proof -
  have "\<forall>x \<in> set (mails_for I a @ entries_for I a) \<union> set []. fst x < fst (Suc (mi_next_seq I), agent, ItemEntry e)"
    using keys_below[OF assms(1), of a] by simp
  from sort_key_last[OF this] show ?thesis
    by (cases "a = agent") (simp_all add: listed_for_parts inbox_ok_entry[OF assms] assms(1) parts_entry)
qed

lemma listed_for_mail:
  assumes "inbox_ok I" "mi_next_seq I + 1 < 2 ^ 64" "refusal U m = None" "nm_id m \<notin> set (mail_ids I)"
  shows "listed_for (fst (deliver_mail U sender m I)) a = listed_for I a @
    (if addressed a (mi_next_seq I + 1, sender, m) then [listing a (mi_next_seq I + 1, sender, m)] else [])"
proof -
  let ?I = "fst (deliver_mail U sender m I)" and ?new = "(Suc (mi_next_seq I), sender, m)"
  have parts: "mails_for ?I a = mails_for I a @ (if addressed a ?new then [listing a ?new] else [])"
    "entries_for ?I a = entries_for I a"
    using assms(3,4) by (cases rule: deliver_mail_cases[of U m sender I]; simp add: mails_for_def entries_for_def)+
  have "\<forall>x \<in> set (mails_for I a) \<union> set (entries_for I a). fst x < fst (listing a ?new)"
    using keys_below[OF assms(1), of a] by (simp add: listing_def)
  from sort_key_last[OF this] show ?thesis
    by (simp add: listed_for_parts inbox_ok_mail[OF assms(1,2)] assms(1) parts)
qed

lemma listing_item: "snd (snd (listing a (sq, sender, m))) = ItemMail (the (mail_item_for sender m a))"
  "fst (listing a sent) = fst sent" "fst (snd (listing a sent)) = a"
  by (simp_all add: listing_def)

lemma mail_item_for_id: "addressed a (sq, sender, m) \<Longrightarrow>
    \<exists>it. mail_item_for sender m a = Some it \<and> mail_item_id it = nm_id m"
  by (auto simp: addressed_def mail_item_for_def)

lemma find_last_new: "\<forall>x \<in> set xs. \<not> P x \<Longrightarrow> P y \<Longrightarrow> find P (xs @ [y]) = Some y"
  by (induction xs) auto

lemma find_key_cond:
  assumes "distinct (map f xs)"
  shows "find (\<lambda>x. f x = k \<and> Q x) xs =
    (case find (\<lambda>x. f x = k) xs of Some x \<Rightarrow> if Q x then Some x else None | None \<Rightarrow> None)"
  using assms
proof (induction xs)
  case (Cons x xs)
  show ?case
  proof (cases "f x = k")
    case True
    then have "find (\<lambda>x. f x = k \<and> Q x) xs = None" using Cons.prems by (auto simp: find_None_iff) (metis image_eqI)
    then show ?thesis using True by simp
  next
    case False
    then show ?thesis using Cons by simp
  qed
qed simp

definition demo_mail :: "nat \<Rightarrow> string new_mail" where
  "demo_mail n = \<lparr>nm_id = MailId (of_nat n), nm_author = ''agent'', nm_source = 5, nm_to = [2], nm_cc = [3],
     nm_subject = ''s'', nm_body = ''b'',
     nm_attachments = [\<lparr>at_name = ''notes'', at_document = DocumentRef ''d''\<rparr>]\<rparr>"

text \<open>An entry of the demo is its id.\<close>

definition demo_entries :: "(string, 128 word) entry_ops" where
  "demo_entries = \<lparr>en_id = (\<lambda>e. e), en_kind = (\<lambda>_. HumanMessage), en_sender = (\<lambda>_. 1),
     en_author = (\<lambda>_. ''user''), en_source = (\<lambda>_. 5)\<rparr>"

definition demo_inbox :: "(string, 128 word) memory_inbox" where
  "demo_inbox = put_document (DocumentRef ''d'') [7]
     (deliver_entry 2 9 (fst (deliver_mail demo_uuids 1 (demo_mail 8) memory_inbox_new)))"

lemma demo_inbox_ok: "inbox_ok demo_inbox"
proof -
  have s: "mi_next_seq (fst (deliver_mail demo_uuids 1 (demo_mail 8) memory_inbox_new)) = 1" by code_simp
  show ?thesis
    unfolding demo_inbox_def
    by (intro inbox_ok_unchanged(1) inbox_ok_entry inbox_ok_mail inbox_ok_new; (subst s)?)
      (simp_all add: memory_inbox_new_def)
qed

text \<open>C37: a mail is delivered once: a refused mail and a mail whose id is already in the inbox change
  nothing; any other is unread, after all that was unread, for each agent its \<open>to\<close> or \<open>cc\<close> lists (and
  has no read mark for its id), as a mail of \<open>to\<close> or of \<open>cc\<close>, and for nobody else.\<close>

theorem delivered_once:
  assumes "inbox_ok I" "mi_next_seq I + 1 < 2 ^ 64"
  shows "case deliver_mail U sender m I of (I', res) \<Rightarrow> inbox_ok I' \<and>
    (case refusal U m of Some rsn \<Rightarrow> I' = I \<and> res = Inl (Refused rsn)
     | None \<Rightarrow> res = Inr () \<and> (if nm_id m \<in> set (mail_ids I) then I' = I
        else mi_arrivals I' = mi_arrivals I + 1 \<and> inbox_mail (nm_id m) I' = Some (sender, m) \<and>
          (\<forall>agent. unread N I' agent = unread N I agent @ (case mail_item_for sender m agent of
             Some it \<Rightarrow> if (agent, mail_entry_id (nm_id m)) \<in> set (mi_read I) then []
               else [(mi_next_seq I + 1, ItemMail it)]
           | None \<Rightarrow> []))))"
proof (cases rule: deliver_mail_cases[of U m sender I])
  case stored
  let ?I = "fst (deliver_mail U sender m I)" and ?new = "(mi_next_seq I + 1, sender, m)"
  have read: "mi_read ?I = mi_read I" using stored(3) by simp
  have "unread N ?I agent = unread N I agent @ (case mail_item_for sender m agent of
      Some it \<Rightarrow> if (agent, mail_entry_id (nm_id m)) \<in> set (mi_read I) then [] else [(mi_next_seq I + 1, ItemMail it)]
    | None \<Rightarrow> [])" for agent
  proof (cases "addressed agent ?new")
    case True
    then obtain it where "mail_item_for sender m agent = Some it" "mail_item_id it = nm_id m"
      using mail_item_for_id by blast
    then show ?thesis
      using True by (simp add: unread_eq read listed_for_mail[OF assms stored(1,2)] listing_def item_id_def)
  next
    case False
    then have "mail_item_for sender m agent = None" by (auto simp: addressed_def mail_item_for_def)
    then show ?thesis using False by (simp add: unread_eq read listed_for_mail[OF assms stored(1,2)])
  qed
  moreover have "inbox_mail (nm_id m) ?I = Some (sender, m)"
    using stored(2,3) find_last_new[of "mi_mails I" "\<lambda>(_, _, x). nm_id x = nm_id m"]
    by (force simp: inbox_mail_def mail_ids_def)
  ultimately show ?thesis
    using stored inbox_ok_mail[OF assms, of U sender m] by simp
qed (use assms(1) in simp_all)

theorem delivered_once_witness:
  "inbox_ok demo_inbox \<and> mi_next_seq demo_inbox + 1 < 2 ^ 64 \<and> refusal demo_uuids (demo_mail 4) = None \<and>
   unread demo_entries (fst (deliver_mail demo_uuids 1 (demo_mail 4) demo_inbox)) 3 =
     unread demo_entries demo_inbox 3 @ [(3, ItemMail (MailCc (MailId 4) ''s''))]"
proof -
  have n: "mi_next_seq demo_inbox = 2" and i: "nm_id (demo_mail 4) \<notin> set (mail_ids demo_inbox)"
    and it: "mail_item_for 1 (demo_mail 4) 3 = Some (MailCc (MailId 4) ''s'')"
    and r: "refusal demo_uuids (demo_mail 4) = None" and rd: "mi_read demo_inbox = []" by code_simp+
  then show ?thesis
    using delivered_once[OF demo_inbox_ok, where U = demo_uuids and sender = 1 and m = "demo_mail 4" and N = demo_entries] demo_inbox_ok
    by (auto simp: case_prod_unfold demo_mail_def)
qed

text \<open>marking an item read takes that item, and no other, out of what the agent has not read; the
  unread items of every other agent, and what the inbox holds, stay as they are.\<close>

theorem mark_read_takes_out:
  "unread N (mark_read N agent it I) a =
     (if a = agent then filter (\<lambda>u. item_id N (snd u) \<noteq> it) (unread N I a) else unread N I a) \<and>
   listed (mark_read N agent it I) = listed I \<and>
   (is_read agent it (mark_read N agent it I) \<longleftrightarrow> is_read agent it I \<or>
      (\<exists>u \<in> set (unread N I agent). item_id N (snd u) = it))"
proof -
  have l: "listed (mark_read N agent it I) = listed I" by (simp add: mark_read_def listed_def)
  have ex: "list_ex (\<lambda>(_, a, x). a = agent \<and> item_id N x = it) (listed I) \<longleftrightarrow>
      (\<exists>u \<in> set (listed_for I agent). item_id N (snd (snd u)) = it)"
    by (auto simp: list_ex_iff listed_for_def)
  have lf: "listed_for (mark_read N agent it I) a = listed_for I a" by (simp add: listed_for_def l)
  have r: "set (mi_read (mark_read N agent it I)) = (if \<exists>u \<in> set (listed_for I agent). item_id N (snd (snd u)) = it
      then insert (agent, it) (set (mi_read I)) else set (mi_read I))"
    unfolding mark_read_def ex by simp
  have "unread N (mark_read N agent it I) a =
     (if a = agent then filter (\<lambda>u. item_id N (snd u) \<noteq> it) (unread N I a) else unread N I a)"
    unfolding unread_eq lf r by (auto simp: filter_map comp_def case_prod_unfold intro!: filter_cong arg_cong2[where f = map])
  moreover have "is_read agent it (mark_read N agent it I) \<longleftrightarrow> is_read agent it I \<or>
      (\<exists>u \<in> set (listed_for I agent). item_id N (snd (snd u)) = it)"
    using r by (simp add: is_read_def)
  moreover have "(\<exists>u \<in> set (unread N I agent). item_id N (snd u) = it) \<longleftrightarrow> \<not> is_read agent it I \<and>
      (\<exists>u \<in> set (listed_for I agent). item_id N (snd (snd u)) = it)"
    unfolding is_read_def unread_eq by force
  ultimately show ?thesis using l by blast
qed

text \<open>C36: in every state of the inbox the queue returns, whatever the size of the pages, with exactly the
  unread items of the agent pushed in their order: an item the queue holds is not pushed twice, and
  the count is of the new ones.\<close>

theorem queue_reads_inbox:
  assumes "inbox_ok I" "0 < batch"
  shows "queue_read N (inbox_items N I agent batch) q =
    Some (fst (push_all N q (map snd (unread N I agent))), Inr (snd (push_all N q (map snd (unread N I agent)))))"
  by (rule mi.reads_all_unread[OF assms])

interpretation mm: marked_inbox inbox_ok "\<lambda>I. inbox_items N I agent" "\<lambda>I. unread N I agent" cursor_at N "mark_read N agent"
  for N :: "('a, 'e) entry_ops" and agent
  by unfold_locales (simp_all add: inbox_ok_unchanged mark_read_takes_out)

definition put_step :: "('a, 'e) memory_inbox \<Rightarrow> mail_document list \<Rightarrow> attachment \<Rightarrow> port_error + mail_document list" where
  "put_step I docs att = (case mi_documents I (at_document att) of
      Some content \<Rightarrow> Inr (docs @ [\<lparr>md_name = at_name att, md_content = content\<rparr>])
    | None \<Rightarrow> Inl (port_fault ''a document of the mail is unavailable''))"

lemma each_document: "for_each (put_step I) acc atts = Inr out \<longleftrightarrow>
    (\<exists>docs. out = acc @ docs \<and> map at_name atts = map md_name docs \<and>
      map (mi_documents I \<circ> at_document) atts = map (Some \<circ> md_content) docs)"
proof (induction atts arbitrary: acc)
  case (Cons att atts)
  show ?case
  proof (cases "mi_documents I (at_document att)")
    case None
    then have "put_step I acc att = Inl (port_fault ''a document of the mail is unavailable'')"
      by (simp add: put_step_def)
    then show ?thesis using None by (auto simp: Cons_eq_map_conv)
  next
    case (Some content)
    let ?d = "\<lparr>md_name = at_name att, md_content = content\<rparr>"
    have d: "d = ?d" if "at_name att = md_name d" "content = md_content d" for d :: mail_document
      using that by (simp add: mail_document.equality)
    have "put_step I acc att = Inr (acc @ [?d])" using Some by (simp add: put_step_def)
    then have "for_each (put_step I) acc (att # atts) = Inr out \<longleftrightarrow>
        (\<exists>docs. out = (acc @ [?d]) @ docs \<and> map at_name atts = map md_name docs \<and>
          map (mi_documents I \<circ> at_document) atts = map (Some \<circ> md_content) docs)"
      by (simp add: Cons.IH comp_def)
    also have "\<dots> \<longleftrightarrow> (\<exists>docs. out = acc @ docs \<and> map at_name (att # atts) = map md_name docs \<and>
          map (mi_documents I \<circ> at_document) (att # atts) = map (Some \<circ> md_content) docs)" (is "_ \<longleftrightarrow> ?r")
    proof
      assume ?r
      then obtain d ds where "out = acc @ d # ds" "at_name att = md_name d" "content = md_content d"
        "map at_name atts = map md_name ds" "map (mi_documents I \<circ> at_document) atts = map (Some \<circ> md_content) ds"
        using Some by (auto simp: Cons_eq_map_conv)
      with d show "\<exists>docs. out = (acc @ [?d]) @ docs \<and> map at_name atts = map md_name docs \<and>
          map (mi_documents I \<circ> at_document) atts = map (Some \<circ> md_content) docs" by auto
    next
      assume "\<exists>docs. out = (acc @ [?d]) @ docs \<and> map at_name atts = map md_name docs \<and>
          map (mi_documents I \<circ> at_document) atts = map (Some \<circ> md_content) docs"
      then obtain docs where "out = (acc @ [?d]) @ docs" "map at_name atts = map md_name docs"
        "map (mi_documents I \<circ> at_document) atts = map (Some \<circ> md_content) docs" by blast
      then show ?r using Some by (intro exI[of _ "?d # docs"]) simp
    qed
    finally show ?thesis .
  qed
qed auto

lemma each_document_error: "for_each (put_step I) acc atts \<noteq> Inl (port_refused text)"
proof (induction atts arbitrary: acc)
  case (Cons att atts)
  then show ?case
    by (cases "mi_documents I (at_document att)") (simp_all add: put_step_def port_refused_def port_fault_def)
qed simp

lemma inbox_documents_eq:
  assumes "inbox_ok I"
  shows "inbox_documents agent i I = (case inbox_mail i I of
      Some (sender, m) \<Rightarrow> if agent \<in> set (nm_to m) then for_each (put_step I) [] (nm_attachments m)
        else Inl (port_refused ''the agent is not a recipient in to of that mail'')
    | None \<Rightarrow> Inl (port_refused ''the agent is not a recipient in to of that mail''))"
proof -
  have "distinct (map (\<lambda>(_, _, m). nm_id m) (mi_mails I))"
    using assms by (simp add: inbox_ok_def mail_ids_def)
  from find_key_cond[OF this, of i "\<lambda>x. agent \<in> set (nm_to (snd (snd x)))"]
  have "find (\<lambda>(_, _, m). nm_id m = i \<and> agent \<in> set (nm_to m)) (mi_mails I) =
      (case find (\<lambda>(_, _, m). nm_id m = i) (mi_mails I) of
         Some x \<Rightarrow> if agent \<in> set (nm_to (snd (snd x))) then Some x else None | None \<Rightarrow> None)"
    by (simp add: case_prod_unfold)
  then have "find (\<lambda>(_, _, m). nm_id m = i \<and> agent \<in> set (nm_to m)) (mi_mails I) =
      (case find (\<lambda>(_, _, m). nm_id m = i) (mi_mails I) of
         Some (sq, sender, m) \<Rightarrow> if agent \<in> set (nm_to m) then Some (sq, sender, m) else None | None \<Rightarrow> None)"
    by (auto split: option.splits)
  moreover have "put_step I = (\<lambda>docs att. case mi_documents I (at_document att) of
      Some content \<Rightarrow> Inr (docs @ [\<lparr>md_name = at_name att, md_content = content\<rparr>])
    | None \<Rightarrow> Inl (port_fault ''a document of the mail is unavailable''))"
    by (intro ext) (simp add: put_step_def)
  ultimately show ?thesis
    by (auto simp: inbox_documents_def inbox_mail_def split: option.splits)
qed

theorem queue_reads_inbox_witness:
  "queue_read demo_entries (inbox_items demo_entries demo_inbox 2 1) [] =
     Some (map snd (unread demo_entries demo_inbox 2), Inr 2)"
proof -
  have "fst (push_all demo_entries [] (map snd (unread demo_entries demo_inbox 2))) =
      map snd (unread demo_entries demo_inbox 2)"
    "snd (push_all demo_entries [] (map snd (unread demo_entries demo_inbox 2))) = 2" by code_simp+
  then show ?thesis using queue_reads_inbox[OF demo_inbox_ok, of 1 demo_entries 2 "[]"] by simp
qed

text \<open>the documents of a mail go only to the agents its \<open>to\<close> lists, each under its name with the
  content put for it, in the order of the attachments; anybody else is refused.\<close>

theorem documents_only_to:
  assumes "inbox_ok I"
  shows "(inbox_documents agent i I = Inl (port_refused ''the agent is not a recipient in to of that mail'') \<longleftrightarrow>
      (\<forall>sender m. inbox_mail i I = Some (sender, m) \<longrightarrow> agent \<notin> set (nm_to m))) \<and>
    (inbox_documents agent i I = Inr docs \<longleftrightarrow> (\<exists>sender m. inbox_mail i I = Some (sender, m) \<and> agent \<in> set (nm_to m) \<and>
      map at_name (nm_attachments m) = map md_name docs \<and>
      map (mi_documents I \<circ> at_document) (nm_attachments m) = map (Some \<circ> md_content) docs))"
  unfolding inbox_documents_eq[OF assms]
  by (auto simp: each_document each_document_error split: option.splits if_splits)

theorem documents_only_to_witness:
  "inbox_documents 3 (MailId 8) demo_inbox =
     Inl (port_refused ''the agent is not a recipient in to of that mail'') \<and>
   inbox_documents 2 (MailId 8) demo_inbox = Inr [\<lparr>md_name = ''notes'', md_content = [7]\<rparr>]"
proof -
  have m: "inbox_mail (MailId 8) demo_inbox = Some (1, demo_mail 8)" and t: "nm_to (demo_mail 8) = [2]"
    and a: "nm_attachments (demo_mail 8) = [\<lparr>at_name = ''notes'', at_document = DocumentRef ''d''\<rparr>]"
    and d: "mi_documents demo_inbox (DocumentRef ''d'') = Some [7]" by code_simp+
  show ?thesis
    using documents_only_to[OF demo_inbox_ok, of 3 "MailId 8" "[]"]
      documents_only_to[OF demo_inbox_ok, of 2 "MailId 8" "[\<lparr>md_name = ''notes'', md_content = [7]\<rparr>]"]
    by (simp add: m t a d)
qed

end
