(* ===== verification/Agentic_Boundary.thy ===== *)
theory Agentic_Boundary
  imports Agentic_Thread Agentic_Inbox
begin

text \<open>
  The boundary of an instance (\<open>boundary.rs\<close>): what the queue holds goes into the thread and is marked
  as read in the inbox; the documents of a mail (\<open>documents.rs\<close>) and the ends of an instance
  (\<open>ending.rs\<close>).
\<close>

section \<open>The inbox as a port\<close>

record inbox_context =
  ic_instance :: "128 word"
  ic_thread :: thread_ref
  ic_agent :: agent_id

record ('p, 'a, 'e) inbox_port =
  ip_items :: "inbox_context \<Rightarrow> cursor option \<Rightarrow> nat \<Rightarrow> 'p \<Rightarrow> 'p \<times> (port_error + ('a, 'e) inbox_item page)"
  ip_mark_read :: "inbox_context \<Rightarrow> entry_id \<Rightarrow> 'p \<Rightarrow> 'p \<times> (port_error + unit)"
  ip_send :: "inbox_context \<Rightarrow> 'a new_mail \<Rightarrow> 'p \<Rightarrow> 'p \<times> (port_error + unit)"
  ip_documents :: "inbox_context \<Rightarrow> mail_id \<Rightarrow> 'p \<Rightarrow> 'p \<times> (port_error + mail_document list)"

text \<open>The in-memory inbox as the port.\<close>

definition memory_inbox_port ::
  "uuid_ops \<Rightarrow> ('a, 'e) entry_ops \<Rightarrow> (('a, 'e) memory_inbox, 'a, 'e) inbox_port" where
  "memory_inbox_port U N = \<lparr>
     ip_items = (\<lambda>x after limit I. (I, inbox_items N I (ic_agent x) limit after)),
     ip_mark_read = (\<lambda>x i I. (mark_read N (ic_agent x) i I, Inr ())),
     ip_send = (\<lambda>x m I. deliver_mail U (ic_agent x) m I),
     ip_documents = (\<lambda>x m I. (I, inbox_documents (ic_agent x) m I))\<rparr>"

section \<open>The run of a boundary\<close>

record boundary_report =
  bd_stored :: "entry_id list"
  bd_skipped :: "entry_id list"
  bd_unmarked :: "entry_id list"

record ('c, 's, 'p) boundary_run =
  br_session :: "'c session \<times> 's"
  br_inbox :: 'p
  br_done :: "entry_id list"
  br_report :: boundary_report

definition mark_item ::
  "('a, 'e) entry_ops \<Rightarrow> ('p, 'a, 'e) inbox_port \<Rightarrow> inbox_context \<Rightarrow> ('a, 'e) inbox_item \<Rightarrow>
     ('c, 's, 'p) boundary_run \<Rightarrow> ('c, 's, 'p) boundary_run" where
  "mark_item N P x it R = (case ip_mark_read P x (item_id N it) (br_inbox R) of
     (p, r) \<Rightarrow> R\<lparr>br_inbox := p, br_done := br_done R @ [item_id N it],
       br_report := (if is_ok r then br_report R
         else (br_report R)\<lparr>bd_unmarked := bd_unmarked (br_report R) @ [item_id N it]\<rparr>)\<rparr>)"

definition push_skipped :: "entry_id \<Rightarrow> ('c, 's, 'p) boundary_run \<Rightarrow> ('c, 's, 'p) boundary_run" where
  "push_skipped i R = R\<lparr>br_report := (br_report R)\<lparr>bd_skipped := bd_skipped (br_report R) @ [i]\<rparr>\<rparr>"

definition push_stored :: "entry_id \<Rightarrow> ('c, 's, 'p) boundary_run \<Rightarrow> ('c, 's, 'p) boundary_run" where
  "push_stored i R = R\<lparr>br_report := (br_report R)\<lparr>bd_stored := bd_stored (br_report R) @ [i]\<rparr>\<rparr>"

definition skip_held ::
  "('a, 'e) entry_ops \<Rightarrow> ('p, 'a, 'e) inbox_port \<Rightarrow> inbox_context \<Rightarrow> ('a, 'e) inbox_item list \<Rightarrow>
     ('c, 's, 'p) boundary_run \<Rightarrow> ('c, 's, 'p) boundary_run" where
  "skip_held N P x hs R = foldl (\<lambda>R it. mark_item N P x it (push_skipped (item_id N it) R)) R hs"

fun store_in_open_turn ::
  "('c, 't, 'ai, 'n, 'e, 'a) messages \<Rightarrow> ('s, 'c, 't, 'n, 'a, 'h) thread_access \<Rightarrow> ('a, 'e) entry_ops \<Rightarrow>
     ('p, 'a, 'e) inbox_port \<Rightarrow> inbox_context \<Rightarrow> 'a ai_turn_ref \<Rightarrow> (('a, 'e) inbox_item \<times> 'e) list \<Rightarrow>
     ('c, 's, 'p) boundary_run \<Rightarrow> ('c, 's, 'p) boundary_run \<times> (session_error + unit)" where
  "store_in_open_turn M A N P x turn [] R = (R, Inr ())"
| "store_in_open_turn M A N P x turn ((it, e) # fresh) R = (case ms_of_incoming M e of
     Inl err \<Rightarrow> (R, Inl (Rules err))
   | Inr n \<Rightarrow> (case add_entry M A turn n (br_session R) of
       (Ss, Inl err) \<Rightarrow> (R\<lparr>br_session := Ss\<rparr>, Inl err)
     | (Ss, Inr _) \<Rightarrow> store_in_open_turn M A N P x turn fresh
         (mark_item N P x it (push_stored (item_id N it) (R\<lparr>br_session := Ss\<rparr>)))))"

definition store_in_new_input_turn ::
  "('c, 't, 'ai, 'n, 'e, 'a) messages \<Rightarrow> ('s, 'c, 't, 'n, 'a, 'h) thread_access \<Rightarrow> ('a, 'e) entry_ops \<Rightarrow>
     ('p, 'a, 'e) inbox_port \<Rightarrow> inbox_context \<Rightarrow> uuid \<Rightarrow> (('a, 'e) inbox_item \<times> 'e) list \<Rightarrow>
     ('c, 's, 'p) boundary_run \<Rightarrow> ('c, 's, 'p) boundary_run \<times> (session_error + unit)" where
  "store_in_new_input_turn M A N P x turn fresh R = (if fresh = [] then (R, Inr ()) else
     (case ms_input_new M turn (map snd fresh) of
        Inl err \<Rightarrow> (R, Inl (Rules err))
      | Inr t \<Rightarrow> (case add_input_turn M A t (br_session R) of
          (Ss, Inl err) \<Rightarrow> (R\<lparr>br_session := Ss\<rparr>, Inl err)
        | (Ss, Inr _) \<Rightarrow>
            (foldl (\<lambda>R it. mark_item N P x it R)
              (foldl (\<lambda>R it. push_stored (item_id N it) R) (R\<lparr>br_session := Ss\<rparr>) (map fst fresh)) (map fst fresh), Inr ()))))"

definition is_entry_of :: "('a, 'e) entry_ops \<Rightarrow> 'a mail_item \<Rightarrow> 'e \<Rightarrow> bool" where
  "is_entry_of N mail e \<longleftrightarrow> en_id N e = mail_entry_id (mail_item_id mail) \<and>
     (case mail of
        MailTo i sender author source to cc subject body names \<Rightarrow> en_kind N e = AgentMailEntry \<and>
          en_sender N e = sender \<and> en_author N e = author \<and> en_source N e = source
      | MailCc i subject \<Rightarrow> en_kind N e = RuntimeNotice)"

fun build_entry ::
  "('a, 'e) entry_ops \<Rightarrow> ('a mail_item \<Rightarrow> cause + 'e) \<Rightarrow> ('a, 'e) inbox_item \<Rightarrow> session_error + 'e" where
  "build_entry N mail_entry (ItemMail mail) = (case mail_entry mail of
     Inl err \<Rightarrow> Inl (Rules err)
   | Inr e \<Rightarrow> if is_entry_of N mail e then Inr e else Inl (WrongMailEntry (mail_item_id mail)))"
| "build_entry N mail_entry (ItemEntry e) = Inr e"

definition map_inr :: "('x \<Rightarrow> 'y) \<Rightarrow> 'z + 'x \<Rightarrow> 'z + 'y" where
  "map_inr f r = (case r of Inl e \<Rightarrow> Inl e | Inr a \<Rightarrow> Inr (f a))"

text \<open>The items the conversation holds, and the others with their entries.\<close>

fun sort_pending ::
  "('a, 'e) entry_ops \<Rightarrow> ('a mail_item \<Rightarrow> cause + 'e) \<Rightarrow> (entry_id \<Rightarrow> bool) \<Rightarrow> ('a, 'e) inbox_item list \<Rightarrow>
     session_error + ('a, 'e) inbox_item list \<times> (('a, 'e) inbox_item \<times> 'e) list" where
  "sort_pending N mail_entry holds [] = Inr ([], [])"
| "sort_pending N mail_entry holds (it # its) = (if holds (item_id N it)
     then map_inr (\<lambda>(hs, fresh). (it # hs, fresh)) (sort_pending N mail_entry holds its)
     else bind_sum (build_entry N mail_entry it) (\<lambda>e.
       map_inr (\<lambda>(hs, fresh). (hs, (it, e) # fresh)) (sort_pending N mail_entry holds its)))"

definition run_boundary ::
  "('c, 't, 'ai, 'n, 'e, 'a) messages \<Rightarrow> ('s, 'c, 't, 'n, 'a, 'h) thread_access \<Rightarrow> ('a, 'e) entry_ops \<Rightarrow>
     ('p, 'a, 'e) inbox_port \<Rightarrow> inbox_context \<Rightarrow> ('a, 'e) inbox_item list \<Rightarrow> ('a mail_item \<Rightarrow> cause + 'e) \<Rightarrow> uuid \<Rightarrow>
     ('c, 's, 'p) boundary_run \<Rightarrow> ('c, 's, 'p) boundary_run \<times> (session_error + unit)" where
  "run_boundary M A N P x pending mail_entry new_turn R =
     (case sort_pending N mail_entry (session_holds M (fst (br_session R))) pending of
        Inl e \<Rightarrow> (R, Inl e)
      | Inr (hs, fresh) \<Rightarrow> (let R = skip_held N P x hs R in
          (case open_ai_turn M (fst (br_session R)) (ic_agent x) of
             Some turn \<Rightarrow> store_in_open_turn M A N P x turn fresh R
           | None \<Rightarrow> store_in_new_input_turn M A N P x new_turn fresh R)))"

definition empty_report :: boundary_report where
  "empty_report = \<lparr>bd_stored = [], bd_skipped = [], bd_unmarked = []\<rparr>"

record boundary_error =
  be_fault :: session_error
  be_done :: boundary_report

text \<open>The boundary: the session and the ports after it, the queue after it, and its result.\<close>

definition store_at_boundary ::
  "('c, 't, 'ai, 'n, 'e, 'a) messages \<Rightarrow> ('s, 'c, 't, 'n, 'a, 'h) thread_access \<Rightarrow> ('a, 'e) entry_ops \<Rightarrow>
     ('p, 'a, 'e) inbox_port \<Rightarrow> inbox_context \<Rightarrow> ('a mail_item \<Rightarrow> cause + 'e) \<Rightarrow> uuid \<Rightarrow>
     'c session \<times> 's \<Rightarrow> 'p \<Rightarrow> ('a, 'e) queue \<Rightarrow>
     (('c session \<times> 's) \<times> 'p \<times> ('a, 'e) queue) \<times> (boundary_error + boundary_report)" where
  "store_at_boundary M A N P x mail_entry new_turn Ss p q =
     (case run_boundary M A N P x q mail_entry new_turn
         \<lparr>br_session = Ss, br_inbox = p, br_done = [], br_report = empty_report\<rparr> of
        (R, Inr _) \<Rightarrow> ((br_session R, br_inbox R, []), Inr (br_report R))
      | (R, Inl fault) \<Rightarrow> ((br_session R, br_inbox R,
          restore (filter (\<lambda>it. item_id N it \<notin> set (br_done R)) q) []),
          Inl \<lparr>be_fault = fault, be_done = br_report R\<rparr>))"

section \<open>Documents and ends\<close>

definition mail_documents ::
  "('c, 't, 'ai, 'n, 'e, 'a) messages \<Rightarrow> ('p, 'a, 'e) inbox_port \<Rightarrow> inbox_context \<Rightarrow> mail_id \<Rightarrow> 'c session \<Rightarrow> 'p \<Rightarrow>
     'p \<times> (port_error + mail_document list)" where
  "mail_documents M P x mail S p = (if \<not> holds_incoming M S (mail_entry_id mail)
     then (p, Inl (port_refused ''the conversation holds no mail with that id''))
     else ip_documents P x mail p)"

text \<open>An end discards the open objects, closes the input end and gives the terminal event.\<close>

fun port_cause :: "port_error \<Rightarrow> cause" where
  "port_cause (Refused r) = Cause (Inr (''the request was refused: '' @ as_str r))"
| "port_cause (Fault e) = Cause (Inr ''a port failed'')"

definition end_result ::
  "('s, 'c, 't, 'n, 'a, 'h) thread_access \<Rightarrow> 'u \<Rightarrow> 'c session \<times> 's \<Rightarrow> ('i, 'u event) inner \<Rightarrow>
     (('c session \<times> 's) \<times> ('i, 'u event) inner) \<times> 'u event" where
  "end_result A update Ss core = (case discard_all A Ss of (Ss, errors) \<Rightarrow>
     ((Ss, fst (close_input core)),
      (case errors of e # _ \<Rightarrow> EvFailed (port_cause e) | [] \<Rightarrow> EvResult update)))"

definition end_failed ::
  "('s, 'c, 't, 'n, 'a, 'h) thread_access \<Rightarrow> cause \<Rightarrow> 'c session \<times> 's \<Rightarrow> ('i, 'u event) inner \<Rightarrow>
     (('c session \<times> 's) \<times> ('i, 'u event) inner) \<times> 'u event" where
  "end_failed A cause Ss core = ((fst (discard_all A Ss), fst (close_input core)), EvFailed cause)"

definition end_cancelled ::
  "('s, 'c, 't, 'n, 'a, 'h) thread_access \<Rightarrow> 'c session \<times> 's \<Rightarrow> ('i, 'u event) inner \<Rightarrow>
     (('c session \<times> 's) \<times> ('i, 'u event) inner) \<times> 'u event" where
  "end_cancelled A Ss core = ((fst (discard_all A Ss), fst (close_input core)), EvCancelled)"

section \<open>What a boundary does to each item\<close>

definition sorted_ok :: "('a, 'e) entry_ops \<Rightarrow> (entry_id \<Rightarrow> bool) \<Rightarrow> ('a, 'e) inbox_item list \<Rightarrow>
    ('a, 'e) inbox_item list \<Rightarrow> (('a, 'e) inbox_item \<times> 'e) list \<Rightarrow> bool" where
  "sorted_ok N holds q hs fresh \<longleftrightarrow> hs = filter (\<lambda>it. holds (item_id N it)) q \<and>
     map fst fresh = filter (\<lambda>it. \<not> holds (item_id N it)) q"

lemma map_inr_iff [simp]: "map_inr f r = Inr b \<longleftrightarrow> (\<exists>a. r = Inr a \<and> b = f a)" "map_inr f r = Inl e \<longleftrightarrow> r = Inl e"
  by (cases r; auto simp: map_inr_def)+

lemma sort_pending_Inr:
  "sort_pending N mail_entry holds q = Inr (hs, fresh) \<Longrightarrow>
     sorted_ok N holds q hs fresh \<and> (\<forall>(it, e) \<in> set fresh. build_entry N mail_entry it = Inr e)"
  unfolding sorted_ok_def
  by (induction q arbitrary: hs fresh) (auto simp: bind_sum_Inr_iff split: if_splits)

lemma sort_pending_Inl:
  "(\<exists>e. sort_pending N mail_entry holds q = Inl e) \<longleftrightarrow>
     (\<exists>it \<in> set q. \<not> holds (item_id N it) \<and> (\<exists>e. build_entry N mail_entry it = Inl e))"
proof (induction q)
  case (Cons it q)
  then show ?case by (cases "build_entry N mail_entry it") (auto simp: bind_sum_Inl_iff)
qed simp

text \<open>The marks of a list of items, in order.\<close>

definition marks :: "('a, 'e) entry_ops \<Rightarrow> ('p, 'a, 'e) inbox_port \<Rightarrow> inbox_context \<Rightarrow> entry_id list \<Rightarrow> 'p \<Rightarrow> 'p" where
  "marks N P x ids p = foldl (\<lambda>p i. fst (ip_mark_read P x i p)) p ids"

text \<open>A phase of the boundary: it marks the items of \<open>ids\<close>, stores \<open>st\<close> and skips \<open>sk\<close> of them.\<close>

definition phase_did :: "('a, 'e) entry_ops \<Rightarrow> ('p, 'a, 'e) inbox_port \<Rightarrow> inbox_context \<Rightarrow>
    ('c, 's, 'p) boundary_run \<Rightarrow> ('c, 's, 'p) boundary_run \<Rightarrow> entry_id list \<Rightarrow> entry_id list \<Rightarrow> bool" where
  "phase_did N P x R R' sk st \<longleftrightarrow> br_done R' = br_done R @ sk @ st \<and>
     br_inbox R' = marks N P x (sk @ st) (br_inbox R) \<and>
     bd_skipped (br_report R') = bd_skipped (br_report R) @ sk \<and>
     bd_stored (br_report R') = bd_stored (br_report R) @ st \<and>
     (\<exists>un. bd_unmarked (br_report R') = bd_unmarked (br_report R) @ un \<and> set un \<subseteq> set sk \<union> set st)"

lemma mark_item_simps [simp]:
  "br_session (mark_item N P x it R) = br_session R"
  "br_done (mark_item N P x it R) = br_done R @ [item_id N it]"
  "br_inbox (mark_item N P x it R) = fst (ip_mark_read P x (item_id N it) (br_inbox R))"
  "bd_stored (br_report (mark_item N P x it R)) = bd_stored (br_report R)"
  "bd_skipped (br_report (mark_item N P x it R)) = bd_skipped (br_report R)"
  "bd_unmarked (br_report (mark_item N P x it R)) = bd_unmarked (br_report R) @
     (if is_ok (snd (ip_mark_read P x (item_id N it) (br_inbox R))) then [] else [item_id N it])"
  by (simp_all add: mark_item_def case_prod_unfold)

lemma push_simps [simp]:
  "br_session (push_skipped i R) = br_session R" "br_done (push_skipped i R) = br_done R"
  "br_inbox (push_skipped i R) = br_inbox R" "bd_stored (br_report (push_skipped i R)) = bd_stored (br_report R)"
  "bd_skipped (br_report (push_skipped i R)) = bd_skipped (br_report R) @ [i]"
  "bd_unmarked (br_report (push_skipped i R)) = bd_unmarked (br_report R)"
  "br_session (push_stored i R) = br_session R" "br_done (push_stored i R) = br_done R"
  "br_inbox (push_stored i R) = br_inbox R" "bd_stored (br_report (push_stored i R)) = bd_stored (br_report R) @ [i]"
  "bd_skipped (br_report (push_stored i R)) = bd_skipped (br_report R)"
  "bd_unmarked (br_report (push_stored i R)) = bd_unmarked (br_report R)"
  by (simp_all add: push_skipped_def push_stored_def)

lemma skip_held_did: "br_session (skip_held N P x hs R) = br_session R \<and>
    phase_did N P x R (skip_held N P x hs R) (map (item_id N) hs) []"
proof (induction hs rule: rev_induct)
  case Nil
  show ?case by (simp add: skip_held_def phase_did_def marks_def)
next
  case (snoc it hs)
  then show ?case by (auto simp: skip_held_def phase_did_def marks_def)
qed

lemma phase_refl: "br_done R' = br_done R \<Longrightarrow> br_inbox R' = br_inbox R \<Longrightarrow> br_report R' = br_report R \<Longrightarrow>
    phase_did N P x R R' [] []"
  by (simp add: phase_did_def marks_def)

lemma phase_trans: "phase_did N P x R R1 sk st \<Longrightarrow> phase_did N P x R1 R2 [] st' \<Longrightarrow> phase_did N P x R R2 sk (st @ st')"
  by (auto simp: phase_did_def marks_def)

lemma phase_one: "br_done R' = br_done R \<Longrightarrow> br_inbox R' = br_inbox R \<Longrightarrow> br_report R' = br_report R \<Longrightarrow>
    phase_did N P x R (mark_item N P x it (push_stored (item_id N it) R')) [] [item_id N it]"
  by (simp add: phase_did_def marks_def)

lemma store_open_did:
  "\<exists>k \<le> length fresh. phase_did N P x R (fst (store_in_open_turn M A N P x turn fresh R)) []
      (map (item_id N \<circ> fst) (take k fresh)) \<and>
    (is_ok (snd (store_in_open_turn M A N P x turn fresh R)) \<longrightarrow> k = length fresh)"
proof (induction fresh arbitrary: R)
  case Nil
  show ?case by (simp add: phase_refl)
next
  case (Cons ie fresh)
  obtain it e where ie: "ie = (it, e)" by (cases ie)
  show ?case
  proof (cases "ms_of_incoming M e")
    case (Inl err)
    then show ?thesis by (intro exI[of _ 0]) (simp add: ie phase_refl)
  next
    case (Inr n)
    obtain Ss r where a: "add_entry M A turn n (br_session R) = (Ss, r)" by fastforce
    show ?thesis
    proof (cases r)
      case (Inl err)
      then show ?thesis using Inr a by (intro exI[of _ 0]) (simp add: ie phase_refl)
    next
      case (Inr u)
      let ?R = "mark_item N P x it (push_stored (item_id N it) (R\<lparr>br_session := Ss\<rparr>))"
      have one: "phase_did N P x R ?R [] [item_id N it]" by (rule phase_one) simp_all
      obtain k where k: "k \<le> length fresh"
        "phase_did N P x ?R (fst (store_in_open_turn M A N P x turn fresh ?R)) [] (map (item_id N \<circ> fst) (take k fresh))"
        "is_ok (snd (store_in_open_turn M A N P x turn fresh ?R)) \<longrightarrow> k = length fresh"
        using Cons.IH by blast
      then show ?thesis
        using phase_trans[OF one k(2)] a Inr \<open>ms_of_incoming M e = Inr n\<close>
        by (intro exI[of _ "Suc k"]) (simp add: ie comp_def)
    qed
  qed
qed

lemma mark_all_did:
  "br_session (foldl (\<lambda>R it. mark_item N P x it R) R its) = br_session R \<and>
   br_done (foldl (\<lambda>R it. mark_item N P x it R) R its) = br_done R @ map (item_id N) its \<and>
   br_inbox (foldl (\<lambda>R it. mark_item N P x it R) R its) = marks N P x (map (item_id N) its) (br_inbox R) \<and>
   bd_stored (br_report (foldl (\<lambda>R it. mark_item N P x it R) R its)) = bd_stored (br_report R) \<and>
   bd_skipped (br_report (foldl (\<lambda>R it. mark_item N P x it R) R its)) = bd_skipped (br_report R) \<and>
   (\<exists>un. bd_unmarked (br_report (foldl (\<lambda>R it. mark_item N P x it R) R its)) = bd_unmarked (br_report R) @ un \<and>
     set un \<subseteq> item_id N ` set its)"
  by (induction its rule: rev_induct) (auto simp: marks_def)

lemma push_all_stored:
  "foldl (\<lambda>R it. push_stored (item_id N it) R) R its =
     R\<lparr>br_report := (br_report R)\<lparr>bd_stored := bd_stored (br_report R) @ map (item_id N) its\<rparr>\<rparr>"
  by (induction its rule: rev_induct) (simp_all add: push_stored_def)

lemma store_new_did:
  "\<exists>k \<le> length fresh. phase_did N P x R (fst (store_in_new_input_turn M A N P x u fresh R)) []
      (map (item_id N \<circ> fst) (take k fresh)) \<and>
    (is_ok (snd (store_in_new_input_turn M A N P x u fresh R)) \<longrightarrow> k = length fresh)"
proof (cases "is_ok (snd (store_in_new_input_turn M A N P x u fresh R)) \<and> fresh \<noteq> []")
  case True
  then obtain t where t: "ms_input_new M u (map snd fresh) = Inr t"
    by (cases "ms_input_new M u (map snd fresh)") (auto simp: store_in_new_input_turn_def)
  then obtain Ss v where a: "add_input_turn M A t (br_session R) = (Ss, Inr v)"
    using True by (cases "add_input_turn M A t (br_session R)"; cases "snd (add_input_turn M A t (br_session R))")
      (auto simp: store_in_new_input_turn_def)
  let ?R = "foldl (\<lambda>R it. push_stored (item_id N it) R) (R\<lparr>br_session := Ss\<rparr>) (map fst fresh)"
  have "fst (store_in_new_input_turn M A N P x u fresh R) = foldl (\<lambda>R it. mark_item N P x it R) ?R (map fst fresh)"
    using t a True by (simp add: store_in_new_input_turn_def)
  then have "phase_did N P x R (fst (store_in_new_input_turn M A N P x u fresh R)) [] (map (item_id N \<circ> fst) fresh)"
    using mark_all_did[of N P x ?R "map fst fresh"] by (simp add: phase_did_def push_all_stored image_image)
  then show ?thesis by (intro exI[of _ "length fresh"]) simp
next
  case False
  then have f: "\<not> is_ok (snd (store_in_new_input_turn M A N P x u fresh R)) \<or> fresh = []" by blast
  have "phase_did N P x R (fst (store_in_new_input_turn M A N P x u fresh R)) [] []"
  proof (cases "ms_input_new M u (map snd fresh)")
    case (Inl e)
    then show ?thesis by (simp add: store_in_new_input_turn_def phase_refl)
  next
    case (Inr t)
    obtain Ss v where a: "add_input_turn M A t (br_session R) = (Ss, v)" by fastforce
    show ?thesis
    proof (cases "fresh = []")
      case True
      then show ?thesis by (simp add: store_in_new_input_turn_def phase_refl)
    next
      case ne: False
      then have "\<not> is_ok v" using f Inr a by (cases v) (simp_all add: store_in_new_input_turn_def)
      then obtain err where "v = Inl err" by (cases v) simp_all
      then have "fst (store_in_new_input_turn M A N P x u fresh R) = R\<lparr>br_session := Ss\<rparr>"
        using ne Inr a by (simp add: store_in_new_input_turn_def)
      then show ?thesis by (simp add: phase_refl)
    qed
  qed
  then show ?thesis using False by (intro exI[of _ 0]) auto
qed

lemma run_boundary_did:
  assumes "run_boundary M A N P x q mail_entry u R = (R', r)"
    "sort_pending N mail_entry (session_holds M (fst (br_session R))) q = Inr (hs, fresh)"
  shows "\<exists>k \<le> length fresh. phase_did N P x R R' (map (item_id N) hs) (map (item_id N \<circ> fst) (take k fresh)) \<and>
    (is_ok r \<longrightarrow> k = length fresh)"
proof -
  let ?R = "skip_held N P x hs R"
  note sk = skip_held_did[of N P x hs R]
  show ?thesis
  proof (cases "open_ai_turn M (fst (br_session ?R)) (ic_agent x)")
    case None
    then have "store_in_new_input_turn M A N P x u fresh ?R = (R', r)" using assms by (simp add: run_boundary_def Let_def)
    then show ?thesis
      using store_new_did[of fresh N P x ?R M A u] phase_trans[OF conjunct2[OF sk]] by fastforce
  next
    case (Some turn)
    then have "store_in_open_turn M A N P x turn fresh ?R = (R', r)" using assms by (simp add: run_boundary_def Let_def)
    then show ?thesis
      using store_open_did[of fresh N P x ?R M A turn] phase_trans[OF conjunct2[OF sk]] by fastforce
  qed
qed

section \<open>A concrete boundary\<close>

definition demo_context :: inbox_context where
  "demo_context = \<lparr>ic_instance = 1, ic_thread = ThreadRef 1, ic_agent = 2\<rparr>"

definition demo_build :: "string mail_item \<Rightarrow> cause + 128 word" where
  "demo_build m = Inr (mail_entry_id (mail_item_id m))"

definition demo_box :: "(string, 128 word) memory_inbox" where
  "demo_box = deliver_entry 2 9 (deliver_entry 2 4 memory_inbox_new)"

lemma demo_box_ok: "inbox_ok demo_box"
  unfolding demo_box_def
  by (intro inbox_ok_entry inbox_ok_new) (simp_all add: memory_inbox_new_def deliver_entry_def take_seq_def announce_def)

definition demo_boundary :: "(string, 128 word) memory_inbox \<Rightarrow> (string, 128 word) queue \<Rightarrow>
    ((demo_turn list session \<times> (demo_turn list, demo_turn, entry_id, string, string) thread_state) \<times>
      (string, 128 word) memory_inbox \<times> (string, 128 word) queue) \<times> (boundary_error + boundary_report)" where
  "demo_boundary I q = store_at_boundary demo_messages (memory_access demo_uuids demo_messages) demo_entries
     (memory_inbox_port demo_uuids demo_entries) demo_context demo_build 11
     (demo_session, record_call (CallRead (ThreadRef 1)) demo_thread) I q"

lemma demo_boundary_ok: "is_ok (snd (demo_boundary demo_box [ItemEntry 4, ItemEntry 9]))"
  "queue_read demo_entries (inbox_items demo_entries demo_box 2 1) [] = Some ([ItemEntry 4, ItemEntry 9], Inr 2)"
proof -
  show "is_ok (snd (demo_boundary demo_box [ItemEntry 4, ItemEntry 9]))" by code_simp
  have "fst (push_all demo_entries [] (map snd (unread demo_entries demo_box 2))) = [ItemEntry 4, ItemEntry 9]"
    "snd (push_all demo_entries [] (map snd (unread demo_entries demo_box 2))) = 2" by code_simp+
  then show "queue_read demo_entries (inbox_items demo_entries demo_box 2 1) [] = Some ([ItemEntry 4, ItemEntry 9], Inr 2)"
    using mi.reads_all_unread[OF demo_box_ok, where batch = 1 and N = demo_entries and agent = 2 and q = "[]"] by simp
qed

text \<open>
  C38: a boundary accounts for every item of the queue, whatever the ports answer: the items the
  conversation holds are skipped, the others are stored in their order, all of them when it succeeds
  and a first part of them when it fails; exactly the skipped and stored items are marked, in that
  order; after a failure the queue holds exactly the items that were neither, in their order, and
  after a success nothing; a failed mark stops nothing.
\<close>

theorem boundary_accounts:
  assumes "store_at_boundary M A N P x mail_entry u (S, s) p q = ((Ss', p', q'), res)"
  shows "let rep = (case res of Inl e \<Rightarrow> be_done e | Inr rep \<Rightarrow> rep);
      kept = filter (\<lambda>it. session_holds M S (item_id N it)) q;
      other = filter (\<lambda>it. \<not> session_holds M S (item_id N it)) q
    in p' = marks N P x (bd_skipped rep @ bd_stored rep) p \<and>
      set (bd_unmarked rep) \<subseteq> set (bd_skipped rep) \<union> set (bd_stored rep) \<and>
      (\<exists>k \<le> length other. bd_stored rep = map (item_id N) (take k other) \<and>
        (if is_ok res then k = length other \<and> bd_skipped rep = map (item_id N) kept \<and> q' = []
         else (bd_skipped rep = map (item_id N) kept \<or> k = 0 \<and> bd_skipped rep = []) \<and>
           q' = filter (\<lambda>it. item_id N it \<notin> set (bd_skipped rep) \<union> set (bd_stored rep)) q))"
proof -
  define R where "R = \<lparr>br_session = (S, s), br_inbox = p, br_done = [], br_report = empty_report\<rparr>"
  obtain R' r where run: "run_boundary M A N P x q mail_entry u R = (R', r)" by fastforce
  show ?thesis
  proof (cases "sort_pending N mail_entry (session_holds M S) q")
    case (Inl e)
    then have "R' = R" "r = Inl e" using run by (simp_all add: run_boundary_def R_def)
    then show ?thesis
      using assms run by (simp add: store_at_boundary_def R_def[symmetric] restore_def)
        (auto simp: R_def marks_def empty_report_def Let_def)
  next
    case (Inr hf)
    obtain hs fresh where hf: "hf = (hs, fresh)" by (cases hf)
    have hs: "hs = filter (\<lambda>it. session_holds M S (item_id N it)) q"
      and fr: "map fst fresh = filter (\<lambda>it. \<not> session_holds M S (item_id N it)) q"
      using sort_pending_Inr[OF Inr[unfolded hf]] by (simp_all add: sorted_ok_def)
    obtain k where k: "k \<le> length fresh" "is_ok r \<longrightarrow> k = length fresh"
      "phase_did N P x R R' (map (item_id N) hs) (map (item_id N \<circ> fst) (take k fresh))"
      using run_boundary_did[OF run, of hs fresh] Inr hf by (auto simp: R_def)
    have len: "length fresh = length (filter (\<lambda>it. \<not> session_holds M S (item_id N it)) q)"
      using arg_cong[OF fr, of length] by simp
    have st: "map (item_id N \<circ> fst) (take k fresh) =
        map (item_id N) (take k (filter (\<lambda>it. \<not> session_holds M S (item_id N it)) q))"
      by (simp add: fr[symmetric] take_map)
    let ?n = "length (filter (\<lambda>it. \<not> session_holds M S (item_id N it)) q)"
    let ?st = "map (item_id N) (take k (filter (\<lambda>it. \<not> session_holds M S (item_id N it)) q))"
    have p1: "br_done R' = map (item_id N) hs @ ?st" "br_inbox R' = marks N P x (map (item_id N) hs @ ?st) p"
      "bd_skipped (br_report R') = map (item_id N) hs" "bd_stored (br_report R') = ?st"
      "set (bd_unmarked (br_report R')) \<subseteq> set (map (item_id N) hs) \<union> set ?st"
      using k(3) unfolding st phase_did_def by (auto simp: R_def empty_report_def)
    have out: "p' = br_inbox R'"
      "res = (case r of Inr _ \<Rightarrow> Inr (br_report R') | Inl f \<Rightarrow> Inl \<lparr>be_fault = f, be_done = br_report R'\<rparr>)"
      "q' = (if is_ok r then [] else filter (\<lambda>it. item_id N it \<notin> set (br_done R')) q)"
      using assms run unfolding store_at_boundary_def R_def[symmetric] restore_def
      by (auto split: sum.splits)
    have rep: "(case res of Inl e \<Rightarrow> be_done e | Inr rep \<Rightarrow> rep) = br_report R'" "is_ok res = is_ok r"
      unfolding out(2) by (cases r; simp)+
    show ?thesis
      unfolding Let_def rep
      using k(1,2) p1 out(1,3) unfolding len by (intro conjI exI[of _ k]) (auto simp: hs)
  qed
qed

theorem boundary_accounts_witness:
  "\<exists>rep. snd (demo_boundary demo_box [ItemEntry 4, ItemEntry 9]) = Inr rep \<and> bd_stored rep = [4, 9] \<and>
     snd (snd (fst (demo_boundary demo_box [ItemEntry 4, ItemEntry 9]))) = []"
proof -
  obtain Ss p q rep where b: "demo_boundary demo_box [ItemEntry 4, ItemEntry 9] = ((Ss, p, q), Inr rep)"
    using demo_boundary_ok(1) by (cases "demo_boundary demo_box [ItemEntry 4, ItemEntry 9]";
      cases "snd (demo_boundary demo_box [ItemEntry 4, ItemEntry 9])") auto
  moreover have "filter (\<lambda>it. \<not> session_holds demo_messages demo_session (item_id demo_entries it))
      [ItemEntry 4, ItemEntry 9] = [ItemEntry 4, ItemEntry 9]" by code_simp
  moreover have "map (item_id demo_entries) [ItemEntry 4, ItemEntry 9] = [4, 9]" by code_simp
  ultimately show ?thesis
    using boundary_accounts[OF b[unfolded demo_boundary_def]] by (auto simp: Let_def)
qed

lemma sort_pending_error:
  "sort_pending N mail_entry holds q = Inl e \<Longrightarrow>
     \<exists>it \<in> set q. \<not> holds (item_id N it) \<and> build_entry N mail_entry it = Inl e"
  by (induction q) (auto simp: bind_sum_Inl_iff split: if_splits)

text \<open>
  every entry is built before anything is stored or marked: when the entry of one item that the
  conversation does not hold cannot be built, or is not the entry of its mail, the boundary fails with
  the error of such an item, the session, the thread and the inbox are as they were and the queue
  holds every item again.
\<close>

theorem boundary_builds_first:
  assumes "it \<in> set q" "\<not> session_holds M S (item_id N it)" "build_entry N mail_entry it = Inl e0"
  shows "\<exists>e. store_at_boundary M A N P x mail_entry u (S, s) p q =
      (((S, s), p, q), Inl \<lparr>be_fault = e, be_done = empty_report\<rparr>) \<and>
    (\<exists>it \<in> set q. \<not> session_holds M S (item_id N it) \<and> build_entry N mail_entry it = Inl e)"
proof -
  obtain e where e: "sort_pending N mail_entry (session_holds M S) q = Inl e"
    using sort_pending_Inl[of N mail_entry "session_holds M S" q] assms by blast
  then have "store_at_boundary M A N P x mail_entry u (S, s) p q =
      (((S, s), p, q), Inl \<lparr>be_fault = e, be_done = empty_report\<rparr>)"
    by (simp add: store_at_boundary_def run_boundary_def restore_def)
  then show ?thesis using sort_pending_error[OF e] by blast
qed

theorem boundary_builds_first_witness:
  "snd (demo_boundary demo_inbox [ItemMail (MailCc (MailId 8) ''s'')]) =
     Inl \<lparr>be_fault = WrongMailEntry (MailId 8), be_done = empty_report\<rparr>"
proof -
  have h: "\<not> session_holds demo_messages demo_session (item_id demo_entries (ItemMail (MailCc (MailId 8) ''s'')))"
    by code_simp
  have b: "build_entry demo_entries demo_build (ItemMail (MailCc (MailId 8) ''s'')) = Inl (WrongMailEntry (MailId 8))"
    by (simp add: demo_build_def is_entry_of_def demo_entries_def)
  show ?thesis
    using boundary_builds_first[of "ItemMail (MailCc (MailId 8) ''s'')" "[ItemMail (MailCc (MailId 8) ''s'')]", OF _ h b,
        of "memory_access demo_uuids demo_messages" "memory_inbox_port demo_uuids demo_entries" demo_context 11
          "record_call (CallRead (ThreadRef 1)) demo_thread" demo_inbox] b
    by (auto simp: demo_boundary_def)
qed

section \<open>The boundary over the in-memory ports\<close>

lemma mark_ok_memory: "marks N (memory_inbox_port U N) x ids I = foldl (\<lambda>I i. mark_read N (ic_agent x) i I) I ids"
  by (simp add: marks_def memory_inbox_port_def)

lemma store_open_synced:
  assumes "rules_keep M" "mt.synced (br_session R)" "store_in_open_turn M (memory_access U M) N P x turn fresh R = (R', r)"
  shows "mt.synced (br_session R') \<and> r \<noteq> Inl (Port e)"
  using assms(2,3)
proof (induction fresh arbitrary: R)
  case (Cons ie fresh)
  obtain it ent where ie: "ie = (it, ent)" by (cases ie)
  show ?case
  proof (cases "ms_of_incoming M ent")
    case (Inr n)
    obtain Ss v where a: "add_entry M (memory_access U M) turn n (br_session R) = (Ss, v)" by fastforce
    note ok = mt.synced_add(3,4)[OF assms(1) Cons.prems(1), of U turn n, unfolded a]
    show ?thesis
    proof (cases v)
      case (Inl err)
      then show ?thesis using Cons.prems ok a Inr ie by (auto simp: no_port_error_def failure_of_def)
    next
      case (Inr w)
      then show ?thesis
        using Cons.IH[of "mark_item N P x it (push_stored (item_id N it) (R\<lparr>br_session := Ss\<rparr>))"] Cons.prems ok a
          \<open>ms_of_incoming M ent = Inr n\<close> ie by simp
    qed
  qed (use Cons.prems ie in auto)
qed auto

lemma mark_all_session:
  "br_session (foldl (\<lambda>R it. mark_item N P x it R) R its) = br_session R"
  by (induction its rule: rev_induct) simp_all

lemma store_new_synced:
  assumes "rules_keep M" "mt.synced (br_session R)" "store_in_new_input_turn M (memory_access U M) N P x u fresh R = (R', r)"
  shows "mt.synced (br_session R') \<and> r \<noteq> Inl (Port e)"
proof (cases "fresh = []")
  case ne: False
  show ?thesis
  proof (cases "ms_input_new M u (map snd fresh)")
    case (Inr t)
    obtain Ss v where a: "add_input_turn M (memory_access U M) t (br_session R) = (Ss, v)" by fastforce
    note ok = mt.synced_add(1,2)[OF assms(1,2), of U t, unfolded a]
    show ?thesis
      using assms(3) ok a Inr ne
      by (cases v) (auto simp: store_in_new_input_turn_def no_port_error_def failure_of_def mark_all_session push_all_stored)
  qed (use assms ne in \<open>auto simp: store_in_new_input_turn_def\<close>)
qed (use assms in \<open>auto simp: store_in_new_input_turn_def\<close>)

lemma build_no_port: "sort_pending N mail_entry holds q \<noteq> Inl (Port e)"
proof
  assume "sort_pending N mail_entry holds q = Inl (Port e)"
  then obtain it where "build_entry N mail_entry it = Inl (Port e)" using sort_pending_error by blast
  then show False by (cases it) (auto split: sum.splits if_splits)
qed

lemma run_boundary_synced:
  assumes "rules_keep M" "mt.synced (br_session R)"
    "run_boundary M (memory_access U M) N P x q mail_entry u R = (R', r)"
  shows "mt.synced (br_session R') \<and> r \<noteq> Inl (Port e)"
proof (cases "sort_pending N mail_entry (session_holds M (fst (br_session R))) q")
  case (Inl err)
  then show ?thesis using assms build_no_port[of N mail_entry "session_holds M (fst (br_session R))" q e]
    by (auto simp: run_boundary_def)
next
  case (Inr hf)
  obtain hs fresh where hf: "hf = (hs, fresh)" by (cases hf)
  let ?R = "skip_held N P x hs R"
  have sy: "mt.synced (br_session ?R)" using skip_held_did[of N P x hs R] assms(2) by simp
  show ?thesis
  proof (cases "open_ai_turn M (fst (br_session ?R)) (ic_agent x)")
    case None
    then show ?thesis using store_new_synced[OF assms(1) sy, of U N P x u fresh R' r] assms(3) Inr hf
      by (simp add: run_boundary_def Let_def)
  next
    case (Some turn)
    then show ?thesis using store_open_synced[OF assms(1) sy, of U N P x turn fresh R' r] assms(3) Inr hf
      by (simp add: run_boundary_def Let_def)
  qed
qed

text \<open>
  C39: reading the inbox and then storing at the boundary loses nothing and leaves nothing behind: over
  the in-memory ports, whatever the session did before, when the boundary succeeds the agent has
  nothing unread and the queue is empty, and when it fails (never at a port) the queue holds exactly
  what is still unread; the copy of the session is the stored conversation in both cases.
\<close>

theorem boundary_empties_inbox:
  fixes M :: "('c, 't, 'ai, 'n, 'e, 'a) messages" and s0 :: "('c, 't, 'n, 'a, 'd) thread_state"
  assumes "rules_keep M" "session_start (memory_access U M) t (thread_new t0 c) = (s0, Inr S0)"
    and "fst (session_run M (memory_access U M) ops (S0, s0)) = (S, s)"
    and "inbox_ok I" "0 < batch" "queue_read N (inbox_items N I (ic_agent x) batch) [] = Some (q, Inr n)"
    and "store_at_boundary M (memory_access U M) N (memory_inbox_port U N) x mail_entry u (S, s) I q =
      (((S', s'), I', q'), res)"
  shows "inbox_ok I' \<and> se_conversation S' = tm_conversation s' \<and>
    (\<lambda>v. item_id N (snd v)) ` set (unread N I' (ic_agent x)) = set (queue_ids N q') \<and>
    (case res of Inr rep \<Rightarrow> unread N I' (ic_agent x) = [] \<and> q' = [] | Inl e \<Rightarrow> \<forall>pe. be_fault e \<noteq> Port pe)"
proof -
  let ?P = "memory_inbox_port U N" and ?A = "memory_access U M"
  define rep where "rep = (case res of Inl e \<Rightarrow> be_done e | Inr rep \<Rightarrow> rep)"
  have sy: "mt.synced (S, s)"
    using mt.synced_run[OF assms(1) mt.start_synced[OF assms(2)], where ops = ops and U = U] assms(3)
    by (simp add: thread_new_def)
  define R where "R = \<lparr>br_session = (S, s), br_inbox = I, br_done = [], br_report = empty_report\<rparr>"
  obtain R' r where run: "run_boundary M ?A N ?P x q mail_entry u R = (R', r)" by fastforce
  have sy': "mt.synced (br_session R')" and np: "r \<noteq> Inl (Port e)" for e
    using run_boundary_synced[OF assms(1) _ run] sy by (simp_all add: R_def)
  have out: "br_session R' = (S', s')" "\<And>f. res = Inl f \<Longrightarrow> r = Inl (be_fault f)"
    using assms(7) run unfolding store_at_boundary_def R_def[symmetric] by (auto split: sum.splits)
  note acc = boundary_accounts[OF assms(7), unfolded Let_def rep_def[symmetric]]
  have I': "I' = foldl (\<lambda>I i. mark_read N (ic_agent x) i I) I (bd_skipped rep @ bd_stored rep)"
    using acc by (simp add: mark_ok_memory)
  have left: "(\<lambda>v. item_id N (snd v)) ` set (unread N I' (ic_agent x)) =
      set (queue_ids N q) - set (bd_skipped rep @ bd_stored rep)"
    unfolding I' by (rule mm.read_then_marked[OF assms(4,5,6)])
  have ok: "inbox_ok I'" using mm.marks_unread[OF assms(4), of N "ic_agent x" "bd_skipped rep @ bd_stored rep"] by (simp add: I')
  have conv: "se_conversation S' = tm_conversation s'" using sy' by (simp add: out(1) mt.synced_def)
  show ?thesis
  proof (cases res)
    case (Inl f)
    then have "q' = filter (\<lambda>it. item_id N it \<notin> set (bd_skipped rep) \<union> set (bd_stored rep)) q" using acc by auto
    then show ?thesis using left ok conv np out(2)[OF Inl] Inl by (auto simp: queue_ids_def)
  next
    case (Inr rp)
    then have st: "bd_stored rep = map (item_id N) (filter (\<lambda>it. \<not> session_holds M S (item_id N it)) q)"
      "bd_skipped rep = map (item_id N) (filter (\<lambda>it. session_holds M S (item_id N it)) q)" "q' = []"
      using acc by auto
    then have "(\<lambda>v. item_id N (snd v)) ` set (unread N I' (ic_agent x)) = {}"
      unfolding left by (auto simp: queue_ids_def)
    then show ?thesis using ok conv st(3) Inr by (simp add: queue_ids_def)
  qed
qed

theorem boundary_empties_inbox_witness:
  "unread demo_entries demo_box 2 \<noteq> [] \<and>
   unread demo_entries (fst (snd (fst (demo_boundary demo_box [ItemEntry 4, ItemEntry 9])))) 2 = []"
proof -
  obtain S s p q rep where b: "demo_boundary demo_box [ItemEntry 4, ItemEntry 9] = (((S, s), p, q), Inr rep)"
    using demo_boundary_ok(1) by (cases "demo_boundary demo_box [ItemEntry 4, ItemEntry 9]";
      cases "snd (demo_boundary demo_box [ItemEntry 4, ItemEntry 9])") auto
  have q: "queue_read demo_entries (inbox_items demo_entries demo_box (ic_agent demo_context) 1) [] =
      Some ([ItemEntry 4, ItemEntry 9], Inr 2)"
    using demo_boundary_ok(2) by (simp add: demo_context_def)
  have "unread demo_entries p 2 = []"
    using boundary_empties_inbox[where x = demo_context and mail_entry = demo_build and u = 11 and ops = "[]",
        OF demo_rules_keep demo_start[unfolded demo_thread_def] _ demo_box_ok _ q b[unfolded demo_boundary_def demo_thread_def]]
    by (simp add: demo_context_def)
  moreover have "unread demo_entries demo_box 2 \<noteq> []" by code_simp
  ultimately show ?thesis by (simp add: b)
qed

section \<open>A mark follows a stored entry\<close>

text \<open>
  What \<open>br-llm-messages\<close> promises of an accepted change: the conversation then holds the entries it
  held before and the new ones, under their ids; the entry of an incoming entry keeps its id.
\<close>

definition held_in :: "('c, 't, 'ai, 'n, 'e, 'a) messages \<Rightarrow> 'c \<Rightarrow> entry_id set" where
  "held_in M c = {i. is_ok (ms_entry M i c)}"

definition entry_laws :: "('c, 't, 'ai, 'n, 'e, 'a) messages \<Rightarrow> ('a, 'e) entry_ops \<Rightarrow> bool" where
  "entry_laws M N \<longleftrightarrow> rules_keep M \<and>
     (\<forall>u n c. is_ok (snd (ms_push_entry M u n c)) \<longrightarrow>
        held_in M (fst (ms_push_entry M u n c)) = insert (ms_entry_id M n) (held_in M c)) \<and>
     (\<forall>u a au n ai c. ms_push_ai M n (ms_open_ai M u a au) = Inr ai \<and> is_ok (snd (ms_push_turn M (ms_of_ai M ai) c)) \<longrightarrow>
        held_in M (fst (ms_push_turn M (ms_of_ai M ai) c)) = insert (ms_entry_id M n) (held_in M c)) \<and>
     (\<forall>u es t c. ms_input_new M u es = Inr t \<and> is_ok (snd (ms_push_turn M t c)) \<longrightarrow>
        held_in M (fst (ms_push_turn M t c)) = en_id N ` set es \<union> held_in M c) \<and>
     (\<forall>e n. ms_of_incoming M e = Inr n \<longrightarrow> ms_entry_id M n = en_id N e)"

lemma apply_entry_held:
  assumes "entry_laws M N" "is_ok (snd (apply_entry M w n c))"
  shows "held_in M (fst (apply_entry M w n c)) = insert (ms_entry_id M n) (held_in M c)"
  using assms unfolding entry_laws_def apply_entry_def by_rules_def by (auto split: sum.splits bool.splits)

lemma add_entry_held:
  assumes "entry_laws M N" "add_entry M A w n Ss = (Ss', r)"
  shows "held_in M (se_conversation (fst Ss)) \<subseteq> held_in M (se_conversation (fst Ss'))"
    "is_ok r \<Longrightarrow> ms_entry_id M n \<in> held_in M (se_conversation (fst Ss'))"
proof -
  let ?ap = "apply_entry M w n (se_conversation (fst Ss))"
  have "se_conversation (fst Ss') = fst ?ap" "is_ok r \<Longrightarrow> is_ok (snd ?ap)"
    using assms(2) by (auto simp: handed_simps handed_def split: prod.splits sum.splits unit.splits)
  moreover have "\<not> is_ok (snd ?ap) \<Longrightarrow> fst ?ap = se_conversation (fst Ss)"
    using apply_keeps(2)[of M w n "se_conversation (fst Ss)"] assms(1) by (cases "snd ?ap") (auto simp: entry_laws_def)
  moreover note apply_entry_held[OF assms(1), of w n "se_conversation (fst Ss)"]
  ultimately show "held_in M (se_conversation (fst Ss)) \<subseteq> held_in M (se_conversation (fst Ss'))"
    "is_ok r \<Longrightarrow> ms_entry_id M n \<in> held_in M (se_conversation (fst Ss'))"
    by (cases "is_ok (snd ?ap)"; auto)+
qed

lemma build_id: "build_entry N mail_entry it = Inr e \<Longrightarrow> en_id N e = item_id N it"
  by (cases it) (auto simp: is_entry_of_def item_id_def split: sum.splits if_splits)

text \<open>What the run stored so far is held by the copy.\<close>

definition stored_held :: "('c, 't, 'ai, 'n, 'e, 'a) messages \<Rightarrow> ('c, 's, 'p) boundary_run \<Rightarrow> bool" where
  "stored_held M R \<longleftrightarrow> set (br_done R) \<subseteq> held_in M (se_conversation (fst (br_session R)))"

lemma store_open_held:
  assumes "entry_laws M N" "stored_held M R" "\<forall>(it, e) \<in> set fresh. en_id N e = item_id N it"
    "store_in_open_turn M A N P x turn fresh R = (R', r)"
  shows "stored_held M R'"
  using assms(2-4)
proof (induction fresh arbitrary: R)
  case (Cons ie fresh)
  obtain it e where ie: "ie = (it, e)" by (cases ie)
  show ?case
  proof (cases "ms_of_incoming M e")
    case (Inr n)
    then have id: "ms_entry_id M n = item_id N it" using assms(1) Cons.prems(2) ie by (auto simp: entry_laws_def)
    obtain Ss v where a: "add_entry M A turn n (br_session R) = (Ss, v)" by fastforce
    note h = add_entry_held[OF assms(1) a]
    have mono: "set (br_done R) \<subseteq> held_in M (se_conversation (fst Ss))"
      using order_trans[OF Cons.prems(1)[unfolded stored_held_def] h(1)] .
    show ?thesis
    proof (cases v)
      case (Inl err)
      then have "R' = R\<lparr>br_session := Ss\<rparr>" using Cons.prems(3) a ie \<open>ms_of_incoming M e = Inr n\<close> by simp
      then show ?thesis using mono by (simp add: stored_held_def)
    next
      case (Inr w)
      let ?R = "mark_item N P x it (push_stored (item_id N it) (R\<lparr>br_session := Ss\<rparr>))"
      have "stored_held M ?R" using mono h(2) id Inr by (simp add: stored_held_def)
      then show ?thesis using Cons.IH[of ?R] Cons.prems(2,3) ie a Inr \<open>ms_of_incoming M e = Inr n\<close> by simp
    qed
  qed (use Cons.prems ie in auto)
qed auto

lemma store_new_held:
  assumes "entry_laws M N" "stored_held M R" "\<forall>(it, e) \<in> set fresh. en_id N e = item_id N it"
    "store_in_new_input_turn M A N P x u fresh R = (R', r)"
  shows "stored_held M R'"
proof (cases "fresh = []")
  case ne: False
  show ?thesis
  proof (cases "ms_input_new M u (map snd fresh)")
    case (Inr t)
    obtain Ss v where a: "add_input_turn M A t (br_session R) = (Ss, v)" by fastforce
    let ?ap = "ms_push_turn M t (se_conversation (fst (br_session R)))"
    have c: "se_conversation (fst Ss) = fst ?ap" "is_ok v \<Longrightarrow> is_ok (snd ?ap)"
      using a by (auto simp: handed_simps handed_def apply_input_turn_def by_rules_def split: prod.splits sum.splits unit.splits)
    have keep: "\<not> is_ok (snd ?ap) \<Longrightarrow> fst ?ap = se_conversation (fst (br_session R))"
      using assms(1) by (cases "snd ?ap") (auto simp: entry_laws_def rules_keep_def)
    have new: "is_ok (snd ?ap) \<Longrightarrow> held_in M (fst ?ap) = en_id N ` snd ` set fresh \<union> held_in M (se_conversation (fst (br_session R)))"
      using assms(1) Inr by (auto simp: entry_laws_def)
    have mono: "set (br_done R) \<subseteq> held_in M (fst ?ap)"
      using assms(2) keep new by (cases "is_ok (snd ?ap)") (auto simp: stored_held_def)
    have ids: "item_id N ` fst ` set fresh = en_id N ` snd ` set fresh"
      using assms(3) by (force simp: image_image)
    let ?R = "foldl (\<lambda>R it. push_stored (item_id N it) R) (R\<lparr>br_session := Ss\<rparr>) (map fst fresh)"
    show ?thesis
    proof (cases v)
      case (Inl err)
      then have "R' = R\<lparr>br_session := Ss\<rparr>" using assms(4) a ne \<open>ms_input_new M u (map snd fresh) = Inr t\<close>
        by (simp add: store_in_new_input_turn_def)
      then show ?thesis using mono c(1) by (simp add: stored_held_def)
    next
      case ok: (Inr w)
      then have r: "R' = foldl (\<lambda>R it. mark_item N P x it R) ?R (map fst fresh)"
        using assms(4) a ne Inr by (simp add: store_in_new_input_turn_def)
      have "br_done R' = br_done R @ map (item_id N) (map fst fresh)" "br_session R' = Ss"
        using mark_all_did[of N P x ?R "map fst fresh"] unfolding r by (simp_all add: push_all_stored)
      moreover have "item_id N ` fst ` set fresh \<subseteq> held_in M (fst ?ap)" using new c(2) ok ids by simp
      ultimately show ?thesis using mono c(1) by (simp add: stored_held_def image_image)
    qed
  qed (use assms ne in \<open>auto simp: store_in_new_input_turn_def\<close>)
qed (use assms in \<open>auto simp: store_in_new_input_turn_def\<close>)

lemma marks_marked:
  fixes marked :: "'p \<Rightarrow> entry_id set"
  assumes "\<forall>i p. marked (fst (ip_mark_read P x i p)) \<subseteq> insert i (marked p)"
  shows "marked (marks N P x ids p) \<subseteq> marked p \<union> set ids"
proof (induction ids arbitrary: p)
  case (Cons i ids)
  have "marks N P x (i # ids) p = marks N P x ids (fst (ip_mark_read P x i p))"
    by (simp add: marks_def)
  then show ?case
    using Cons.IH [of "fst (ip_mark_read P x i p)"] assms by fastforce
qed (simp add: marks_def)

text \<open>
  C40: an item is marked as read only when the conversation holds its entry. Take any inbox and any way
  to see which items it has marked, such that a call of \<open>mark_read\<close> marks at most its own item: whatever
  the thread access and the inbox answer, and also when the boundary fails at an entry, every item that
  is marked after the boundary and was not before is an entry of the copy of the session, and so is each
  item that the report names as stored or as skipped.
\<close>

theorem marked_is_held:
  fixes marked :: "'p \<Rightarrow> entry_id set"
  assumes "entry_laws M N" "\<forall>i p. marked (fst (ip_mark_read P x i p)) \<subseteq> insert i (marked p)"
    "store_at_boundary M A N P x mail_entry u (S, s) p q = ((Ss', p', q'), res)"
  shows "let rep = (case res of Inl e \<Rightarrow> be_done e | Inr rep \<Rightarrow> rep)
    in marked p' \<subseteq> marked p \<union> {i. session_holds M (fst Ss') i} \<and>
      (\<forall>i \<in> set (bd_skipped rep) \<union> set (bd_stored rep). session_holds M (fst Ss') i)"
proof -
  define R where "R = \<lparr>br_session = (S, s), br_inbox = p, br_done = [], br_report = empty_report\<rparr>"
  obtain R' r where run: "run_boundary M A N P x q mail_entry u R = (R', r)" by fastforce
  have out: "Ss' = br_session R'" "p' = br_inbox R'" "(case res of Inl e \<Rightarrow> be_done e | Inr rep \<Rightarrow> rep) = br_report R'"
    using assms(3) run unfolding store_at_boundary_def R_def[symmetric] by (auto split: sum.splits)
  have "stored_held M R' \<and> set (br_done R') = set (bd_skipped (br_report R')) \<union> set (bd_stored (br_report R')) \<and>
      br_inbox R' = marks N P x (br_done R') p"
  proof (cases "sort_pending N mail_entry (session_holds M S) q")
    case (Inl e)
    then have "R' = R" using run by (simp add: run_boundary_def R_def)
    then show ?thesis by (simp add: R_def stored_held_def empty_report_def marks_def)
  next
    case (Inr hf)
    obtain hs fresh where hf: "hf = (hs, fresh)" by (cases hf)
    note so = sort_pending_Inr[OF Inr[unfolded hf]]
    have ids: "\<forall>(it, e) \<in> set fresh. en_id N e = item_id N it" using so build_id by fastforce
    let ?R = "skip_held N P x hs R"
    note sk = skip_held_did[of N P x hs R]
    have "stored_held M ?R"
      using sk so by (auto simp: stored_held_def phase_did_def R_def held_in_def sorted_ok_def session_holds_def)
    note held = store_open_held[OF assms(1) this ids, of A P x] store_new_held[OF assms(1) this ids, of A P x u]
    have "stored_held M R'"
    proof (cases "open_ai_turn M (fst (br_session ?R)) (ic_agent x)")
      case None
      then have "store_in_new_input_turn M A N P x u fresh ?R = (R', r)"
        using run Inr hf by (simp add: run_boundary_def Let_def R_def)
      then show ?thesis by (rule held(2))
    next
      case (Some turn)
      then have "store_in_open_turn M A N P x turn fresh ?R = (R', r)"
        using run Inr hf by (simp add: run_boundary_def Let_def R_def)
      then show ?thesis by (rule held(1))
    qed
    moreover obtain k where "phase_did N P x R R' (map (item_id N) hs) (map (item_id N \<circ> fst) (take k fresh))"
      using run_boundary_did[OF run, of hs fresh] Inr hf by (auto simp: R_def)
    ultimately show ?thesis by (simp add: phase_did_def R_def empty_report_def)
  qed
  moreover have "session_holds M (fst (br_session R')) i \<longleftrightarrow> i \<in> held_in M (se_conversation (fst (br_session R')))" for i
    by (simp add: held_in_def session_holds_def)
  ultimately show ?thesis
    using marks_marked[OF assms(2), of N "br_done R'" p] unfolding out Let_def stored_held_def by auto
qed

lemma find_exists: "(\<exists>t. find P xs = Some t) \<longleftrightarrow> (\<exists>t \<in> set xs. P t)"
  by (induction xs) auto

lemma demo_held: "i \<in> held_in demo_messages c \<longleftrightarrow> (\<exists>t \<in> set c. i \<in> set (snd (snd t)))"
  unfolding find_exists[symmetric] by (auto simp: held_in_def demo_messages_def split: option.splits)

lemma demo_push_entry_held:
  assumes "is_ok (snd (demo_push_entry u n c))"
  shows "held_in demo_messages (fst (demo_push_entry u n c)) = insert n (held_in demo_messages c)"
proof -
  let ?f = "\<lambda>t. if fst t = u then (u, fst (snd t), snd (snd t) @ [n]) else t"
  have c: "fst (demo_push_entry u n c) = map ?f c" and "u \<in> fst ` set c"
    using assms by (auto simp: demo_push_entry_def split: if_splits)
  then obtain t where t: "t \<in> set c" "fst t = u" by auto
  have f: "set (snd (snd (?f t))) = (if fst t = u then insert n (set (snd (snd t))) else set (snd (snd t)))" for t :: demo_turn
    by simp
  have "i \<in> held_in demo_messages (map ?f c) \<longleftrightarrow> i = n \<or> i \<in> held_in demo_messages c" for i
    unfolding demo_held set_map bex_simps f using t by (auto split: if_splits)
  then show ?thesis unfolding c by blast
qed

lemma demo_push_turn_held:
  "is_ok (snd (demo_push_turn t c)) \<Longrightarrow>
     held_in demo_messages (fst (demo_push_turn t c)) = set (snd (snd t)) \<union> held_in demo_messages c"
  by (rule set_eqI) (auto simp: demo_held demo_push_turn_def split: if_splits)

lemma demo_entry_laws: "entry_laws demo_messages demo_entries"
proof -
  have m: "ms_push_turn demo_messages = demo_push_turn" "ms_push_entry demo_messages = demo_push_entry"
    "ms_entry_id demo_messages = (\<lambda>n. n)" "ms_of_incoming demo_messages = Inr"
    "ms_input_new demo_messages = (\<lambda>u es. Inr (u, None, es))" "en_id demo_entries = (\<lambda>e. e)"
    "ms_push_ai demo_messages n (ms_open_ai demo_messages u a au) =
       (if n = 0 then Inl (Cause (Inr ''refused'')) else Inr (u, a, au, [n]))"
    "ms_of_ai demo_messages (u, a, au, ns) = (u, Some (a, au), ns)" for n u a au ns
    by (simp_all add: demo_messages_def demo_entries_def)
  show ?thesis
    unfolding entry_laws_def m using demo_rules_keep demo_push_entry_held demo_push_turn_held
    by (auto simp: m split: if_splits)
qed

text \<open>The read marks of the in-memory inbox for an agent.\<close>

definition read_marks :: "agent_id \<Rightarrow> ('a, 'e) memory_inbox \<Rightarrow> entry_id set" where
  "read_marks agent I = {i. (agent, i) \<in> set (mi_read I)}"

lemma memory_marks:
  "\<forall>i I. read_marks (ic_agent x) (fst (ip_mark_read (memory_inbox_port U N) x i I)) \<subseteq> insert i (read_marks (ic_agent x) I)"
  by (auto simp: read_marks_def memory_inbox_port_def mark_read_def)

theorem marked_is_held_witness:
  "\<exists>Ss I q rep. demo_boundary demo_box [ItemEntry 4, ItemEntry 9] = ((Ss, I, q), Inr rep) \<and> 4 \<in> read_marks 2 I \<and>
     (\<forall>i \<in> read_marks 2 I. session_holds demo_messages (fst Ss) i)"
proof -
  obtain Ss I q rep where b: "demo_boundary demo_box [ItemEntry 4, ItemEntry 9] = ((Ss, I, q), Inr rep)"
    using demo_boundary_ok(1) by (cases "demo_boundary demo_box [ItemEntry 4, ItemEntry 9]";
      cases "snd (demo_boundary demo_box [ItemEntry 4, ItemEntry 9])") auto
  have "(2, 4) \<in> set (mi_read (fst (snd (fst (demo_boundary demo_box [ItemEntry 4, ItemEntry 9])))))" by code_simp
  then have four: "4 \<in> read_marks 2 I" by (simp add: b read_marks_def)
  have "mi_read demo_box = []" by code_simp
  then have none: "read_marks 2 demo_box = {}" by (simp add: read_marks_def)
  have agent: "ic_agent demo_context = 2" by (simp add: demo_context_def)
  from marked_is_held[OF demo_entry_laws memory_marks b[unfolded demo_boundary_def]]
  have "\<forall>i \<in> read_marks 2 I. session_holds demo_messages (fst Ss) i"
    unfolding none agent Let_def by blast
  then show ?thesis using b four by blast
qed

end
