(* ===== verification/Agentic_Workspace.thy ===== *)
theory Agentic_Workspace
  imports Agentic_Mail "HOL-Library.Mapping" "HOL-Library.RBT_Mapping"
begin

text \<open>
  The file system of an instance: the workspace port and its modes (\<open>workspace.rs\<close> of
  \<open>br-agentic-contract\<close>), the workspace in memory (\<open>memory/simple.rs\<close>) and the sandbox of
  \<open>br-agentic-nodes\<close> (\<open>sandbox.rs\<close>). A \<open>BTreeMap\<close> is a finite mapping, read out in the order of its keys.
\<close>

section \<open>The workspace port\<close>

record workspace_file =
  wf_path :: string
  wf_content :: "8 word list"

datatype file_system_mode = Always | Might | Never

text \<open>The port works on a state \<open>'w\<close> of its own; \<open>'f\<close> is the snapshot of the fields.\<close>

record ('w, 'f) workspace_port =
  wp_load :: "'f \<Rightarrow> 'w \<Rightarrow> 'w \<times> (port_error + workspace_file list)"
  wp_save :: "'f \<Rightarrow> workspace_file list \<Rightarrow> 'w \<Rightarrow> 'w \<times> (port_error + unit)"

definition mode_start ::
  "file_system_mode \<Rightarrow> ('w, 'f) workspace_port \<Rightarrow> 'f \<Rightarrow> 'w \<Rightarrow> 'w \<times> (port_error + workspace_file list option)" where
  "mode_start mode P snapshot w = (case mode of
     Never \<Rightarrow> (w, Inr None)
   | Always \<Rightarrow> (case wp_load P snapshot w of
       (w, Inl e) \<Rightarrow> (w, Inl e)
     | (w, Inr files) \<Rightarrow> (w, Inr (Some files)))
   | Might \<Rightarrow> (case wp_load P snapshot w of
       (w, Inl e) \<Rightarrow> (w, Inl e)
     | (w, Inr files) \<Rightarrow> (w, Inr (if files \<noteq> [] then Some files else None))))"

definition save_files ::
  "('w, 'f) workspace_port \<Rightarrow> 'f \<Rightarrow> workspace_file list option \<Rightarrow> 'w \<Rightarrow> 'w \<times> (port_error + unit)" where
  "save_files P snapshot files w = (case files of
     Some files \<Rightarrow> wp_save P snapshot files w
   | None \<Rightarrow> (w, Inr ()))"

section \<open>The workspace in memory\<close>

datatype workspace_call = WorkspaceLoad | WorkspaceSave "workspace_file list"

record memory_workspace =
  mw_files :: "workspace_file list"
  mw_calls :: "workspace_call list"

definition memory_workspace_new :: "workspace_file list \<Rightarrow> memory_workspace" where
  "memory_workspace_new files = \<lparr>mw_files = files, mw_calls = []\<rparr>"

definition mw_load :: "'f \<Rightarrow> memory_workspace \<Rightarrow> memory_workspace \<times> (port_error + workspace_file list)" where
  "mw_load snapshot w = (w\<lparr>mw_calls := mw_calls w @ [WorkspaceLoad]\<rparr>, Inr (mw_files w))"

definition mw_save :: "'f \<Rightarrow> workspace_file list \<Rightarrow> memory_workspace \<Rightarrow> memory_workspace \<times> (port_error + unit)" where
  "mw_save snapshot files w =
     (w\<lparr>mw_calls := mw_calls w @ [WorkspaceSave files], mw_files := files\<rparr>, Inr ())"

definition memory_workspace_port :: "(memory_workspace, 'f) workspace_port" where
  "memory_workspace_port = \<lparr>wp_load = mw_load, wp_save = mw_save\<rparr>"

section \<open>Paths of the sandbox\<close>

definition SLASH :: char where "SLASH = CHR ''/''"

text \<open>\<open>str::split\<close> on a character and \<open>join\<close> of the parts.\<close>

fun split_on :: "char \<Rightarrow> string \<Rightarrow> string list" where
  "split_on c [] = [[]]"
| "split_on c (x # s) = (if x = c then [] # split_on c s
     else (case split_on c s of [] \<Rightarrow> [[x]] | p # ps \<Rightarrow> (x # p) # ps))"

fun join_with :: "string \<Rightarrow> string list \<Rightarrow> string" where
  "join_with sep [] = []"
| "join_with sep [p] = p"
| "join_with sep (p # q # ps) = p @ sep @ join_with sep (q # ps)"

datatype sandbox_error =
  EmptyPath string | AbsolutePath string | EscapesPath string | CharacterPath string | DuplicatePath string

datatype sandbox_path = SandboxPath (path_str: string)

text \<open>The derived order of a path is the order of its text.\<close>

instantiation sandbox_path :: linorder
begin

definition less_eq_sandbox_path :: "sandbox_path \<Rightarrow> sandbox_path \<Rightarrow> bool" where
  "p \<le> q \<longleftrightarrow> path_str p \<le> path_str q"

definition less_sandbox_path :: "sandbox_path \<Rightarrow> sandbox_path \<Rightarrow> bool" where
  "p < q \<longleftrightarrow> path_str p < path_str q"

instance
  by standard (auto simp: less_eq_sandbox_path_def less_sandbox_path_def intro: sandbox_path.expand)

end

definition path_part :: "string \<Rightarrow> string list \<Rightarrow> string \<Rightarrow> sandbox_error + string list" where
  "path_part text parts part = (if part = [] \<or> part = ''.'' then Inr parts
     else if part = ''..'' then Inl (EscapesPath text)
     else Inr (parts @ [part]))"

definition sandbox_path_new :: "string \<Rightarrow> sandbox_error + sandbox_path" where
  "sandbox_path_new text = (if CHR 0x00 \<in> set text \<or> CHR 0x5C \<in> set text then Inl (CharacterPath text)
     else if take 1 text = [SLASH] then Inl (AbsolutePath text)
     else bind_sum (for_each (path_part text) [] (split_on SLASH text)) (\<lambda>parts.
       if parts = [] then Inl (EmptyPath text) else Inr (SandboxPath (join_with [SLASH] parts))))"

section \<open>The file system of an instance\<close>

record file_system =
  fs_files :: "(sandbox_path, 8 word list) mapping"

definition file_system_default :: file_system where
  "file_system_default = \<lparr>fs_files = Mapping.empty\<rparr>"

definition insert_file :: "file_system \<Rightarrow> workspace_file \<Rightarrow> sandbox_error + file_system" where
  "insert_file system f = bind_sum (sandbox_path_new (wf_path f)) (\<lambda>path.
     if Mapping.lookup (fs_files system) path \<noteq> None then Inl (DuplicatePath (path_str path))
     else Inr (system\<lparr>fs_files := Mapping.update path (wf_content f) (fs_files system)\<rparr>))"

definition from_files :: "workspace_file list \<Rightarrow> sandbox_error + file_system" where
  "from_files files = for_each insert_file file_system_default files"

definition fs_read :: "file_system \<Rightarrow> string \<Rightarrow> sandbox_error + 8 word list option" where
  "fs_read system path = bind_sum (sandbox_path_new path) (\<lambda>path. Inr (Mapping.lookup (fs_files system) path))"

definition fs_write :: "file_system \<Rightarrow> string \<Rightarrow> 8 word list \<Rightarrow> sandbox_error + file_system" where
  "fs_write system path content = bind_sum (sandbox_path_new path) (\<lambda>path.
     Inr (system\<lparr>fs_files := Mapping.update path content (fs_files system)\<rparr>))"

definition fs_remove :: "file_system \<Rightarrow> string \<Rightarrow> sandbox_error + file_system \<times> bool" where
  "fs_remove system path = bind_sum (sandbox_path_new path) (\<lambda>path.
     Inr (system\<lparr>fs_files := Mapping.delete path (fs_files system)\<rparr>, Mapping.lookup (fs_files system) path \<noteq> None))"

definition fs_paths :: "file_system \<Rightarrow> sandbox_path list" where
  "fs_paths system = Mapping.ordered_keys (fs_files system)"

definition fs_len :: "file_system \<Rightarrow> nat" where
  "fs_len system = Mapping.size (fs_files system)"

definition fs_is_empty :: "file_system \<Rightarrow> bool" where
  "fs_is_empty system = Mapping.is_empty (fs_files system)"

definition into_files :: "file_system \<Rightarrow> workspace_file list" where
  "into_files system = map (\<lambda>(path, content). \<lparr>wf_path = path_str path, wf_content = content\<rparr>)
     (Mapping.ordered_entries (fs_files system))"

section \<open>Parts of a path\<close>

lemma split_on_not_Nil [simp]: "split_on c s \<noteq> []"
  by (induction s) (auto split: list.splits)

lemma split_on_free: "c \<notin> set s \<Longrightarrow> split_on c s = [s]"
  by (induction s) auto

lemma split_on_append: "c \<notin> set p \<Longrightarrow> split_on c (p @ c # s) = p # split_on c s"
  by (induction p) auto

lemma split_on_join:
  "ps \<noteq> [] \<Longrightarrow> \<forall>p \<in> set ps. c \<notin> set p \<Longrightarrow> split_on c (join_with [c] ps) = ps"
  by (induction "[c]" ps rule: join_with.induct) (auto simp: split_on_free split_on_append)

lemma split_on_parts: "p \<in> set (split_on c s) \<Longrightarrow> c \<notin> set p \<and> set p \<subseteq> set s"
  by (induction s arbitrary: p) (fastforce split: if_splits list.splits)+

lemma set_join_with: "set (join_with sep ps) \<subseteq> set sep \<union> \<Union> (set ` set ps)"
  by (induction sep ps rule: join_with.induct) auto

lemma hd_join_with: "p \<noteq> [] \<Longrightarrow> take 1 (join_with sep (p # ps)) = take 1 p"
  by (cases ps; cases p) auto

definition kept_parts :: "string \<Rightarrow> string list" where
  "kept_parts text = filter (\<lambda>part. part \<noteq> [] \<and> part \<noteq> ''.'') (split_on SLASH text)"

lemma path_parts_loop:
  "for_each (path_part text) parts ps = (if ''..'' \<in> set ps then Inl (EscapesPath text)
     else Inr (parts @ filter (\<lambda>part. part \<noteq> [] \<and> part \<noteq> ''.'') ps))"
  by (induction ps arbitrary: parts) (auto simp: path_part_def)

text \<open>The answer of \<open>SandboxPath::new\<close> on every branch.\<close>

lemma sandbox_path_new_eq:
  "sandbox_path_new text = (if CHR 0x00 \<in> set text \<or> CHR 0x5C \<in> set text then Inl (CharacterPath text)
     else if take 1 text = [SLASH] then Inl (AbsolutePath text)
     else if ''..'' \<in> set (split_on SLASH text) then Inl (EscapesPath text)
     else if kept_parts text = [] then Inl (EmptyPath text)
     else Inr (SandboxPath (join_with [SLASH] (kept_parts text))))"
  by (simp add: sandbox_path_new_def path_parts_loop kept_parts_def)

text \<open>A text that names a place below the root by its parts alone.\<close>

definition normal_path :: "string \<Rightarrow> bool" where
  "normal_path text \<longleftrightarrow> CHR 0x00 \<notin> set text \<and> CHR 0x5C \<notin> set text \<and>
     list_all (\<lambda>part. part \<noteq> [] \<and> part \<noteq> ''.'' \<and> part \<noteq> ''..'') (split_on SLASH text)"

lemma normal_path_new:
  assumes "normal_path text"
  shows "sandbox_path_new text = Inr (SandboxPath text)"
proof -
  have parts: "split_on SLASH text \<noteq> []" "\<forall>part \<in> set (split_on SLASH text). part \<noteq> [] \<and> part \<noteq> ''.'' \<and> part \<noteq> ''..''"
    using assms by (auto simp: normal_path_def list_all_iff)
  have kept: "kept_parts text = split_on SLASH text"
    using parts by (simp add: kept_parts_def filter_id_conv)
  have join: "join_with [SLASH] (split_on SLASH s) = s" for s
    by (induction s) (auto split: list.splits elim: join_with.elims)
  have "take 1 text \<noteq> [SLASH]"
    using parts(2) by (cases "text") (auto split: if_splits)
  then show ?thesis
    using assms parts kept join by (auto simp: sandbox_path_new_eq normal_path_def)
qed

lemma new_parts:
  assumes "sandbox_path_new text = Inr p"
  shows "split_on SLASH (path_str p) = kept_parts text" "set (path_str p) \<subseteq> insert SLASH (set text)"
    "\<forall>part \<in> set (kept_parts text). part \<noteq> [] \<and> part \<noteq> ''.'' \<and> part \<noteq> ''..''"
proof -
  have ok: "''..'' \<notin> set (split_on SLASH text)" "kept_parts text \<noteq> []"
    "p = SandboxPath (join_with [SLASH] (kept_parts text))"
    using assms by (auto simp: sandbox_path_new_eq split: if_splits)
  have kept: "\<forall>part \<in> set (kept_parts text). SLASH \<notin> set part \<and> set part \<subseteq> set text"
    using split_on_parts by (auto simp: kept_parts_def)
  show "\<forall>part \<in> set (kept_parts text). part \<noteq> [] \<and> part \<noteq> ''.'' \<and> part \<noteq> ''..''"
    using ok(1) by (auto simp: kept_parts_def)
  show "split_on SLASH (path_str p) = kept_parts text"
    using ok(2, 3) kept by (simp add: split_on_join)
  show "set (path_str p) \<subseteq> insert SLASH (set text)"
    using set_join_with [of "[SLASH]" "kept_parts text"] kept ok(3) by fastforce
qed

lemma new_normal_path:
  assumes "sandbox_path_new text = Inr p"
  shows "normal_path (path_str p)"
proof -
  have "CHR 0x00 \<notin> set text" "CHR 0x5C \<notin> set text"
    using assms by (auto simp: sandbox_path_new_eq split: if_splits)
  then show ?thesis
    using new_parts [OF assms] by (auto simp: normal_path_def list_all_iff SLASH_def)
qed

lemma new_fixed: "sandbox_path_new text = Inr p \<Longrightarrow> sandbox_path_new (path_str p) = Inr p"
  using new_normal_path normal_path_new by fastforce

section \<open>The mapping behind a file system\<close>

definition fs_ok :: "file_system \<Rightarrow> bool" where
  "fs_ok system \<longleftrightarrow> finite (Mapping.keys (fs_files system)) \<and>
     (\<forall>p \<in> Mapping.keys (fs_files system). normal_path (path_str p))"

lemma fs_ok_default: "fs_ok file_system_default"
  by (simp add: fs_ok_def file_system_default_def)

lemma insert_file_Inr_iff:
  "insert_file system f = Inr system' \<longleftrightarrow> (\<exists>p. sandbox_path_new (wf_path f) = Inr p \<and>
     p \<notin> Mapping.keys (fs_files system) \<and>
     system' = system\<lparr>fs_files := Mapping.update p (wf_content f) (fs_files system)\<rparr>)"
  by (auto simp: insert_file_def bind_sum_Inr_iff keys_dom_lookup split: if_splits)

lemma fs_ok_insert: "fs_ok system \<Longrightarrow> insert_file system f = Inr system' \<Longrightarrow> fs_ok system'"
  using new_normal_path by (auto simp: fs_ok_def insert_file_Inr_iff)

lemma fs_ok_for_each: "fs_ok system \<Longrightarrow> for_each insert_file system files = Inr system' \<Longrightarrow> fs_ok system'"
  by (induction files arbitrary: system) (auto dest: fs_ok_insert split: sum.splits)

text \<open>Every operation keeps a file system well formed.\<close>

lemma fs_ok_from_files: "from_files files = Inr system \<Longrightarrow> fs_ok system"
  using fs_ok_for_each fs_ok_default by (auto simp: from_files_def)

lemma fs_ok_write: "fs_ok system \<Longrightarrow> fs_write system path content = Inr system' \<Longrightarrow> fs_ok system'"
  using new_normal_path by (auto simp: fs_ok_def fs_write_def bind_sum_Inr_iff)

lemma fs_ok_remove: "fs_ok system \<Longrightarrow> fs_remove system path = Inr (system', b) \<Longrightarrow> fs_ok system'"
  by (auto simp: fs_ok_def fs_remove_def bind_sum_Inr_iff)

lemmas fs_ok_rules = fs_ok_from_files fs_ok_write fs_ok_remove

section \<open>Reading, writing and the files of a file system\<close>

lemma lookup_update_fun: "Mapping.lookup (Mapping.update p c m) = (Mapping.lookup m)(p \<mapsto> c)"
  by (auto simp: lookup_update')

lemma lookup_empty_fun: "Mapping.lookup Mapping.empty = Map.empty"
  by (simp add: fun_eq_iff)

lemma add_file_first:
  assumes "p \<notin> set ps"
  shows "(m(p \<mapsto> c)) ++ map_of (zip ps cs) = m ++ map_of (zip (p # ps) (c # cs))"
proof -
  have "p \<notin> dom (map_of (zip ps cs))"
    using assms by (auto simp: dom_map_of_conv_image_fst dest: set_zip_leftD)
  then show ?thesis
    by (simp add: map_add_upd_left)
qed

definition reads_as :: "workspace_file list \<Rightarrow> sandbox_path list \<Rightarrow> bool" where
  "reads_as files ps \<longleftrightarrow> list_all2 (\<lambda>f p. sandbox_path_new (wf_path f) = Inr p) files ps \<and> distinct ps"

lemma reads_as_simps [simp]:
  "reads_as [] ps \<longleftrightarrow> ps = []"
  "reads_as (f # files) (p # ps) \<longleftrightarrow> sandbox_path_new (wf_path f) = Inr p \<and> p \<notin> set ps \<and> reads_as files ps"
  "\<not> reads_as (f # files) []"
  by (auto simp: reads_as_def)

lemma for_each_insert_iff:
  "for_each insert_file system files = Inr system' \<longleftrightarrow>
     (\<exists>ps. reads_as files ps \<and> set ps \<inter> Mapping.keys (fs_files system) = {} \<and>
       Mapping.lookup (fs_files system') =
         Mapping.lookup (fs_files system) ++ map_of (zip ps (map wf_content files)))"
proof (induction files arbitrary: system)
  case Nil
  then show ?case by (auto intro!: file_system.equality mapping_eqI)
next
  case (Cons f files)
  show ?case
  proof (cases "insert_file system f")
    case (Inl e)
    then have "\<not> (sandbox_path_new (wf_path f) = Inr p \<and> p \<notin> Mapping.keys (fs_files system))" for p
      by (auto simp: insert_file_def keys_dom_lookup split: if_splits)
    then have "\<not> (reads_as (f # files) ps \<and> set ps \<inter> Mapping.keys (fs_files system) = {})" for ps
      by (cases ps) auto
    then show ?thesis
      using Inl by auto
  next
    case (Inr s)
    then obtain p where p: "sandbox_path_new (wf_path f) = Inr p" "p \<notin> Mapping.keys (fs_files system)"
      "s = system\<lparr>fs_files := Mapping.update p (wf_content f) (fs_files system)\<rparr>"
      by (auto simp: insert_file_Inr_iff)
    have "(\<exists>qs. reads_as (f # files) qs \<and> set qs \<inter> Mapping.keys (fs_files system) = {} \<and>
          Mapping.lookup (fs_files system') =
            Mapping.lookup (fs_files system) ++ map_of (zip qs (map wf_content (f # files)))) \<longleftrightarrow>
        (\<exists>ps. reads_as files ps \<and> p \<notin> set ps \<and> set ps \<inter> Mapping.keys (fs_files system) = {} \<and>
          Mapping.lookup (fs_files system') =
            Mapping.lookup (fs_files system) ++ map_of (zip (p # ps) (map wf_content (f # files))))"
      (is "?all \<longleftrightarrow> ?rest")
    proof
      assume ?all
      then obtain qs where qs: "reads_as (f # files) qs" "set qs \<inter> Mapping.keys (fs_files system) = {}"
        "Mapping.lookup (fs_files system') =
            Mapping.lookup (fs_files system) ++ map_of (zip qs (map wf_content (f # files)))"
        by blast
      obtain ps where "qs = p # ps"
        using qs(1) p(1) by (cases qs) auto
      then show ?rest
        using qs by auto
    next
      assume ?rest
      then obtain ps where "reads_as files ps" "p \<notin> set ps" "set ps \<inter> Mapping.keys (fs_files system) = {}"
        "Mapping.lookup (fs_files system') =
            Mapping.lookup (fs_files system) ++ map_of (zip (p # ps) (map wf_content (f # files)))"
        by blast
      then show ?all
        using p by (intro exI [of _ "p # ps"]) auto
    qed
    moreover have "Mapping.lookup (fs_files s) ++ map_of (zip ps (map wf_content files)) =
        Mapping.lookup (fs_files system) ++ map_of (zip (p # ps) (map wf_content (f # files)))"
      if "p \<notin> set ps" for ps
      using add_file_first [OF that] p(3) by (simp add: lookup_update_fun)
    ultimately show ?thesis
      using Inr p(3) by (simp add: Cons.IH) (metis (no_types, lifting))
  qed
qed

text \<open>\<open>from_files\<close> succeeds exactly on files whose paths are accepted and name different places.\<close>

lemma from_files_Inr_iff:
  "from_files files = Inr system \<longleftrightarrow>
     (\<exists>ps. reads_as files ps \<and> Mapping.lookup (fs_files system) = map_of (zip ps (map wf_content files)))"
  by (simp add: from_files_def for_each_insert_iff file_system_default_def lookup_empty_fun)

lemma map_of_ordered_entries:
  "finite (Mapping.keys m) \<Longrightarrow> map_of (Mapping.ordered_entries m) p = Mapping.lookup m p"
proof -
  assume fin: "finite (Mapping.keys m)"
  have "(p, c) \<in> set (Mapping.ordered_entries m) \<longleftrightarrow> Mapping.lookup m p = Some c" for c
    using fin by (simp add: Mapping.entries.rep_eq Mapping.lookup.rep_eq graph_def)
  then show ?thesis
    by (metis distinct_ordered_entries map_of_SomeD map_of_is_SomeI not_None_eq)
qed


text \<open>\<open>into_files\<close> lists the places of a file system in order, and \<open>from_files\<close> reads the list back.\<close>

lemma paths_into_files: "map wf_path (into_files system) = map path_str (fs_paths system)"
  by (simp add: into_files_def fs_paths_def case_prod_unfold comp_def flip: map_fst_ordered_entries)

lemma from_into_files:
  assumes "fs_ok system"
  shows "from_files (into_files system) = Inr system"
proof -
  let ?es = "Mapping.ordered_entries (fs_files system)"
  have fin: "finite (Mapping.keys (fs_files system))"
    using assms by (simp add: fs_ok_def)
  have "\<forall>p \<in> set (map fst ?es). normal_path (path_str p)"
    using assms fin by (auto simp: fs_ok_def)
  then have "reads_as (into_files system) (map fst ?es)"
    by (auto simp: reads_as_def into_files_def list_all2_map1 list_all2_map2 case_prod_unfold normal_path_new
        list_all2_same simp del: map_fst_ordered_entries)
  moreover have "map wf_content (into_files system) = map snd ?es"
    by (simp add: into_files_def case_prod_unfold comp_def)
  ultimately show ?thesis
    using fin unfolding from_files_Inr_iff
    by (intro exI [of _ "map fst ?es"])
      (simp add: zip_map_fst_snd map_of_ordered_entries fun_eq_iff del: map_fst_ordered_entries)
qed


section \<open>The contract of a workspace\<close>

text \<open>
  What an instance relies on: a load leaves the stored files alone and gives them, a save that
  succeeds replaces them.
\<close>

locale stored_files =
  fixes P :: "('w, 'f) workspace_port"
    and stored :: "'w \<Rightarrow> workspace_file list"
  assumes load_stored: "snd (wp_load P snapshot w) = Inr files \<longrightarrow> files = stored w"
    and load_keeps: "stored (fst (wp_load P snapshot w)) = stored w"
    and save_stores: "snd (wp_save P snapshot files w) = Inr () \<longrightarrow> stored (fst (wp_save P snapshot files w)) = files"
begin

lemma start_after_save:
  assumes "snd (save_files P snapshot (Some files) w) = Inr ()"
    and "snd (mode_start mode P snapshot' (fst (save_files P snapshot (Some files) w))) = Inr loaded"
  shows "loaded = (if mode = Never \<or> mode = Might \<and> files = [] then None else Some files)"
  using assms load_stored [of snapshot' "fst (wp_save P snapshot files w)"] save_stores [of snapshot files w]
  by (cases mode) (auto simp: save_files_def mode_start_def split: prod.splits sum.splits if_splits)

lemma start_keeps: "stored (fst (mode_start mode P snapshot w)) = stored w"
  using load_keeps [of snapshot w] by (cases mode) (auto simp: mode_start_def split: prod.splits sum.splits)

lemma no_files_no_save: "save_files P snapshot None w = (w, Inr ())"
  by (simp add: save_files_def)

end

interpretation mw: stored_files memory_workspace_port mw_files
  by unfold_locales (auto simp: memory_workspace_port_def mw_load_def mw_save_def)

lemma memory_port_simps [simp]:
  "snd (save_files memory_workspace_port snapshot files w) = Inr ()"
  "is_ok (snd (mode_start mode memory_workspace_port snapshot w))"
  by (cases files; simp add: save_files_def memory_workspace_port_def mw_save_def)
    (cases mode; simp add: mode_start_def memory_workspace_port_def mw_load_def)

section \<open>Properties\<close>

text \<open>
  C33: A path of the sandbox never leaves it. A text that \<open>SandboxPath::new\<close> accepts gives the parts of the
  text that are not empty and not a dot, none of them the parent, joined by slashes: no backslash, no NUL, no
  leading slash; and the path read again is itself.
\<close>

theorem sandbox_path_stays_inside:
  assumes "sandbox_path_new text = Inr p"
  shows "split_on SLASH (path_str p) = kept_parts text \<and> normal_path (path_str p) \<and>
    take 1 (path_str p) \<noteq> [SLASH] \<and> ''..'' \<notin> set (split_on SLASH text) \<and>
    sandbox_path_new (path_str p) = Inr p"
  using new_fixed [OF assms] new_parts(1) [OF assms] new_normal_path [OF assms] assms
  by (auto simp: sandbox_path_new_eq split: if_splits)

theorem sandbox_path_stays_inside_witness:
  "sandbox_path_new ''a/./b//c'' = Inr (SandboxPath ''a/b/c'') \<and>
    split_on SLASH ''a/b/c'' = kept_parts ''a/./b//c''"
proof -
  have "sandbox_path_new ''a/./b//c'' = Inr (SandboxPath ''a/b/c'')"
    by code_simp
  from this sandbox_path_stays_inside [OF this] show ?thesis
    by (simp only: sandbox_path.sel)
qed

text \<open>
  C34: The files an instance saves are the files the next one starts with. A file system listed by
  \<open>into_files\<close>, saved to the workspace in memory and loaded by another instance is the same file system,
  whatever both did with the snapshots; only a mode that may start without files starts without them.
\<close>

theorem files_survive:
  fixes snapshot snapshot' :: 'f
  assumes "fs_ok system"
  shows "\<exists>loaded. snd (mode_start mode memory_workspace_port snapshot'
        (fst (save_files memory_workspace_port snapshot (Some (into_files system)) w))) = Inr loaded \<and>
      (case loaded of
         Some files \<Rightarrow> mode \<noteq> Never \<and> from_files files = Inr system
       | None \<Rightarrow> mode = Never \<or> mode = Might \<and> fs_is_empty system)"
proof -
  obtain loaded where loaded: "snd (mode_start mode memory_workspace_port snapshot'
        (fst (save_files memory_workspace_port snapshot (Some (into_files system)) w))) = Inr loaded"
    using memory_port_simps(2) [of mode snapshot' "fst (save_files memory_workspace_port snapshot (Some (into_files system)) w)"]
    by (auto simp: is_ok_def split: sum.splits)
  have "map fst (Mapping.ordered_entries (fs_files system)) = [] \<longleftrightarrow> fs_is_empty system"
    using set_ordered_keys [of "fs_files system"] assms
    by (simp add: fs_is_empty_def Mapping.is_empty_def fs_ok_def flip: set_empty del: set_ordered_entries)
  then have "into_files system = [] \<longleftrightarrow> fs_is_empty system"
    by (simp add: into_files_def del: map_fst_ordered_entries)
  then show ?thesis
    using mw.start_after_save [OF _ loaded] loaded from_into_files [OF assms] by (cases mode) auto
qed


definition demo_system :: file_system where
  "demo_system = \<lparr>fs_files = Mapping.update (SandboxPath ''b'') [2] (Mapping.update (SandboxPath ''a/c'') [1] Mapping.empty)\<rparr>"

theorem files_survive_witness:
  "fs_ok demo_system \<and> into_files demo_system =
      [\<lparr>wf_path = ''a/c'', wf_content = [1]\<rparr>, \<lparr>wf_path = ''b'', wf_content = [2]\<rparr>] \<and>
    (\<exists>loaded. snd (mode_start Might memory_workspace_port (0::nat)
        (fst (save_files memory_workspace_port (1::nat) (Some (into_files demo_system)) (memory_workspace_new [])))) = Inr loaded)"
proof -
  have ok: "fs_ok demo_system"
    by (simp add: fs_ok_def demo_system_def) code_simp
  moreover have "into_files demo_system =
      [\<lparr>wf_path = ''a/c'', wf_content = [1]\<rparr>, \<lparr>wf_path = ''b'', wf_content = [2]\<rparr>]"
    by code_simp
  ultimately show ?thesis
    using files_survive [OF ok, where mode = Might and snapshot = "1::nat" and snapshot' = "0::nat"
        and w = "memory_workspace_new []"] by blast
qed

text \<open>
  \<open>from_files\<close> takes a list exactly when every path is accepted and no two name the same place, and
  then every place holds the content of its own file: a read of any spelling of a path gives it.
\<close>

theorem from_files_reads:
  "((\<exists>system. from_files files = Inr system) \<longleftrightarrow>
      (\<exists>ps. map (sandbox_path_new \<circ> wf_path) files = map Inr ps \<and> distinct ps)) \<and>
    (from_files files = Inr system \<longrightarrow>
      (\<forall>f \<in> set files. \<forall>path. sandbox_path_new path = sandbox_path_new (wf_path f) \<longrightarrow>
        fs_read system path = Inr (Some (wf_content f))) \<and>
      (\<forall>path p. sandbox_path_new path = Inr p \<longrightarrow> Inr p \<notin> (sandbox_path_new \<circ> wf_path) ` set files \<longrightarrow>
        fs_read system path = Inr None))"
proof (intro conjI impI)
  have reads: "reads_as files ps \<longleftrightarrow> map (sandbox_path_new \<circ> wf_path) files = map Inr ps \<and> distinct ps" for ps
    unfolding reads_as_def list_all2_eq [of "map _ _"] list_all2_map1 list_all2_map2 by simp
  show "(\<exists>system. from_files files = Inr system) \<longleftrightarrow>
      (\<exists>ps. map (sandbox_path_new \<circ> wf_path) files = map Inr ps \<and> distinct ps)"
  proof
    assume "\<exists>ps. map (sandbox_path_new \<circ> wf_path) files = map Inr ps \<and> distinct ps"
    then obtain ps where "reads_as files ps"
      using reads by blast
    then have "from_files files = Inr \<lparr>fs_files = Mapping.of_alist (zip ps (map wf_content files))\<rparr>"
      by (auto simp: from_files_Inr_iff fun_eq_iff lookup_of_alist)
    then show "\<exists>system. from_files files = Inr system" ..
  qed (use from_files_Inr_iff reads in blast)
  assume "from_files files = Inr system"
  then obtain ps where ps: "reads_as files ps"
    "Mapping.lookup (fs_files system) = map_of (zip ps (map wf_content files))"
    by (auto simp: from_files_Inr_iff)
  have len: "length ps = length files" and new: "\<forall>i < length files. sandbox_path_new (wf_path (files ! i)) = Inr (ps ! i)"
    using ps(1) by (auto simp: reads_as_def list_all2_conv_all_nth)
  show "\<forall>f \<in> set files. \<forall>path. sandbox_path_new path = sandbox_path_new (wf_path f) \<longrightarrow>
      fs_read system path = Inr (Some (wf_content f))"
  proof (intro ballI allI impI)
    fix f path
    assume f: "f \<in> set files" and same: "sandbox_path_new path = sandbox_path_new (wf_path f)"
    then obtain i where i: "i < length files" "f = files ! i"
      by (auto simp: in_set_conv_nth)
    then have "(ps ! i, wf_content f) \<in> set (zip ps (map wf_content files))"
      using len by (auto simp: in_set_zip)
    then have "map_of (zip ps (map wf_content files)) (ps ! i) = Some (wf_content f)"
      using len ps(1) by (simp add: reads_as_def)
    then show "fs_read system path = Inr (Some (wf_content f))"
      using same i new ps(2) by (simp add: fs_read_def)
  qed
  show "\<forall>path p. sandbox_path_new path = Inr p \<longrightarrow> Inr p \<notin> (sandbox_path_new \<circ> wf_path) ` set files \<longrightarrow>
      fs_read system path = Inr None"
  proof (intro allI impI)
    fix path p
    assume p: "sandbox_path_new path = Inr p" "Inr p \<notin> (sandbox_path_new \<circ> wf_path) ` set files"
    then have "p \<notin> set ps"
      using new len by (force simp: in_set_conv_nth)
    then have "map_of (zip ps (map wf_content files)) p = None"
      using len by (simp add: map_of_zip_is_None)
    then show "fs_read system path = Inr None"
      using p(1) ps(2) by (simp add: fs_read_def)
  qed
qed

theorem from_files_reads_witness:
  "fs_read demo_system ''a//c'' = Inr (Some [1]) \<and> fs_read demo_system ''c'' = Inr None"
proof -
  let ?files = "[\<lparr>wf_path = ''a/c'', wf_content = [1]\<rparr>, \<lparr>wf_path = ''./b'', wf_content = [2]\<rparr>]"
  have "from_files ?files = Inr demo_system"
    by code_simp
  moreover have "sandbox_path_new ''a//c'' = sandbox_path_new ''a/c''"
    "sandbox_path_new ''c'' = Inr (SandboxPath ''c'')"
    "Inr (SandboxPath ''c'') \<notin> (sandbox_path_new \<circ> wf_path) ` set ?files"
    by code_simp+
  ultimately show ?thesis
    using from_files_reads [of ?files demo_system] by (simp del: split_on.simps)
qed

text \<open>
  A file system holds places only: every operation keeps it so, a write is seen by every read of the
  place and by no other read, and a removal says whether there was a file and leaves none.
\<close>

theorem file_system_laws:
  assumes "fs_ok system" "fs_write system path content = Inr written" "fs_remove system path = Inr (removed, b)"
    "sandbox_path_new other = Inr p"
  shows "fs_ok written \<and> fs_ok removed \<and>
    fs_read written other = (if Inr p = sandbox_path_new path then Inr (Some content) else fs_read system other) \<and>
    fs_read removed other = (if Inr p = sandbox_path_new path then Inr None else fs_read system other) \<and>
    (b \<longleftrightarrow> fs_read system path \<noteq> Inr None)"
proof -
  obtain q where q: "sandbox_path_new path = Inr q"
    using assms(2) by (auto simp: fs_write_def bind_sum_Inr_iff)
  have w: "written = system\<lparr>fs_files := Mapping.update q content (fs_files system)\<rparr>"
    and r: "removed = system\<lparr>fs_files := Mapping.delete q (fs_files system)\<rparr>"
    and removed: "b \<longleftrightarrow> Mapping.lookup (fs_files system) q \<noteq> None"
    using assms(2, 3) q by (auto simp: fs_write_def fs_remove_def)
  show ?thesis
    using fs_ok_write [OF assms(1, 2)] fs_ok_remove [OF assms(1, 3)] q w r removed assms(4)
    by (cases "p = q") (simp_all add: fs_read_def lookup_update')
qed

theorem file_system_laws_witness:
  "fs_read demo_system ''b'' = Inr (Some [2]) \<and>
    (\<exists>written. fs_write demo_system ''./b'' [3] = Inr written \<and> fs_read written ''b'' = Inr (Some [3]))"
proof -
  have ok: "fs_ok demo_system"
    by (simp add: fs_ok_def demo_system_def) code_simp
  let ?written = "demo_system\<lparr>fs_files := Mapping.update (SandboxPath ''b'') [3] (fs_files demo_system)\<rparr>"
  let ?removed = "demo_system\<lparr>fs_files := Mapping.delete (SandboxPath ''b'') (fs_files demo_system)\<rparr>"
  have wrote: "fs_write demo_system ''./b'' [3] = Inr ?written"
    and remove: "fs_remove demo_system ''./b'' = Inr (?removed, True)"
    and p: "sandbox_path_new ''b'' = Inr (SandboxPath ''b'')"
    and same: "sandbox_path_new ''./b'' = Inr (SandboxPath ''b'')"
    and "fs_read demo_system ''b'' = Inr (Some [2])"
    by code_simp+
  then show ?thesis
    using file_system_laws [OF ok wrote remove p] by simp
qed

end
