(* ===== verification/Agentic_Limits.thy ===== *)
theory Agentic_Limits
  imports Agentic_Boundary Agentic_Workspace "HOL-Library.Word"
begin

text \<open>
  The limits of an agent (\<open>limits.rs\<close>, \<open>warning.rs\<close>), its lists of model clients (\<open>client.rs\<close>), the
  faults (\<open>fault.rs\<close>) and the slot that drives a model call down a list (\<open>slot.rs\<close>) of
  \<open>br-agentic-nodes\<close>. A \<open>u32\<close> is a word; a duration is its nanoseconds.
\<close>

section \<open>Limits\<close>

type_synonym u32 = "32 word"
type_synonym duration = nat

datatype invalid_limit = InvalidSteps | InvalidRounds | InvalidRefusals | InvalidTimeout

datatype step_limit = StepLimit (step_limit_get: u32)
datatype round_limit = RoundLimit (round_limit_get: u32)
datatype refusal_limit = RefusalLimit (refusal_limit_get: u32)

definition step_limit_new :: "u32 \<Rightarrow> invalid_limit + step_limit" where
  "step_limit_new limit = (if limit = 0 then Inl InvalidSteps else Inr (StepLimit limit))"

definition round_limit_new :: "u32 \<Rightarrow> invalid_limit + round_limit" where
  "round_limit_new limit = (if limit = 0 then Inl InvalidRounds else Inr (RoundLimit limit))"

definition refusal_limit_new :: "u32 \<Rightarrow> invalid_limit + refusal_limit" where
  "refusal_limit_new limit = (if limit = 0 then Inl InvalidRefusals else Inr (RefusalLimit limit))"

record timeouts =
  to_model_call :: duration
  to_tool_call :: duration

definition timeouts_new :: "duration \<Rightarrow> duration \<Rightarrow> invalid_limit + timeouts" where
  "timeouts_new model_call tool_call = (if model_call = 0 \<or> tool_call = 0 then Inl InvalidTimeout
     else Inr \<lparr>to_model_call = model_call, to_tool_call = tool_call\<rparr>)"

text \<open>\<open>saturating_add(1)\<close> and \<open>saturating_sub\<close> of a \<open>u32\<close>.\<close>

definition sat_inc :: "u32 \<Rightarrow> u32" where
  "sat_inc w = (if w = - 1 then - 1 else w + 1)"

definition sat_sub :: "u32 \<Rightarrow> u32 \<Rightarrow> u32" where
  "sat_sub a b = (if b \<le> a then a - b else 0)"

record steps =
  st_made :: u32
  st_limit :: step_limit

definition steps_new :: "step_limit \<Rightarrow> steps" where
  "steps_new limit = \<lparr>st_made = 0, st_limit = limit\<rparr>"

definition count_step :: "steps \<Rightarrow> steps" where
  "count_step st = st\<lparr>st_made := sat_inc (st_made st)\<rparr>"

definition remaining :: "steps \<Rightarrow> u32" where
  "remaining st = sat_sub (step_limit_get (st_limit st)) (st_made st)"

lemma unat_max: "unat (- 1 :: u32) = 2 ^ 32 - 1"
  by (simp add: unsigned_minus_1_eq_mask mask_eq_exp_minus_1)

lemma unat_u32: "unat (w :: u32) \<le> 2 ^ 32 - 1"
  using unsigned_less [of w, where 'a = nat] by simp

lemma unat_sat_inc: "unat (sat_inc w) = min (unat w + 1) (2 ^ 32 - 1)"
proof (cases "w = - 1")
  case True
  then show ?thesis by (simp add: sat_inc_def unat_max)
next
  case False
  then have "unat w \<noteq> 2 ^ 32 - 1"
    using unat_max by (metis word_unat_eq_iff)
  then have "unat w + 1 < 2 ^ 32"
    using unat_u32 [of w] by simp
  then show ?thesis
    using False by (simp add: sat_inc_def unat_word_ariths)
qed

lemma unat_sat_sub: "unat (sat_sub a b) = unat a - unat b"
  by (auto simp: sat_sub_def word_le_nat_alt unat_sub)

lemma remaining_eq: "unat (remaining st) = unat (step_limit_get (st_limit st)) - unat (st_made st)"
  by (simp add: remaining_def unat_sat_sub)

text \<open>One step is one less of what remains, down to none.\<close>

lemma remaining_count [simp]: "unat (remaining (count_step st)) = unat (remaining st) - 1"
  using unat_u32 [of "step_limit_get (st_limit st)"] by (simp add: remaining_eq count_step_def unat_sat_inc)

section \<open>Warnings\<close>

definition WARNING_WINDOW :: u32 where "WARNING_WINDOW = 10"

definition warning_text :: "u32 \<Rightarrow> string option" where
  "warning_text left = (if left = 0 then None
     else if left = 1 then Some ''You have one step left. Give your final answer now and ask for no tool call.''
     else if left \<le> WARNING_WINDOW then Some (''You have '' @ show_nat (unat left) @
       '' steps left to finish. Finish your work and give your final answer before the steps run out.'')
     else None)"

section \<open>Model clients\<close>

datatype thinking_expectation = Expected | NotExpected

record 'm model_client =
  mc_client :: 'm
  mc_expectation :: thinking_expectation

definition should_have_thought :: "'m model_client \<Rightarrow> bool" where
  "should_have_thought client \<longleftrightarrow> mc_expectation client = Expected"

datatype 'm fallback_list = FallbackList (fl_clients: "'m model_client list")

definition fallback_list_new :: "'m model_client list \<Rightarrow> unit + 'm fallback_list" where
  "fallback_list_new clients = (if clients = [] then Inl () else Inr (FallbackList clients))"

definition fallback_of :: "'m model_client \<Rightarrow> 'm fallback_list" where
  "fallback_of client = FallbackList [client]"

definition fallback_len :: "'m fallback_list \<Rightarrow> nat" where
  "fallback_len l = length (fl_clients l)"

definition fallback_get :: "'m fallback_list \<Rightarrow> nat \<Rightarrow> 'm model_client option" where
  "fallback_get l i = (if i < length (fl_clients l) then Some (fl_clients l ! i) else None)"

datatype 'm ladder = Ladder (ld_entries: "'m fallback_list list")

definition ladder_new :: "'m fallback_list list \<Rightarrow> unit + 'm ladder" where
  "ladder_new rungs = (if rungs = [] then Inl () else Inr (Ladder rungs))"

text \<open>Indexing an empty list panics: \<open>None\<close>. \<open>u32\<close> fits in \<open>usize\<close>.\<close>

definition ladder_entry :: "'m ladder \<Rightarrow> u32 \<Rightarrow> 'm fallback_list option" where
  "ladder_entry l position = (let last = length (ld_entries l) - 1; index = min (unat position) last in
     if index < length (ld_entries l) then Some (ld_entries l ! index) else None)"

section \<open>Faults\<close>

datatype call_failure = ClientFailed string | CallTimeout duration | NoThinking | NoStructuredReply | UnusableAnswer string

datatype fault =
  FaultPort port_error | FaultSession session_error | FaultBoundary boundary_error | FaultTool cause
| FaultDuplicateTool string | FaultModel call_failure | FaultValue string | FaultSandbox string
| CriticAtStepLimit string | CriticAtRoundLimit string | ProgrammaticRefusal string | BlankExplicitReason
| FaultPanic string

datatype stop = StopCancelled | StopFault fault

datatype attempt_error = AttemptFailed call_failure | AttemptFatal fault

section \<open>The slot of a model call\<close>

record 'm slot =
  sl_list :: "'m fallback_list"
  sl_settled :: "nat option"

definition slot_new :: "'m fallback_list \<Rightarrow> 'm slot" where
  "slot_new l = \<lparr>sl_list = l, sl_settled = None\<rparr>"

definition is_settled :: "'m slot \<Rightarrow> bool" where
  "is_settled slot \<longleftrightarrow> sl_settled slot \<noteq> None"

definition candidate :: "'m slot \<Rightarrow> nat \<Rightarrow> (nat \<times> 'm model_client) option" where
  "candidate slot tried = (case (case sl_settled slot of
       Some index \<Rightarrow> if tried = 0 then Some index else None
     | None \<Rightarrow> Some tried) of
       None \<Rightarrow> None
     | Some index \<Rightarrow> map_option (Pair index) (fallback_get (sl_list slot) index))"

definition may_switch :: "'m slot \<Rightarrow> nat \<Rightarrow> bool" where
  "may_switch slot tried \<longleftrightarrow> sl_settled slot = None \<and> tried + 1 < fallback_len (sl_list slot)"

text \<open>
  The loop of \<open>drive\<close>, from \<open>tried\<close>: an attempt works on a state of its own. The slot changes when an
  attempt succeeds.
\<close>

function drive_from ::
  "('m model_client \<Rightarrow> 'w \<Rightarrow> 'w \<times> (attempt_error + 'o)) \<Rightarrow> 'm slot \<Rightarrow> nat \<Rightarrow> 'w \<Rightarrow>
     ('m slot \<times> 'w) \<times> (fault + 'o)" where
  "drive_from attempt slot tried w = (case candidate slot tried of
     None \<Rightarrow> ((slot, w), Inl (FaultValue ''no client left for the model call''))
   | Some (index, client) \<Rightarrow> (case attempt client w of
       (w', Inr out) \<Rightarrow> ((slot\<lparr>sl_settled := Some index\<rparr>, w'), Inr out)
     | (w', Inl (AttemptFatal fault)) \<Rightarrow> ((slot, w'), Inl fault)
     | (w', Inl (AttemptFailed failure)) \<Rightarrow>
         if \<not> may_switch slot tried then ((slot, w'), Inl (FaultModel failure))
         else drive_from attempt slot (tried + 1) w'))"
  by pat_completeness auto
termination
  by (relation "measure (\<lambda>(attempt, slot, tried, w). fallback_len (sl_list slot) - tried)")
    (auto simp: may_switch_def)

declare drive_from.simps [simp del]

definition drive ::
  "('m model_client \<Rightarrow> 'w \<Rightarrow> 'w \<times> (attempt_error + 'o)) \<Rightarrow> 'm slot \<Rightarrow> 'w \<Rightarrow> ('m slot \<times> 'w) \<times> (fault + 'o)" where
  "drive attempt slot w = drive_from attempt slot 0 w"


section \<open>The order of the attempts\<close>

text \<open>The world after every client of a list has failed, in order; none when one of them did not fail.\<close>

fun all_failed ::
  "('m model_client \<Rightarrow> 'w \<Rightarrow> 'w \<times> (attempt_error + 'o)) \<Rightarrow> 'm model_client list \<Rightarrow> 'w \<Rightarrow> 'w option" where
  "all_failed attempt [] w = Some w"
| "all_failed attempt (c # cs) w = (case attempt c w of
     (w', Inl (AttemptFailed _)) \<Rightarrow> all_failed attempt cs w'
   | _ \<Rightarrow> None)"

definition switches :: "attempt_error + 'o \<Rightarrow> bool" where
  "switches r = (case r of Inl (AttemptFailed _) \<Rightarrow> True | _ \<Rightarrow> False)"

definition drive_answer :: "attempt_error + 'o \<Rightarrow> fault + 'o" where
  "drive_answer r = (case r of
     Inr out \<Rightarrow> Inr out
   | Inl (AttemptFatal fault) \<Rightarrow> Inl fault
   | Inl (AttemptFailed failure) \<Rightarrow> Inl (FaultModel failure))"

lemma is_ok_drive_answer [simp]: "is_ok (drive_answer r) \<longleftrightarrow> is_ok r"
  by (auto simp: drive_answer_def split: sum.split attempt_error.split)

lemma candidate_unsettled:
  "sl_settled slot = None \<Longrightarrow> tried < fallback_len (sl_list slot) \<Longrightarrow>
     candidate slot tried = Some (tried, fl_clients (sl_list slot) ! tried)"
  by (simp add: candidate_def fallback_get_def fallback_len_def)

lemma drive_from_stop:
  assumes "candidate slot tried = Some (index, client)" "\<not> (switches (snd (attempt client w)) \<and> may_switch slot tried)"
  shows "drive_from attempt slot tried w =
    ((if is_ok (snd (attempt client w)) then slot\<lparr>sl_settled := Some index\<rparr> else slot, fst (attempt client w)),
     drive_answer (snd (attempt client w)))"
  using assms by (subst drive_from.simps)
    (auto simp: switches_def drive_answer_def split: prod.splits sum.splits attempt_error.splits)

lemma drive_from_switch:
  assumes "candidate slot tried = Some (index, client)" "switches (snd (attempt client w))" "may_switch slot tried"
  shows "drive_from attempt slot tried w = drive_from attempt slot (tried + 1) (fst (attempt client w))"
  using assms by (subst drive_from.simps) (auto simp: switches_def split: prod.splits sum.splits attempt_error.splits)

lemma all_failed_Cons:
  "all_failed attempt (c # cs) w = Some w1 \<longleftrightarrow>
     switches (snd (attempt c w)) \<and> all_failed attempt cs (fst (attempt c w)) = Some w1"
  by (auto simp: switches_def split: prod.splits sum.splits attempt_error.splits)

lemma drive_from_in_order:
  assumes "fl_clients (sl_list slot) = tried_before @ before @ client # rest" "sl_settled slot = None"
    "all_failed attempt before w = Some w1" "rest = [] \<or> \<not> switches (snd (attempt client w1))"
  shows "drive_from attempt slot (length tried_before) w =
    ((if is_ok (snd (attempt client w1)) then slot\<lparr>sl_settled := Some (length (tried_before @ before))\<rparr> else slot,
      fst (attempt client w1)), drive_answer (snd (attempt client w1)))"
  using assms
proof (induction before arbitrary: tried_before w)
  case Nil
  have c: "candidate slot (length tried_before) = Some (length tried_before, client)"
    using Nil by (simp add: candidate_unsettled fallback_len_def)
  have "\<not> (switches (snd (attempt client w)) \<and> may_switch slot (length tried_before))"
    using Nil by (auto simp: may_switch_def fallback_len_def)
  then show ?case
    using drive_from_stop [where attempt = attempt, OF c] Nil by simp
next
  case (Cons b before)
  have c: "candidate slot (length tried_before) = Some (length tried_before, b)"
    using Cons.prems by (simp add: candidate_unsettled fallback_len_def)
  have m: "may_switch slot (length tried_before)"
    using Cons.prems by (simp add: may_switch_def fallback_len_def)
  have "switches (snd (attempt b w))" "all_failed attempt before (fst (attempt b w)) = Some w1"
    using Cons.prems(3) unfolding all_failed_Cons by auto
  then show ?case
    using drive_from_switch [where attempt = attempt, OF c _ m] Cons.IH [of "tried_before @ [b]" "fst (attempt b w)"] Cons.prems
    by simp
qed

text \<open>
  A model call that is not settled asks the clients in their order: it skips exactly the clients whose
  attempt failed, ends with the first attempt that gives a response or a fatal fault, or with the failure
  of the last one, and settles on the client that gave the response.
\<close>

theorem drive_in_order:
  assumes "fl_clients l = before @ client # rest" "all_failed attempt before w = Some w1"
    "rest = [] \<or> \<not> switches (snd (attempt client w1))"
  shows "drive attempt (slot_new l) w =
    ((\<lparr>sl_list = l, sl_settled = (if is_ok (snd (attempt client w1)) then Some (length before) else None)\<rparr>,
      fst (attempt client w1)), drive_answer (snd (attempt client w1)))"
  using drive_from_in_order [of "slot_new l" "[]" before client rest attempt w w1] assms
  by (simp add: drive_def slot_new_def)

definition demo_attempt :: "nat model_client \<Rightarrow> nat list \<Rightarrow> nat list \<times> (attempt_error + nat)" where
  "demo_attempt client w = (w @ [mc_client client],
     if mc_client client < 3 then Inl (AttemptFailed NoThinking) else Inr (mc_client client))"

definition demo_list :: "nat fallback_list" where
  "demo_list = FallbackList (map (\<lambda>i. \<lparr>mc_client = i, mc_expectation = Expected\<rparr>) [1, 2, 5, 7])"

theorem drive_in_order_witness:
  "drive demo_attempt (slot_new demo_list) [] = ((\<lparr>sl_list = demo_list, sl_settled = Some 2\<rparr>, [1, 2, 5]), Inr 5)"
proof -
  have "fl_clients demo_list = [\<lparr>mc_client = 1, mc_expectation = Expected\<rparr>, \<lparr>mc_client = 2, mc_expectation = Expected\<rparr>] @
      \<lparr>mc_client = 5, mc_expectation = Expected\<rparr> # [\<lparr>mc_client = 7, mc_expectation = Expected\<rparr>]"
    "all_failed demo_attempt [\<lparr>mc_client = 1, mc_expectation = Expected\<rparr>, \<lparr>mc_client = 2, mc_expectation = Expected\<rparr>] [] = Some [1, 2]"
    by code_simp+
  from drive_in_order [OF this] show ?thesis
    by (simp add: demo_attempt_def switches_def drive_answer_def)
qed

text \<open>
  A settled slot is settled for good: the call asks its client once, its failure is the failure of the
  call, and no other client is ever asked.
\<close>

theorem drive_settled:
  assumes "sl_settled slot = Some i" "i < fallback_len (sl_list slot)"
  shows "drive attempt slot w = (case attempt (fl_clients (sl_list slot) ! i) w of (w', r) \<Rightarrow> ((slot, w'), drive_answer r))"
proof -
  have c: "candidate slot 0 = Some (i, fl_clients (sl_list slot) ! i)"
    using assms by (simp add: candidate_def fallback_get_def fallback_len_def)
  have "slot\<lparr>sl_settled := Some i\<rparr> = slot"
    using assms(1) by (cases slot) simp
  then show ?thesis
    using drive_from_stop [where attempt = attempt, OF c] assms(1)
    by (simp add: drive_def may_switch_def case_prod_unfold)
qed

theorem drive_settled_witness:
  "drive demo_attempt \<lparr>sl_list = demo_list, sl_settled = Some 1\<rparr> [] =
    ((\<lparr>sl_list = demo_list, sl_settled = Some 1\<rparr>, [2]), Inl (FaultModel NoThinking))"
  using drive_settled [of "\<lparr>sl_list = demo_list, sl_settled = Some 1\<rparr>" 1 demo_attempt "[]"]
  by (simp add: demo_list_def fallback_len_def demo_attempt_def drive_answer_def)

text \<open>What a slot of a node can be: its list holds a client, and it is settled on one of them.\<close>

definition slot_ok :: "'m slot \<Rightarrow> bool" where
  "slot_ok slot \<longleftrightarrow> fl_clients (sl_list slot) \<noteq> [] \<and>
     (case sl_settled slot of Some i \<Rightarrow> i < fallback_len (sl_list slot) | None \<Rightarrow> True)"

lemma drive_from_ok:
  assumes "slot_ok slot" "sl_settled slot = None \<longrightarrow> tried < fallback_len (sl_list slot)"
    "sl_settled slot \<noteq> None \<longrightarrow> tried = 0"
  shows "slot_ok (fst (fst (drive_from attempt slot tried w))) \<and>
    sl_list (fst (fst (drive_from attempt slot tried w))) = sl_list slot \<and>
    (is_ok (snd (drive_from attempt slot tried w)) \<longrightarrow> is_settled (fst (fst (drive_from attempt slot tried w)))) \<and>
    (snd (drive_from attempt slot tried w) = Inl f \<longrightarrow>
      (\<exists>client w. client \<in> set (fl_clients (sl_list slot)) \<and> drive_answer (snd (attempt client w)) = Inl f))"
  using assms
proof (induction attempt slot tried w rule: drive_from.induct)
  case (1 attempt slot tried w)
  obtain index client where c: "candidate slot tried = Some (index, client)" "index < fallback_len (sl_list slot)"
    "client \<in> set (fl_clients (sl_list slot))"
    using 1(2-4) by (auto simp: candidate_def fallback_get_def fallback_len_def slot_ok_def split: option.splits)
  show ?case
  proof (cases "switches (snd (attempt client w)) \<and> may_switch slot tried")
    case True
    obtain w' e where a: "attempt client w = (w', Inl (AttemptFailed e))"
      using True by (cases "attempt client w") (auto simp: switches_def split: sum.splits attempt_error.splits)
    show ?thesis
      using drive_from_switch [where attempt = attempt, OF c(1)] True
        1(1) [OF c(1) refl a [symmetric] refl refl] 1(2-4)
      by (auto simp: a may_switch_def)
  next
    case False
    then show ?thesis
      using drive_from_stop [where attempt = attempt, OF c(1) False] 1(2) c
      by (cases "is_ok (snd (attempt client w))") (auto simp: slot_ok_def is_settled_def)
  qed
qed

end
