(* ===== verification/Agentic_Tools.thy ===== *)
theory Agentic_Tools
  imports Agentic_Limits
begin

text \<open>
  The tools of an instance (\<open>tool.rs\<close>), its access to the web (\<open>web.rs\<close>) and the agents of the
  in-memory port (\<open>memory/simple.rs\<close>) of \<open>br-agentic-contract\<close>. The specification of a tool, the
  texts, images and structured values of a result and the result itself are of other crates: a
  specification is seen through its name, the blocks through the record \<open>block_ops\<close>.
\<close>

section \<open>Tools\<close>

type_synonym block_id = uuid

text \<open>\<open>'x\<close> a checked text, \<open>'i\<close> an image, \<open>'v\<close> a structured value.\<close>

datatype ('x, 'i, 'v) tool_block = ToolText 'x | ToolImage 'i | ToolStructured 'v

record ('x, 'i, 'v, 'b, 'r) block_ops =
  bo_plain_text :: "string \<Rightarrow> string + 'x"
  bo_text :: "block_id \<Rightarrow> 'x \<Rightarrow> string + 'b"
  bo_image :: "block_id \<Rightarrow> 'i \<Rightarrow> 'b"
  bo_structured :: "block_id \<Rightarrow> 'v \<Rightarrow> string + 'b"
  bo_result :: "block_id \<Rightarrow> block_id \<Rightarrow> string \<Rightarrow> bool \<Rightarrow> 'b list \<Rightarrow> string + 'r"

definition tool_block_text :: "('x, 'i, 'v, 'b, 'r) block_ops \<Rightarrow> string \<Rightarrow> string + ('x, 'i, 'v) tool_block" where
  "tool_block_text B t = bind_sum (bo_plain_text B t) (\<lambda>x. Inr (ToolText x))"

definition with_id :: "('x, 'i, 'v, 'b, 'r) block_ops \<Rightarrow> ('x, 'i, 'v) tool_block \<Rightarrow> block_id \<Rightarrow> string + 'b" where
  "with_id B block i = (case block of
     ToolText x \<Rightarrow> bo_text B i x
   | ToolImage source \<Rightarrow> Inr (bo_image B i source)
   | ToolStructured v \<Rightarrow> bo_structured B i v)"

record ('x, 'i, 'v) tool_content =
  tc_content :: "('x, 'i, 'v) tool_block list"
  tc_is_error :: bool

definition error_text :: "('x, 'i, 'v, 'b, 'r) block_ops \<Rightarrow> string \<Rightarrow> string + ('x, 'i, 'v) tool_content" where
  "error_text B t = bind_sum (tool_block_text B t) (\<lambda>block. Inr \<lparr>tc_content = [block], tc_is_error = True\<rparr>)"

text \<open>The blocks with their ids, up to the first refused one; \<open>ids\<close> is the closure, with its state.\<close>

fun blocks_with_ids ::
  "('x, 'i, 'v, 'b, 'r) block_ops \<Rightarrow> ('g \<Rightarrow> 'g \<times> block_id) \<Rightarrow> ('x, 'i, 'v) tool_block list \<Rightarrow> 'g \<Rightarrow> 'g \<times> (string + 'b list)" where
  "blocks_with_ids B ids [] g = (g, Inr [])"
| "blocks_with_ids B ids (block # rest) g = (case ids g of (g, i) \<Rightarrow>
     (case with_id B block i of
        Inl e \<Rightarrow> (g, Inl e)
      | Inr b \<Rightarrow> (case blocks_with_ids B ids rest g of
          (g, Inl e) \<Rightarrow> (g, Inl e)
        | (g, Inr bs) \<Rightarrow> (g, Inr (b # bs)))))"

definition into_result ::
  "('x, 'i, 'v, 'b, 'r) block_ops \<Rightarrow> ('x, 'i, 'v) tool_content \<Rightarrow> block_id \<Rightarrow> block_id \<Rightarrow> string \<Rightarrow>
     ('g \<Rightarrow> 'g \<times> block_id) \<Rightarrow> 'g \<Rightarrow> 'g \<times> (string + 'r)" where
  "into_result B content i call name ids g = (case blocks_with_ids B ids (tc_content content) g of
     (g, Inl e) \<Rightarrow> (g, Inl e)
   | (g, Inr bs) \<Rightarrow> (g, bo_result B i call name (tc_is_error content) bs))"

record ('spec, 'code) tool =
  tl_spec :: 'spec
  tl_code :: 'code

definition tool_name :: "('spec \<Rightarrow> string) \<Rightarrow> ('spec, 'code) tool \<Rightarrow> string" where
  "tool_name spec_name t = spec_name (tl_spec t)"

datatype ('spec, 'code) tool_set = ToolSet (ts_tools: "('spec, 'code) tool list")

definition see_tool :: "('spec \<Rightarrow> string) \<Rightarrow> string set \<Rightarrow> ('spec, 'code) tool \<Rightarrow> string + string set" where
  "see_tool spec_name seen t = (if tool_name spec_name t \<in> seen then Inl (tool_name spec_name t)
     else Inr (insert (tool_name spec_name t) seen))"

text \<open>The error is the name of the duplicate tool.\<close>

definition tool_set_new ::
  "('spec \<Rightarrow> string) \<Rightarrow> ('spec, 'code) tool list \<Rightarrow> ('spec, 'code) tool list \<Rightarrow> string + ('spec, 'code) tool_set" where
  "tool_set_new spec_name tools mail_tools = (let every = tools @ mail_tools in
     bind_sum (for_each (see_tool spec_name) {} every) (\<lambda>_. Inr (ToolSet every)))"

definition find_tool :: "('spec \<Rightarrow> string) \<Rightarrow> ('spec, 'code) tool_set \<Rightarrow> string \<Rightarrow> ('spec, 'code) tool option" where
  "find_tool spec_name ts name = find (\<lambda>t. tool_name spec_name t = name) (ts_tools ts)"

definition specs :: "('spec, 'code) tool_set \<Rightarrow> 'spec list" where
  "specs ts = map tl_spec (ts_tools ts)"

section \<open>Sites of the web\<close>

text \<open>\<open>str::trim\<close> empties a text of white space: the code points of \<open>White_Space\<close>, in UTF-8.\<close>

definition white_space :: "string list" where
  "white_space = [[CHR 0x09], [CHR 0x0A], [CHR 0x0B], [CHR 0x0C], [CHR 0x0D], [CHR 0x20], [CHR 0xC2, CHR 0x85], [CHR 0xC2, CHR 0xA0],
     [CHR 0xE1, CHR 0x9A, CHR 0x80]] @
     map (\<lambda>c. [CHR 0xE2, CHR 0x80, c]) [CHR 0x80, CHR 0x81, CHR 0x82, CHR 0x83, CHR 0x84, CHR 0x85, CHR 0x86, CHR 0x87, CHR 0x88,
       CHR 0x89, CHR 0x8A, CHR 0xA8, CHR 0xA9, CHR 0xAF] @
     [[CHR 0xE2, CHR 0x81, CHR 0x9F], [CHR 0xE3, CHR 0x80, CHR 0x80]]"

fun is_blank :: "string \<Rightarrow> bool" where
  "is_blank [] = True"
| "is_blank (a # s) = ([a] \<in> set white_space \<and> is_blank s \<or>
     a # take 1 s \<in> set white_space \<and> is_blank (drop 1 s) \<or>
     a # take 2 s \<in> set white_space \<and> is_blank (drop 2 s))"

datatype site = Site string

definition site_new :: "string \<Rightarrow> unit + site" where
  "site_new s = (if is_blank s then Inl () else Inr (Site s))"

datatype web_access = WebFull | WebWhitelist "site list" | WebNone

definition reaches_nothing :: "web_access \<Rightarrow> bool" where
  "reaches_nothing w = (case w of WebNone \<Rightarrow> True | WebWhitelist sites \<Rightarrow> sites = [] | WebFull \<Rightarrow> False)"

definition web_sites :: "web_access \<Rightarrow> site list" where
  "web_sites w = (case w of WebWhitelist sites \<Rightarrow> sites | WebFull \<Rightarrow> [] | WebNone \<Rightarrow> [])"

section \<open>The agents of the in-memory port\<close>

text \<open>\<open>fresh\<close> is the new UUID of a call, or why \<open>AgentId\<close> refuses it.\<close>

definition memory_agent ::
  "agent_label \<Rightarrow> string + agent_id \<Rightarrow> (agent_label \<rightharpoonup> agent_id) \<Rightarrow> (agent_label \<rightharpoonup> agent_id) \<times> (port_error + agent_id)" where
  "memory_agent label fresh agents = (case agents label of
     Some agent \<Rightarrow> (agents, Inr agent)
   | None \<Rightarrow> (case fresh of
       Inl e \<Rightarrow> (agents, Inl (port_fault e))
     | Inr agent \<Rightarrow> (agents(label \<mapsto> agent), Inr agent)))"

definition with_agent :: "agent_label \<Rightarrow> agent_id \<Rightarrow> (agent_label \<rightharpoonup> agent_id) \<Rightarrow> (agent_label \<rightharpoonup> agent_id)" where
  "with_agent label agent agents = agents(label \<mapsto> agent)"

section \<open>Lemmas\<close>

lemma see_tools:
  "for_each (see_tool spec_name) seen ts = Inr seen' \<longleftrightarrow>
     distinct (map (tool_name spec_name) ts) \<and> set (map (tool_name spec_name) ts) \<inter> seen = {} \<and>
     seen' = seen \<union> set (map (tool_name spec_name) ts)"
proof -
  have "see_tool spec_name seen t = Inr seen' \<longleftrightarrow>
      True \<and> tool_name spec_name t \<notin> seen \<and> seen' = insert (tool_name spec_name t) seen" for seen t seen'
    by (auto simp: see_tool_def)
  from for_each_uniq [where step = "see_tool spec_name" and ok = "\<lambda>_. True", OF this] show ?thesis
    by (simp add: list_all_iff)
qed

text \<open>The tools of a set have different names, and a name finds its tool.\<close>

lemma tool_set_new_Inr:
  "tool_set_new spec_name tools mail_tools = Inr ts \<longleftrightarrow>
     distinct (map (tool_name spec_name) (tools @ mail_tools)) \<and> ts = ToolSet (tools @ mail_tools)"
  by (auto simp: tool_set_new_def Let_def bind_sum_Inr_iff see_tools)

lemma find_key: "distinct (map f xs) \<Longrightarrow> find (\<lambda>x. f x = k) xs = Some x \<longleftrightarrow> x \<in> set xs \<and> f x = k"
  by (induction xs) auto

lemma find_tool_Some:
  "tool_set_new spec_name tools mail_tools = Inr ts \<Longrightarrow>
     find_tool spec_name ts name = Some t \<longleftrightarrow> t \<in> set (tools @ mail_tools) \<and> tool_name spec_name t = name"
  unfolding tool_set_new_Inr find_tool_def by (auto simp: find_key)

end
