(* ===== verification/Acts.thy ===== *)
theory Acts
  imports Prelude
begin

text \<open>
  Code that passes a state along and may fail: an action takes the state and gives the state after it
  and a \<open>Result\<close>; \<open>bind_act\<close> is the \<open>?\<close> of the code. \<open>moves R m\<close> says that an action only moves the state
  along \<open>R\<close>, whether it fails or not; the rules compose it along the code.
\<close>

type_synonym ('s, 'e, 'r) act = "'s \<Rightarrow> 's \<times> ('e + 'r)"

named_theorems moves_rules \<open>composition of moves\<close>

definition ret_act :: "'r \<Rightarrow> ('s, 'e, 'r) act" where
  "ret_act r s = (s, Inr r)"

definition fail_act :: "'e \<Rightarrow> ('s, 'e, 'r) act" where
  "fail_act e s = (s, Inl e)"

definition bind_act :: "('s, 'e, 'r) act \<Rightarrow> ('r \<Rightarrow> ('s, 'e, 'q) act) \<Rightarrow> ('s, 'e, 'q) act" where
  "bind_act m k s = (case m s of (s', Inl e) \<Rightarrow> (s', Inl e) | (s', Inr r) \<Rightarrow> k r s')"

definition lift_sum :: "('e \<Rightarrow> 'g) \<Rightarrow> 'e + 'r \<Rightarrow> ('s, 'g, 'r) act" where
  "lift_sum f r s = (s, map_inl f r)"

definition get_act :: "('s \<Rightarrow> 'r) \<Rightarrow> ('s, 'e, 'r) act" where
  "get_act f s = (s, Inr (f s))"

definition put_act :: "('s \<Rightarrow> 's) \<Rightarrow> ('s, 'e, unit) act" where
  "put_act f s = (f s, Inr ())"

definition map_fail :: "('e \<Rightarrow> 'g) \<Rightarrow> ('s, 'e, 'r) act \<Rightarrow> ('s, 'g, 'r) act" where
  "map_fail f m s = (fst (m s), map_inl f (snd (m s)))"

text \<open>The \<open>for\<close> loop of an action over a list, and its results.\<close>

fun each_act :: "('x \<Rightarrow> ('s, 'e, 'r) act) \<Rightarrow> 'x list \<Rightarrow> ('s, 'e, 'r list) act" where
  "each_act f [] = ret_act []"
| "each_act f (x # xs) = bind_act (f x) (\<lambda>r. bind_act (each_act f xs) (\<lambda>rs. ret_act (r # rs)))"

lemma act_simps [simp]:
  "ret_act r s = (s, Inr r)" "fail_act e s = (s, Inl e)" "lift_sum f (Inr r) s = (s, Inr r)"
  "lift_sum f (Inl e) s = (s, Inl (f e))" "get_act g s = (s, Inr (g s))" "put_act h s = (h s, Inr ())"
  by (simp_all add: ret_act_def fail_act_def lift_sum_def get_act_def put_act_def)

lemma bind_act_Inr: "snd (m s) = Inr r \<Longrightarrow> bind_act m k s = k r (fst (m s))"
  by (cases "m s") (simp add: bind_act_def)

lemma bind_act_Inl: "snd (m s) = Inl e \<Longrightarrow> bind_act m k s = (fst (m s), Inl e)"
  by (cases "m s") (simp add: bind_act_def)

lemma bind_act_pair_Inr: "m s = (s', Inr r) \<Longrightarrow> bind_act m k s = k r s'"
  by (simp add: bind_act_def)

lemma bind_act_pair_Inl: "m s = (s', Inl e) \<Longrightarrow> bind_act m k s = (s', Inl e)"
  by (simp add: bind_act_def)

lemma bind_ret [simp]: "bind_act (ret_act r) k s = k r s"
  by (simp add: bind_act_def)

lemma bind_fail [simp]: "bind_act (fail_act e) k s = (s, Inl e)"
  by (simp add: bind_act_def)

lemma bind_get [simp]: "bind_act (get_act g) k s = k (g s) s"
  by (simp add: bind_act_def)

lemma bind_put [simp]: "bind_act (put_act h) k s = k () (h s)"
  by (simp add: bind_act_def)

lemma bind_lift [simp]:
  "bind_act (lift_sum f (Inr r)) k s = k r s"
  "bind_act (lift_sum f (Inl e)) k s = (s, Inl (f e))"
  by (simp_all add: bind_act_def)

lemma bind_act_ok: "snd (bind_act m k s) = Inr q \<longleftrightarrow> (\<exists>r. snd (m s) = Inr r \<and> snd (k r (fst (m s))) = Inr q)"
  by (cases "m s"; cases "snd (m s)") (auto simp: bind_act_def)

lemma bind_act_okE:
  assumes "bind_act m k s = (s', Inr q)"
  obtains s1 r where "m s = (s1, Inr r)" "k r s1 = (s', Inr q)"
  using assms by (cases "m s"; cases "snd (m s)") (auto simp: bind_act_def)

lemma snd_map_fail [simp]: "snd (map_fail f m s) = map_inl f (snd (m s))" "fst (map_fail f m s) = fst (m s)"
  by (simp_all add: map_fail_def)

section \<open>What an action may do to the state\<close>

definition moves :: "('s \<Rightarrow> 's \<Rightarrow> bool) \<Rightarrow> ('s, 'e, 'r) act \<Rightarrow> bool" where
  "moves R m \<longleftrightarrow> (\<forall>s. R s (fst (m s)))"

lemma movesD: "moves R m \<Longrightarrow> R s (fst (m s))"
  by (simp add: moves_def)

lemma movesI: "(\<And>s. R s (fst (m s))) \<Longrightarrow> moves R m"
  by (simp add: moves_def)

definition preorder :: "('s \<Rightarrow> 's \<Rightarrow> bool) \<Rightarrow> bool" where
  "preorder R \<longleftrightarrow> (\<forall>s. R s s) \<and> (\<forall>a b c. R a b \<longrightarrow> R b c \<longrightarrow> R a c)"

lemma preorder_refl: "preorder R \<Longrightarrow> R s s"
  by (simp add: preorder_def)

lemma preorder_trans: "preorder R \<Longrightarrow> R a b \<Longrightarrow> R b c \<Longrightarrow> R a c"
  by (auto simp: preorder_def)

lemma moves_bind [moves_rules]:
  assumes "preorder R" "moves R m" "\<And>r. moves R (k r)"
  shows "moves R (bind_act m k)"
proof (rule movesI)
  fix s
  show "R s (fst (bind_act m k s))"
  proof (cases "snd (m s)")
    case (Inl e)
    then show ?thesis using movesD [OF assms(2), of s] by (simp add: bind_act_Inl)
  next
    case (Inr r)
    then show ?thesis
      using preorder_trans [OF assms(1) movesD [OF assms(2)] movesD [OF assms(3)]] by (simp add: bind_act_Inr)
  qed
qed

lemma moves_ret [moves_rules]: "preorder R \<Longrightarrow> moves R (ret_act r)"
  by (simp add: moves_def preorder_refl)

lemma moves_fail [moves_rules]: "preorder R \<Longrightarrow> moves R (fail_act e)"
  by (simp add: moves_def preorder_refl)

lemma moves_lift [moves_rules]: "preorder R \<Longrightarrow> moves R (lift_sum f r)"
  by (simp add: moves_def lift_sum_def preorder_refl)

lemma moves_get [moves_rules]: "preorder R \<Longrightarrow> moves R (get_act g)"
  by (simp add: moves_def preorder_refl)

lemma moves_put: "(\<And>s. R s (h s)) \<Longrightarrow> moves R (put_act h)"
  by (simp add: moves_def)

lemma moves_map_fail [moves_rules]: "moves R m \<Longrightarrow> moves R (map_fail f m)"
  by (simp add: moves_def)

lemma moves_if [moves_rules]: "moves R m \<Longrightarrow> moves R m' \<Longrightarrow> moves R (if b then m else m')"
  by simp

lemma moves_option [moves_rules]:
  "moves R m \<Longrightarrow> (\<And>x. moves R (k x)) \<Longrightarrow> moves R (case v of None \<Rightarrow> m | Some x \<Rightarrow> k x)"
  by (cases v) simp_all

lemma moves_sum [moves_rules]:
  "(\<And>x. moves R (f x)) \<Longrightarrow> (\<And>x. moves R (g x)) \<Longrightarrow> moves R (case v of Inl x \<Rightarrow> f x | Inr x \<Rightarrow> g x)"
  by (cases v) simp_all

lemma moves_each [moves_rules]:
  assumes "preorder R" "\<And>x. moves R (f x)"
  shows "moves R (each_act f xs)"
proof (induction xs)
  case Nil
  show ?case unfolding each_act.simps by (intro moves_rules assms)
next
  case (Cons x xs)
  show ?case unfolding each_act.simps by (intro moves_rules assms Cons.IH)
qed

end
