(* ===== verification/Agentic_Worker.thy ===== *)
theory Agentic_Worker
  imports Agentic_Tools Acts
begin

text \<open>
  The worker of an agent (\<open>worker.rs\<close>, \<open>ids.rs\<close>, \<open>structure.rs\<close>, \<open>thinking.rs\<close>) of
  \<open>br-agentic-nodes\<close>. What other crates give (the projection of a conversation, requests, responses,
  clients, the tasks of tools, the clock of UUIDs) is the record \<open>node_env\<close>; a value the code only
  hands through is of the type \<open>'z\<close>. The state of the thread access is \<open>'s\<close>, of the inbox \<open>'p\<close>, of
  everything else outside \<open>'x\<close>.
\<close>

section \<open>What other crates give\<close>

record 'z tool_call =
  ca_id :: block_id
  ca_name :: string
  ca_arguments :: 'z

datatype response_ending =
  EndsFinished | EndsRefusal | EndsFiltering | EndsOutputExhaustion | EndsProviderContinuation | EndsOther

datatype 'z content_block = BlockThinking | BlockRedactedThinking | BlockStructured 'z | BlockOther

datatype closure_reason =
  ClosedCompleted | ClosedBudgetExhausted "string option" | ClosedCancelled | ClosedFailed string | ClosedInterrupted

record turn_state =
  tu_outstanding :: "block_id list"
  tu_pending :: "block_id list"
  tu_last_ending :: "response_ending option"
  tu_closure :: "closure_reason option"

text \<open>A call of a tool that runs as a task, and how a task of the set ends.\<close>

record ('h, 'z) running_call =
  rn_entry :: entry_id
  rn_call :: block_id
  rn_name :: string
  rn_tool :: "('z, 'z) tool"
  rn_arguments :: 'z
  rn_stream :: 'h

datatype 'z joined = JoinPanic string | JoinElapsed | JoinFault cause | JoinContent "('z, 'z, 'z) tool_content"

text \<open>
  \<open>ev_call\<close> is a client call under its timeout (\<open>None\<close> when it elapsed), \<open>ev_join\<close> gives the place of the
  task that ends next, \<open>ev_poll_read\<close> the items of a background read when it has ended.
\<close>

record ('c, 't, 'ai, 'n, 'e, 'a, 's, 'h, 'p, 'x, 'm, 'z) node_env =
  ev_messages :: "('c, 't, 'ai, 'n, 'e, 'a) messages"
  ev_access :: "('s, 'c, 't, 'n, 'a, 'h) thread_access"
  ev_entries :: "('a, 'e) entry_ops"
  ev_inbox :: "('p, 'a, 'e) inbox_port option"
  ev_fresh :: "'x \<Rightarrow> 'x \<times> (string + uuid)"
  ev_cancelled :: "'x \<Rightarrow> bool"
  ev_project :: "agent_id \<Rightarrow> 'c \<Rightarrow> 'z"
  ev_entry_list :: "'c \<Rightarrow> (entry_id \<times> entry_ref) list"
  ev_notice :: "entry_id \<Rightarrow> string \<Rightarrow> string + 'z"
  ev_push_notice :: "uuid \<Rightarrow> 'z \<Rightarrow> 'z \<Rightarrow> string + 'z"
  ev_request :: "'z option \<Rightarrow> 'z \<Rightarrow> uuid \<Rightarrow> entry_id \<Rightarrow> 'z list \<Rightarrow> 'z option \<Rightarrow> string + 'z"
  ev_call :: "'m \<Rightarrow> 'z \<Rightarrow> 'h \<Rightarrow> duration \<Rightarrow> 's \<times> 'x \<Rightarrow> ('s \<times> 'x) \<times> (string + 'n) option"
  ev_calls :: "'n \<Rightarrow> 'z tool_call list"
  ev_ending :: "'n \<Rightarrow> response_ending"
  ev_blocks :: "'n \<Rightarrow> 'z content_block list"
  ev_response_of :: "'n \<Rightarrow> bool"
  ev_ai_state :: "'ai \<Rightarrow> turn_state"
  ev_ai_entries :: "'ai \<Rightarrow> 'n list"
  ev_closure :: "entry_id \<Rightarrow> closure_reason \<Rightarrow> 'n"
  ev_reason :: "string \<Rightarrow> string + unit"
  ev_spec_name :: "'z \<Rightarrow> string"
  ev_blocks_of :: "('z, 'z, 'z, 'z, 'z) block_ops"
  ev_results :: "entry_id \<Rightarrow> 'z \<Rightarrow> string + 'n"
  ev_show_duration :: "duration \<Rightarrow> string"
  ev_join :: "('h, 'z) running_call list \<Rightarrow> 's \<times> 'x \<Rightarrow> ('s \<times> 'x) \<times> nat \<times> 'z joined"
  ev_poll_read :: "'s \<times> 'p \<times> 'x \<Rightarrow> ('s \<times> 'p \<times> 'x) \<times> ('a, 'e) inbox_item list option"
  ev_mail_entry :: "(agent_id \<times> 'a) list \<Rightarrow> 'a mail_item \<Rightarrow> cause + 'e"
  ev_mail_tools :: "inbox_context \<Rightarrow> 'a \<Rightarrow> 'c \<Rightarrow> fault + ('z, 'z) tool list"

section \<open>Responses\<close>

text \<open>\<open>structured_reply\<close> and the two checks of a response.\<close>

definition structured_reply :: "'z content_block list \<Rightarrow> 'z option" where
  "structured_reply blocks = (case List.map_filter
     (\<lambda>block. case block of BlockStructured z \<Rightarrow> Some z | _ \<Rightarrow> None) blocks of [] \<Rightarrow> None | z # _ \<Rightarrow> Some z)"

definition check_structure_reply :: "'z content_block list \<Rightarrow> call_failure + unit" where
  "check_structure_reply blocks = (if structured_reply blocks = None then Inl NoStructuredReply else Inr ())"

definition holds_thinking :: "'z content_block list \<Rightarrow> bool" where
  "holds_thinking blocks \<longleftrightarrow> list_ex (\<lambda>block. case block of
     BlockThinking \<Rightarrow> True | BlockRedactedThinking \<Rightarrow> True | _ \<Rightarrow> False) blocks"

definition check_thinking :: "'m model_client \<Rightarrow> 'z content_block list \<Rightarrow> call_failure + unit" where
  "check_thinking client blocks =
     (if should_have_thought client \<and> \<not> holds_thinking blocks then Inl NoThinking else Inr ())"

section \<open>The worker\<close>

record counters =
  cn_rounds :: u32
  cn_refusals :: u32

definition counters_default :: counters where
  "counters_default = \<lparr>cn_rounds = 0, cn_refusals = 0\<rparr>"

record ('c, 'e, 'a, 's, 'p, 'x, 'z) worker =
  wk_session :: "'c session"
  wk_store :: 's
  wk_inbox :: 'p
  wk_outside :: 'x
  wk_context :: inbox_context
  wk_queue :: "('a, 'e) queue"
  wk_reading :: bool
  wk_author :: "'a option"
  wk_system :: "'z option"
  wk_shape :: "'z option"
  wk_tools :: "('z, 'z) tool_set"
  wk_files :: "file_system option"
  wk_steps :: steps
  wk_timeouts :: timeouts
  wk_counters :: counters
  wk_agents :: "agent_id list"
  wk_known :: "(agent_id \<times> 'a) list"
  wk_gate :: "entry_id list"

type_synonym ('c, 'e, 'a, 's, 'p, 'x, 'z, 'f, 'r) wact = "(('c, 'e, 'a, 's, 'p, 'x, 'z) worker, 'f, 'r) act"

text \<open>An operation of the session, and a change of the store and the outside.\<close>

definition on_session ::
  "('f \<Rightarrow> 'g) \<Rightarrow> ('c session \<times> 's \<Rightarrow> ('c session \<times> 's) \<times> ('f + 'r)) \<Rightarrow> ('c, 'e, 'a, 's, 'p, 'x, 'z, 'g, 'r) wact" where
  "on_session f op w = (case op (wk_session w, wk_store w) of
     ((S, s), r) \<Rightarrow> (w\<lparr>wk_session := S, wk_store := s\<rparr>, map_inl f r))"

definition on_outside ::
  "('s \<times> 'x \<Rightarrow> ('s \<times> 'x) \<times> 'r) \<Rightarrow> ('c, 'e, 'a, 's, 'p, 'x, 'z, 'f, 'r) wact" where
  "on_outside op w = (case op (wk_store w, wk_outside w) of ((s, x), r) \<Rightarrow> (w\<lparr>wk_store := s, wk_outside := x\<rparr>, Inr r))"

text \<open>A new UUID as an id of an entry, a turn or a block.\<close>

definition new_id :: "('c, 't, 'ai, 'n, 'e, 'a, 's, 'h, 'p, 'x, 'm, 'z) node_env \<Rightarrow> ('c, 'e, 'a, 's, 'p, 'x, 'z, fault, uuid) wact" where
  "new_id E w = (case ev_fresh E (wk_outside w) of (x, r) \<Rightarrow> (w\<lparr>wk_outside := x\<rparr>, map_inl FaultValue r))"

definition worker_open ::
  "('c, 't, 'ai, 'n, 'e, 'a, 's, 'h, 'p, 'x, 'm, 'z) node_env \<Rightarrow> inbox_context \<Rightarrow> step_limit \<Rightarrow> timeouts \<Rightarrow>
     's \<Rightarrow> 'p \<Rightarrow> 'x \<Rightarrow> 's \<times> (fault + ('c, 'e, 'a, 's, 'p, 'x, 'z) worker)" where
  "worker_open E context limit waits s p x = (case session_start (ev_access E) (ic_thread context) s of
     (s, Inl e) \<Rightarrow> (s, Inl (FaultPort e))
   | (s, Inr S) \<Rightarrow> (s, Inr \<lparr>wk_session = S, wk_store = s, wk_inbox = p, wk_outside = x, wk_context = context,
       wk_queue = [], wk_reading = False, wk_author = None, wk_system = None, wk_shape = None, wk_tools = ToolSet [],
       wk_files = None, wk_steps = steps_new limit, wk_timeouts = waits, wk_counters = counters_default,
       wk_agents = [ic_agent context], wk_known = [], wk_gate = []\<rparr>))"

definition worker_with_author :: "'a \<Rightarrow> ('c, 'e, 'a, 's, 'p, 'x, 'z) worker \<Rightarrow> ('c, 'e, 'a, 's, 'p, 'x, 'z) worker" where
  "worker_with_author author w = w\<lparr>wk_known := filter (\<lambda>(agent, _). agent \<noteq> ic_agent (wk_context w)) (wk_known w) @
     [(ic_agent (wk_context w), author)], wk_author := Some author\<rparr>"

definition worker_author :: "('c, 'e, 'a, 's, 'p, 'x, 'z, fault, 'a) wact" where
  "worker_author w = (w, case wk_author w of
     Some author \<Rightarrow> Inr author | None \<Rightarrow> Inl (FaultValue ''the worker has no author name''))"

definition worker_mail_tools ::
  "('c, 't, 'ai, 'n, 'e, 'a, 's, 'h, 'p, 'x, 'm, 'z) node_env \<Rightarrow> ('c, 'e, 'a, 's, 'p, 'x, 'z, fault, ('z, 'z) tool list) wact" where
  "worker_mail_tools E = (case ev_inbox E of
     None \<Rightarrow> ret_act []
   | Some P \<Rightarrow> bind_act worker_author (\<lambda>author. bind_act (get_act (\<lambda>w. w)) (\<lambda>w.
       lift_sum (\<lambda>f. f) (ev_mail_tools E (wk_context w) author (se_conversation (wk_session w))))))"

definition turn_ref :: "uuid \<Rightarrow> ('c, 'e, 'a, 's, 'p, 'x, 'z, fault, 'a ai_turn_ref) wact" where
  "turn_ref turn = bind_act worker_author (\<lambda>author. get_act (\<lambda>w.
     \<lparr>tr_id = turn, tr_agent = ic_agent (wk_context w), tr_author = author\<rparr>))"

definition worker_close_turn ::
  "('c, 't, 'ai, 'n, 'e, 'a, 's, 'h, 'p, 'x, 'm, 'z) node_env \<Rightarrow> 'a ai_turn_ref \<Rightarrow> closure_reason \<Rightarrow>
     ('c, 'e, 'a, 's, 'p, 'x, 'z, fault, unit) wact" where
  "worker_close_turn E turn reason = bind_act (new_id E) (\<lambda>entry.
     on_session FaultSession (close_turn (ev_messages E) (ev_access E) turn (ev_closure E entry reason)))"

text \<open>
  \<open>close_open_turns\<close>: the turns of one agent, one after the other, then the next agent. A thread access
  that accepts a closure and leaves the turn open makes it run for ever: \<open>None\<close>.
\<close>

partial_function (option) close_agent_turns ::
  "('c, 't, 'ai, 'n, 'e, 'a, 's, 'h, 'p, 'x, 'm, 'z) node_env \<Rightarrow> closure_reason \<Rightarrow> bool \<Rightarrow> agent_id \<Rightarrow>
     ('c, 'e, 'a, 's, 'p, 'x, 'z) worker \<Rightarrow> (('c, 'e, 'a, 's, 'p, 'x, 'z) worker \<times> (fault + unit)) option" where
  "close_agent_turns E reason strict agent w =
     (case open_ai_turn (ev_messages E) (wk_session w) agent of
        None \<Rightarrow> Some (w, Inr ())
      | Some turn \<Rightarrow> (case worker_close_turn E turn reason w of
          (w', Inl fault) \<Rightarrow> Some (w', if strict then Inl fault else Inr ())
        | (w', Inr _) \<Rightarrow> close_agent_turns E reason strict agent w'))"

declare close_agent_turns.simps [code]

fun close_turns_of ::
  "('c, 't, 'ai, 'n, 'e, 'a, 's, 'h, 'p, 'x, 'm, 'z) node_env \<Rightarrow> closure_reason \<Rightarrow> bool \<Rightarrow> agent_id list \<Rightarrow>
     ('c, 'e, 'a, 's, 'p, 'x, 'z) worker \<Rightarrow> (('c, 'e, 'a, 's, 'p, 'x, 'z) worker \<times> (fault + unit)) option" where
  "close_turns_of E reason strict [] w = Some (w, Inr ())"
| "close_turns_of E reason strict (agent # agents) w = (case close_agent_turns E reason strict agent w of
     None \<Rightarrow> None
   | Some (w, Inl fault) \<Rightarrow> Some (w, Inl fault)
   | Some (w, Inr _) \<Rightarrow> close_turns_of E reason strict agents w)"

definition close_open_turns ::
  "('c, 't, 'ai, 'n, 'e, 'a, 's, 'h, 'p, 'x, 'm, 'z) node_env \<Rightarrow> closure_reason \<Rightarrow> bool \<Rightarrow>
     ('c, 'e, 'a, 's, 'p, 'x, 'z) worker \<Rightarrow> (('c, 'e, 'a, 's, 'p, 'x, 'z) worker \<times> (fault + unit)) option" where
  "close_open_turns E reason strict w = close_turns_of E reason strict (wk_agents w) w"

end
