(* ===== verification/Agentic_Step.thy ===== *)
theory Agentic_Step
  imports Agentic_Worker
begin

text \<open>
  One step of an agent (\<open>step.rs\<close>), the round of its tool calls (\<open>tool_round.rs\<close>), its reads of the
  inbox (\<open>read.rs\<close>) and the boundary of its queue (\<open>drain.rs\<close>) of \<open>br-agentic-nodes\<close>. The tasks of
  the tools and of the background read run in the outside: the outside says which one ends next and how.
\<close>

section \<open>The end of a turn\<close>

definition at_boundary :: "turn_state \<Rightarrow> bool" where
  "at_boundary st \<longleftrightarrow> tu_outstanding st = [] \<and> tu_pending st = [] \<and> tu_last_ending st \<noteq> Some EndsProviderContinuation"

definition is_final :: "('c, 't, 'ai, 'n, 'e, 'a, 's, 'h, 'p, 'x, 'm, 'z) node_env \<Rightarrow> 'n \<Rightarrow> turn_state \<Rightarrow> bool" where
  "is_final E response st \<longleftrightarrow> ev_calls E response = [] \<and> at_boundary st"

definition exempt :: "('c, 't, 'ai, 'n, 'e, 'a, 's, 'h, 'p, 'x, 'm, 'z) node_env \<Rightarrow> 'n \<Rightarrow> bool" where
  "exempt E response \<longleftrightarrow> ev_calls E response = [] \<and>
     ev_ending E response \<in> {EndsRefusal, EndsFiltering, EndsOutputExhaustion}"

section \<open>The attempt of a step\<close>

record ('a, 'z) step_attempt =
  sa_system :: "'z option"
  sa_history :: 'z
  sa_turn :: "'a ai_turn_ref"
  sa_tools :: "'z list"
  sa_shape :: "'z option"
  sa_timeout :: duration
  sa_covered :: bool

definition attempt_ends ::
  "('c, 't, 'ai, 'n, 'e, 'a, 's, 'h, 'p, 'x, 'm, 'z) node_env \<Rightarrow> 'c \<Rightarrow> 'a ai_turn_ref \<Rightarrow> 'n \<Rightarrow> bool" where
  "attempt_ends E c turn response = (if ev_calls E response \<noteq> [] then False
     else let M = ev_messages E;
              current = (case ms_turn M (tr_id turn) c of Inl _ \<Rightarrow> None | Inr t \<Rightarrow> ms_as_ai M t);
              ai = (case current of Some ai \<Rightarrow> ai | None \<Rightarrow> ms_open_ai M (tr_id turn) (tr_agent turn) (tr_author turn)) in
       (case ms_push_ai M response ai of Inl _ \<Rightarrow> False | Inr ai \<Rightarrow> at_boundary (ev_ai_state E ai)))"

definition check_response ::
  "('c, 't, 'ai, 'n, 'e, 'a, 's, 'h, 'p, 'x, 'm, 'z) node_env \<Rightarrow> 'c \<Rightarrow> ('a, 'z) step_attempt \<Rightarrow> 'm model_client \<Rightarrow> 'n \<Rightarrow>
     call_failure + 'n" where
  "check_response E c sa client response =
     bind_sum (if sa_covered sa \<and> \<not> exempt E response then check_thinking client (ev_blocks E response) else Inr ()) (\<lambda>_.
     bind_sum (if sa_shape sa \<noteq> None \<and> \<not> exempt E response \<and> attempt_ends E c (sa_turn sa) response
       then check_structure_reply (ev_blocks E response) else Inr ()) (\<lambda>_. Inr response))"

definition called_response ::
  "('c, 't, 'ai, 'n, 'e, 'a, 's, 'h, 'p, 'x, 'm, 'z) node_env \<Rightarrow> 'c \<Rightarrow> ('a, 'z) step_attempt \<Rightarrow> 'm model_client \<Rightarrow>
     (string + 'n) option \<Rightarrow> call_failure + 'n" where
  "called_response E c sa client called = (case called of
     None \<Rightarrow> Inl (CallTimeout (sa_timeout sa))
   | Some (Inl failure) \<Rightarrow> Inl (ClientFailed failure)
   | Some (Inr response) \<Rightarrow> check_response E c sa client response)"

definition step_attempt_call ::
  "('c, 't, 'ai, 'n, 'e, 'a, 's, 'h, 'p, 'x, 'm, 'z) node_env \<Rightarrow> ('a, 'z) step_attempt \<Rightarrow> 'm model_client \<Rightarrow>
     ('c, 'e, 'a, 's, 'p, 'x, 'z, attempt_error, 'n) wact" where
  "step_attempt_call E sa client =
     bind_act (map_fail AttemptFatal (new_id E)) (\<lambda>entry.
     bind_act (lift_sum (\<lambda>e. AttemptFatal (FaultValue e))
       (ev_request E (sa_system sa) (sa_history sa) (tr_id (sa_turn sa)) entry (sa_tools sa) (sa_shape sa))) (\<lambda>request.
     bind_act (on_session (\<lambda>e. AttemptFatal (FaultSession e)) (open_response (ev_access E) (sa_turn sa) entry)) (\<lambda>stream.
     bind_act (on_outside (ev_call E (mc_client client) request stream (sa_timeout sa))) (\<lambda>called.
     bind_act (get_act (\<lambda>w. called_response E (se_conversation (wk_session w)) sa client called)) (\<lambda>checked.
     case checked of
       Inr response \<Rightarrow> ret_act response
     | Inl failure \<Rightarrow> bind_act (on_session (\<lambda>e. AttemptFatal (FaultPort e)) (discard_response (ev_access E) entry)) (\<lambda>_.
         fail_act (AttemptFailed failure)))))))"

definition drive_act ::
  "'m slot \<Rightarrow> ('m model_client \<Rightarrow> ('c, 'e, 'a, 's, 'p, 'x, 'z, attempt_error, 'o) wact) \<Rightarrow>
     ('c, 'e, 'a, 's, 'p, 'x, 'z, fault, 'o \<times> 'm slot) wact" where
  "drive_act slot attempt w = (case drive attempt slot w of
     ((slot', w'), Inl fault) \<Rightarrow> (w', Inl fault)
   | ((slot', w'), Inr out) \<Rightarrow> (w', Inr (out, slot')))"

section \<open>The step\<close>

definition step_history ::
  "('c, 't, 'ai, 'n, 'e, 'a, 's, 'h, 'p, 'x, 'm, 'z) node_env \<Rightarrow> uuid option \<Rightarrow> string option \<Rightarrow>
     ('c, 'e, 'a, 's, 'p, 'x, 'z, fault, 'z) wact" where
  "step_history E turn warning =
     bind_act (get_act (\<lambda>w. ev_project E (ic_agent (wk_context w)) (se_conversation (wk_session w)))) (\<lambda>history.
     case (warning, turn) of
       (Some t, Some opened) \<Rightarrow> bind_act (new_id E) (\<lambda>entry.
         bind_act (lift_sum FaultValue (ev_notice E entry t)) (\<lambda>notice.
         lift_sum FaultValue (ev_push_notice E opened notice history)))
     | _ \<Rightarrow> ret_act history)"

text \<open>The step up to its response in the thread, and the step, which counts.\<close>

definition step_response ::
  "('c, 't, 'ai, 'n, 'e, 'a, 's, 'h, 'p, 'x, 'm, 'z) node_env \<Rightarrow> 'm slot \<Rightarrow> uuid option \<Rightarrow> string option \<Rightarrow>
     ('c, 'e, 'a, 's, 'p, 'x, 'z, fault, 'n \<times> 'm slot \<times> uuid) wact" where
  "step_response E slot turn warning =
     bind_act (case turn of None \<Rightarrow> new_id E | Some t \<Rightarrow> ret_act t) (\<lambda>turn_id.
     bind_act (step_history E turn warning) (\<lambda>history.
     bind_act (turn_ref turn_id) (\<lambda>target.
     bind_act (get_act (\<lambda>w. \<lparr>sa_system = wk_system w, sa_history = history, sa_turn = target,
       sa_tools = specs (wk_tools w), sa_shape = wk_shape w, sa_timeout = to_model_call (wk_timeouts w),
       sa_covered = (\<not> is_settled slot)\<rparr>)) (\<lambda>attempt.
     bind_act (drive_act slot (step_attempt_call E attempt)) (\<lambda>driven.
     bind_act (on_session FaultSession (complete_response (ev_messages E) (ev_access E) target (fst driven))) (\<lambda>_.
     ret_act (fst driven, snd driven, turn_id)))))))"

definition worker_step ::
  "('c, 't, 'ai, 'n, 'e, 'a, 's, 'h, 'p, 'x, 'm, 'z) node_env \<Rightarrow> 'm slot \<Rightarrow> uuid option \<Rightarrow> string option \<Rightarrow>
     ('c, 'e, 'a, 's, 'p, 'x, 'z, fault, 'n \<times> 'm slot \<times> uuid) wact" where
  "worker_step E slot turn warning = bind_act (step_response E slot turn warning) (\<lambda>r.
     bind_act (put_act (\<lambda>w. w\<lparr>wk_steps := count_step (wk_steps w)\<rparr>)) (\<lambda>_. ret_act r))"

text \<open>\<open>Fault::value\<close>; a display that panics ends the work with that panic.\<close>

definition fault_value :: "cause \<Rightarrow> fault" where
  "fault_value c = (case display c of Inl panic \<Rightarrow> FaultPanic panic | Inr t \<Rightarrow> FaultValue t)"

definition worker_ai_turn ::
  "('c, 't, 'ai, 'n, 'e, 'a, 's, 'h, 'p, 'x, 'm, 'z) node_env \<Rightarrow> uuid \<Rightarrow> ('c, 'e, 'a, 's, 'p, 'x, 'z, fault, 'ai) wact" where
  "worker_ai_turn E turn w = (w, case ms_turn (ev_messages E) turn (se_conversation (wk_session w)) of
     Inl e \<Rightarrow> Inl (fault_value e)
   | Inr t \<Rightarrow> (case ms_as_ai (ev_messages E) t of
       None \<Rightarrow> Inl (FaultValue ''the turn of the pass is not an AI turn'')
     | Some ai \<Rightarrow> Inr ai))"

definition worker_turn_state ::
  "('c, 't, 'ai, 'n, 'e, 'a, 's, 'h, 'p, 'x, 'm, 'z) node_env \<Rightarrow> uuid \<Rightarrow> ('c, 'e, 'a, 's, 'p, 'x, 'z, fault, turn_state) wact" where
  "worker_turn_state E turn = bind_act (worker_ai_turn E turn) (\<lambda>ai. ret_act (ev_ai_state E ai))"

section \<open>The round of the tool calls\<close>

record 'z immediate =
  im_entry :: entry_id
  im_call :: block_id
  im_name :: string
  im_content :: "('z, 'z, 'z) tool_content"

definition SEND_MAIL :: string where "SEND_MAIL = ''send_mail''"

definition timeout_text ::
  "('c, 't, 'ai, 'n, 'e, 'a, 's, 'h, 'p, 'x, 'm, 'z) node_env \<Rightarrow> string \<Rightarrow> duration \<Rightarrow> string" where
  "timeout_text E name timeout =
     ''the call to the tool '' @ name @ '' exceeded its timeout of '' @ ev_show_duration E timeout @
     (if name = SEND_MAIL then ''; it is not known whether the mail was sent'' else [])"

definition refresh_gate ::
  "('c, 't, 'ai, 'n, 'e, 'a, 's, 'h, 'p, 'x, 'm, 'z) node_env \<Rightarrow> ('c, 'e, 'a, 's, 'p, 'x, 'z, 'f, unit) wact" where
  "refresh_gate E = put_act (\<lambda>w. w\<lparr>wk_gate := map fst (filter
     (\<lambda>(i, r). case r of RefIncoming \<Rightarrow> True | RefTurn incoming \<Rightarrow> incoming | RefOther \<Rightarrow> False)
     (ev_entry_list E (se_conversation (wk_session w))))\<rparr>)"

text \<open>
  \<open>start_call\<close>: the answer of a call to a tool that the node does not hold, or the call that runs as a
  task. The closure of \<open>complete_call\<close> pops the ids, the last first, and notes when there is none left.
\<close>

definition start_call ::
  "('c, 't, 'ai, 'n, 'e, 'a, 's, 'h, 'p, 'x, 'm, 'z) node_env \<Rightarrow> 'z tool_call \<times> entry_id \<times> 'h \<Rightarrow>
     ('c, 'e, 'a, 's, 'p, 'x, 'z, fault, 'z immediate + ('h, 'z) running_call) wact" where
  "start_call E = (\<lambda>(call, entry, stream).
     bind_act (get_act (\<lambda>w. find_tool (ev_spec_name E) (wk_tools w) (ca_name call))) (\<lambda>found.
     case found of
       None \<Rightarrow> bind_act (lift_sum FaultValue
           (error_text (ev_blocks_of E) (''the node holds no tool named '' @ ca_name call))) (\<lambda>content.
         ret_act (Inl \<lparr>im_entry = entry, im_call = ca_id call, im_name = ca_name call, im_content = content\<rparr>))
     | Some t \<Rightarrow> ret_act (Inr \<lparr>rn_entry = entry, rn_call = ca_id call, rn_name = ca_name call, rn_tool = t,
         rn_arguments = ca_arguments call, rn_stream = stream\<rparr>)))"

definition pop_id :: "block_id \<Rightarrow> block_id list \<times> bool \<Rightarrow> (block_id list \<times> bool) \<times> block_id" where
  "pop_id call g = (if fst g = [] then (([], True), call) else ((butlast (fst g), snd g), last (fst g)))"

definition complete_with ::
  "('c, 't, 'ai, 'n, 'e, 'a, 's, 'h, 'p, 'x, 'm, 'z) node_env \<Rightarrow> 'a ai_turn_ref \<Rightarrow> entry_id \<Rightarrow>
     (block_id list \<times> bool) \<times> (string + 'z) \<Rightarrow> ('c, 'e, 'a, 's, 'p, 'x, 'z, fault, unit) wact" where
  "complete_with E target entry built = (case snd built of
     Inl e \<Rightarrow> fail_act (FaultValue e)
   | Inr result \<Rightarrow>
       if snd (fst built) then fail_act (FaultValue ''a tool result needed more block identities than it holds blocks'')
       else bind_act (lift_sum FaultValue (ev_results E entry result)) (\<lambda>results.
         on_session FaultSession (complete_result (ev_messages E) (ev_access E) target results)))"

definition complete_call ::
  "('c, 't, 'ai, 'n, 'e, 'a, 's, 'h, 'p, 'x, 'm, 'z) node_env \<Rightarrow> 'a ai_turn_ref \<Rightarrow> entry_id \<Rightarrow> block_id \<Rightarrow> string \<Rightarrow>
     ('z, 'z, 'z) tool_content \<Rightarrow> ('c, 'e, 'a, 's, 'p, 'x, 'z, fault, unit) wact" where
  "complete_call E target entry call name content =
     bind_act (each_act (\<lambda>_. new_id E) (tc_content content)) (\<lambda>ids.
     bind_act (new_id E) (\<lambda>i.
     complete_with E target entry (into_result (ev_blocks_of E) content i call name (pop_id call) (ids, False))))"

definition open_call ::
  "('c, 't, 'ai, 'n, 'e, 'a, 's, 'h, 'p, 'x, 'm, 'z) node_env \<Rightarrow> 'a ai_turn_ref \<Rightarrow> 'z tool_call \<Rightarrow>
     ('c, 'e, 'a, 's, 'p, 'x, 'z, fault, 'z tool_call \<times> entry_id \<times> 'h) wact" where
  "open_call E target call = bind_act (new_id E) (\<lambda>entry.
     bind_act (on_session FaultSession (open_result (ev_access E) target entry)) (\<lambda>stream.
     ret_act (call, entry, stream)))"

text \<open>What a task that has ended gives: the content of its result.\<close>

definition joined_content ::
  "('c, 't, 'ai, 'n, 'e, 'a, 's, 'h, 'p, 'x, 'm, 'z) node_env \<Rightarrow> string \<Rightarrow> duration \<Rightarrow> 'z joined \<Rightarrow>
     stop + ('z, 'z, 'z) tool_content" where
  "joined_content E name timeout j = (case j of
     JoinPanic t \<Rightarrow> Inl (StopFault (FaultPanic t))
   | JoinElapsed \<Rightarrow> map_inl (\<lambda>e. StopFault (FaultValue e)) (error_text (ev_blocks_of E) (timeout_text E name timeout))
   | JoinFault cause \<Rightarrow> Inl (StopFault (FaultTool cause))
   | JoinContent content \<Rightarrow> Inr content)"

text \<open>What follows the end of a task.\<close>

definition join_one ::
  "('c, 't, 'ai, 'n, 'e, 'a, 's, 'h, 'p, 'x, 'm, 'z) node_env \<Rightarrow> 'a ai_turn_ref \<Rightarrow> ('h, 'z) running_call \<Rightarrow> 'z joined \<Rightarrow>
     ('c, 'e, 'a, 's, 'p, 'x, 'z, stop, unit) wact" where
  "join_one E target run j =
     bind_act (case j of JoinPanic t \<Rightarrow> fail_act (StopFault (FaultPanic t)) | _ \<Rightarrow> ret_act ()) (\<lambda>_.
     bind_act (get_act (\<lambda>w. ev_cancelled E (wk_outside w))) (\<lambda>cancelled.
     if cancelled then fail_act StopCancelled
     else bind_act (get_act (\<lambda>w. to_tool_call (wk_timeouts w))) (\<lambda>timeout.
       bind_act (lift_sum (\<lambda>e. e) (joined_content E (rn_name run) timeout j)) (\<lambda>content.
       map_fail StopFault (complete_call E target (rn_entry run) (rn_call run) (rn_name run) content)))))"

text \<open>The loop over the set of tasks, one ended task at a time: the set holds \<open>n\<close> tasks.\<close>

primrec join_tasks ::
  "('c, 't, 'ai, 'n, 'e, 'a, 's, 'h, 'p, 'x, 'm, 'z) node_env \<Rightarrow> 'a ai_turn_ref \<Rightarrow> nat \<Rightarrow> ('h, 'z) running_call list \<Rightarrow>
     ('c, 'e, 'a, 's, 'p, 'x, 'z, stop, unit) wact" where
  "join_tasks E target 0 running = ret_act ()"
| "join_tasks E target (Suc n) running =
     bind_act (on_outside (ev_join E running)) (\<lambda>ended.
     bind_act (join_one E target (running ! (fst ended mod Suc n)) (snd ended)) (\<lambda>_.
     join_tasks E target n (take (fst ended mod Suc n) running @ drop (Suc (fst ended mod Suc n)) running)))"

definition tool_round ::
  "('c, 't, 'ai, 'n, 'e, 'a, 's, 'h, 'p, 'x, 'm, 'z) node_env \<Rightarrow> uuid \<Rightarrow> 'n \<Rightarrow> ('c, 'e, 'a, 's, 'p, 'x, 'z, stop, unit) wact" where
  "tool_round E turn response =
     bind_act (refresh_gate E) (\<lambda>_.
     bind_act (map_fail StopFault (turn_ref turn)) (\<lambda>target.
     bind_act (map_fail StopFault (each_act (open_call E target) (ev_calls E response))) (\<lambda>opened.
     bind_act (map_fail StopFault (each_act (start_call E) opened)) (\<lambda>started.
     let immediates = List.map_filter (\<lambda>s. case s of Inl im \<Rightarrow> Some im | Inr _ \<Rightarrow> None) started;
         running = List.map_filter (\<lambda>s. case s of Inl _ \<Rightarrow> None | Inr run \<Rightarrow> Some run) started in
     bind_act (map_fail StopFault (each_act
       (\<lambda>im. complete_call E target (im_entry im) (im_call im) (im_name im) (im_content im)) immediates)) (\<lambda>_.
     join_tasks E target (length running) running)))))"

end
