(* ===== verification/Agentic_Pass.thy ===== *)
theory Agentic_Pass
  imports Agentic_Step
begin

text \<open>
  The reads of the inbox (\<open>read.rs\<close>), the boundary of the queue (\<open>drain.rs\<close>) and the pass of an agent
  (\<open>pass.rs\<close>) of \<open>br-agentic-nodes\<close>: the steps of one AI turn up to its final response or the step limit.
\<close>

section \<open>Reads of the inbox\<close>

definition BATCH :: nat where "BATCH = 64"

text \<open>The pages of the inbox as it is now; a listing leaves the inbox as it was.\<close>

definition inbox_pages ::
  "('p, 'a, 'e) inbox_port \<Rightarrow> inbox_context \<Rightarrow> 'p \<Rightarrow> cursor option \<Rightarrow> port_error + ('a, 'e) inbox_item page" where
  "inbox_pages P context p after = snd (ip_items P context after BATCH p)"

text \<open>\<open>read_inbox_now\<close>: a failed read leaves what it read; an inbox whose list never ends makes it run for ever.\<close>

definition read_inbox_now ::
  "('c, 't, 'ai, 'n, 'e, 'a, 's, 'h, 'p, 'x, 'm, 'z) node_env \<Rightarrow> ('c, 'e, 'a, 's, 'p, 'x, 'z) worker \<Rightarrow>
     ('c, 'e, 'a, 's, 'p, 'x, 'z) worker option" where
  "read_inbox_now E w = (case ev_inbox E of
     None \<Rightarrow> Some w
   | Some P \<Rightarrow> map_option (\<lambda>(q, _). w\<lparr>wk_queue := q\<rparr>)
       (queue_read (ev_entries E) (inbox_pages P (wk_context w) (wk_inbox w)) (wk_queue w)))"

definition refresh_read ::
  "('c, 't, 'ai, 'n, 'e, 'a, 's, 'h, 'p, 'x, 'm, 'z) node_env \<Rightarrow> ('c, 'e, 'a, 's, 'p, 'x, 'z, 'f, unit) wact" where
  "refresh_read E w = (if ev_inbox E = None then (w, Inr ())
     else if \<not> wk_reading w then (w\<lparr>wk_reading := True\<rparr>, Inr ())
     else (case ev_poll_read E (wk_store w, wk_inbox w, wk_outside w) of
         ((s, p, x), None) \<Rightarrow> (w\<lparr>wk_store := s, wk_inbox := p, wk_outside := x\<rparr>, Inr ())
       | ((s, p, x), Some items) \<Rightarrow> (w\<lparr>wk_store := s, wk_inbox := p, wk_outside := x,
           wk_queue := fst (push_all (ev_entries E) (wk_queue w) items), wk_reading := True\<rparr>, Inr ())))"

definition stop_read :: "('c, 'e, 'a, 's, 'p, 'x, 'z) worker \<Rightarrow> ('c, 'e, 'a, 's, 'p, 'x, 'z) worker" where
  "stop_read w = w\<lparr>wk_reading := False\<rparr>"

section \<open>The boundary of the queue\<close>

record drained =
  dr_stored :: nat
  dr_request_stored :: bool

definition drained_default :: drained where
  "drained_default = \<lparr>dr_stored = 0, dr_request_stored = False\<rparr>"

definition is_request :: "('a, 'e) entry_ops \<Rightarrow> ('a, 'e) inbox_item \<Rightarrow> bool" where
  "is_request N item = (case item of ItemMail _ \<Rightarrow> True | ItemEntry entry \<Rightarrow> en_kind N entry = HumanMessage)"

definition drain_boundary ::
  "('c, 't, 'ai, 'n, 'e, 'a, 's, 'h, 'p, 'x, 'm, 'z) node_env \<Rightarrow> ('p, 'a, 'e) inbox_port \<Rightarrow> uuid \<Rightarrow>
     ('c, 'e, 'a, 's, 'p, 'x, 'z, fault, boundary_report) wact" where
  "drain_boundary E P turn w = (case store_at_boundary (ev_messages E) (ev_access E) (ev_entries E) P (wk_context w)
       (ev_mail_entry E (wk_known w)) turn (wk_session w, wk_store w) (wk_inbox w) (wk_queue w) of
     (((S, s), p, q), r) \<Rightarrow> (w\<lparr>wk_session := S, wk_store := s, wk_inbox := p, wk_queue := q\<rparr>, map_inl FaultBoundary r))"

definition drain ::
  "('c, 't, 'ai, 'n, 'e, 'a, 's, 'h, 'p, 'x, 'm, 'z) node_env \<Rightarrow> ('c, 'e, 'a, 's, 'p, 'x, 'z, fault, drained) wact" where
  "drain E = (case ev_inbox E of
     None \<Rightarrow> ret_act drained_default
   | Some P \<Rightarrow> bind_act (refresh_read E) (\<lambda>_.
       bind_act (get_act wk_queue) (\<lambda>q.
       if q = [] then ret_act drained_default
       else bind_act (new_id E) (\<lambda>turn.
         bind_act (drain_boundary E P turn) (\<lambda>boundary.
         let requests = map (item_id (ev_entries E)) (filter (is_request (ev_entries E)) q);
             request_stored = list_ex (\<lambda>i. i \<in> set requests) (bd_stored boundary) in
         bind_act (put_act (\<lambda>w. if request_stored then w\<lparr>wk_counters := counters_default\<rparr> else w)) (\<lambda>_.
         ret_act \<lparr>dr_stored = length (bd_stored boundary), dr_request_stored = request_stored\<rparr>))))))"

definition drain_at_start ::
  "('c, 't, 'ai, 'n, 'e, 'a, 's, 'h, 'p, 'x, 'm, 'z) node_env \<Rightarrow> ('c, 'e, 'a, 's, 'p, 'x, 'z) worker \<Rightarrow>
     (('c, 'e, 'a, 's, 'p, 'x, 'z) worker \<times> (fault + drained)) option" where
  "drain_at_start E w = map_option (drain E) (read_inbox_now E w)"

section \<open>The pass\<close>

datatype 'n pass_end = PassFinal 'n | PassStepLimit 'n

fun into_response :: "'n pass_end \<Rightarrow> 'n" where
  "into_response (PassFinal response) = response"
| "into_response (PassStepLimit response) = response"

definition step_limit_reached :: "'n pass_end \<Rightarrow> bool" where
  "step_limit_reached e = (case e of PassStepLimit _ \<Rightarrow> True | PassFinal _ \<Rightarrow> False)"

definition restored ::
  "('c, 't, 'ai, 'n, 'e, 'a, 's, 'h, 'p, 'x, 'm, 'z) node_env \<Rightarrow> ('c, 'e, 'a, 's, 'p, 'x, 'z) worker \<Rightarrow> 'n pass_end option" where
  "restored E w = (case ms_turns (ev_messages E) (se_conversation (wk_session w)) of
     [] \<Rightarrow> None
   | turns \<Rightarrow> (case ms_as_ai (ev_messages E) (last turns) of
       None \<Rightarrow> None
     | Some ai \<Rightarrow> (if ms_ai_agent (ev_messages E) ai \<noteq> ic_agent (wk_context w) then None
         else (case find (ev_response_of E) (rev (ev_ai_entries E ai)) of
             None \<Rightarrow> None
           | Some response \<Rightarrow> (case tu_closure (ev_ai_state E ai) of
               Some (ClosedBudgetExhausted _) \<Rightarrow> Some (PassStepLimit response)
             | _ \<Rightarrow> (if is_final E response (ev_ai_state E ai) then Some (PassFinal response) else None))))))"

definition STEP_LIMIT_DETAIL :: string where "STEP_LIMIT_DETAIL = ''the step limit was reached''"

text \<open>What follows a step: the end of the pass, or the tool calls of its response.\<close>

definition pass_turn ::
  "('c, 't, 'ai, 'n, 'e, 'a, 's, 'h, 'p, 'x, 'm, 'z) node_env \<Rightarrow> uuid \<Rightarrow> 'n \<Rightarrow>
     ('c, 'e, 'a, 's, 'p, 'x, 'z, stop, 'n pass_end option) wact" where
  "pass_turn E opened response =
     bind_act (map_fail StopFault (turn_ref opened)) (\<lambda>target.
     bind_act (map_fail StopFault (worker_turn_state E opened)) (\<lambda>st.
     bind_act (get_act (\<lambda>w. remaining (wk_steps w))) (\<lambda>left.
     if is_final E response st then
       bind_act (map_fail StopFault (worker_close_turn E target ClosedCompleted)) (\<lambda>_.
       ret_act (Some (PassFinal response)))
     else if left = 0 then
       bind_act (lift_sum (\<lambda>e. StopFault (FaultValue e)) (ev_reason E STEP_LIMIT_DETAIL)) (\<lambda>_.
       bind_act (map_fail StopFault (worker_close_turn E target (ClosedBudgetExhausted (Some STEP_LIMIT_DETAIL)))) (\<lambda>_.
       ret_act (Some (PassStepLimit response))))
     else if ev_calls E response \<noteq> [] then
       bind_act (tool_round E opened response) (\<lambda>_.
       bind_act (map_fail StopFault (worker_turn_state E opened)) (\<lambda>st.
       bind_act (if at_boundary st then map_fail StopFault (drain E) else ret_act drained_default) (\<lambda>_.
       ret_act None)))
     else ret_act None)))"

section \<open>What the operations leave alone\<close>

text \<open>Every operation other than the count of a step keeps the steps and the settings of the worker.\<close>

definition settled_parts :: "('c, 'e, 'a, 's, 'p, 'x, 'z) worker \<Rightarrow> ('c, 'e, 'a, 's, 'p, 'x, 'z) worker \<Rightarrow> bool" where
  "settled_parts w w' \<longleftrightarrow> wk_context w' = wk_context w \<and> wk_author w' = wk_author w \<and> wk_system w' = wk_system w \<and>
     wk_shape w' = wk_shape w \<and> wk_tools w' = wk_tools w \<and> wk_files w' = wk_files w \<and> wk_timeouts w' = wk_timeouts w \<and>
     wk_agents w' = wk_agents w \<and> wk_known w' = wk_known w \<and> st_limit (wk_steps w') = st_limit (wk_steps w)"

definition same_steps :: "('c, 'e, 'a, 's, 'p, 'x, 'z) worker \<Rightarrow> ('c, 'e, 'a, 's, 'p, 'x, 'z) worker \<Rightarrow> bool" where
  "same_steps w w' \<longleftrightarrow> settled_parts w w' \<and> wk_steps w' = wk_steps w"

lemma preorder_settled: "preorder settled_parts" "preorder same_steps"
  by (auto simp: preorder_def settled_parts_def same_steps_def)

lemma moves_drive_from:
  assumes "preorder R" "\<And>client. moves R (attempt client)"
  shows "R w (snd (fst (drive_from attempt slot tried w)))"
  using assms(2)
proof (induction attempt slot tried w rule: drive_from.induct)
  case (1 attempt slot tried w)
  show ?case
  proof (cases "candidate slot tried")
    case None
    then show ?thesis
      by (subst drive_from.simps) (simp add: preorder_refl assms(1))
  next
    case (Some ic)
    obtain index client where c: "candidate slot tried = Some (index, client)"
      using Some by (cases ic) auto
    have one: "R w (fst (attempt client w))"
      using 1(2) by (rule movesD)
    show ?thesis
    proof (cases "switches (snd (attempt client w)) \<and> may_switch slot tried")
      case True
      obtain w' e where a: "attempt client w = (w', Inl (AttemptFailed e))"
        using True by (cases "attempt client w") (auto simp: switches_def split: sum.splits attempt_error.splits)
      have "R w' (snd (fst (drive_from attempt slot (tried + 1) w')))"
        using 1(1) [OF c refl a [symmetric] refl refl] 1(2) True by simp
      then show ?thesis
        using drive_from_switch [where attempt = attempt, OF c] True one a preorder_trans [OF assms(1)] by fastforce
    next
      case False
      then show ?thesis
        using drive_from_stop [where attempt = attempt, OF c False] one by simp
    qed
  qed
qed

lemma fst_drive_act: "fst (drive_act slot attempt w) = snd (fst (drive_from attempt slot 0 w))"
  by (simp add: drive_act_def drive_def split: prod.split sum.split)

lemma moves_drive [moves_rules]: "preorder R \<Longrightarrow> (\<And>client. moves R (attempt client)) \<Longrightarrow> moves R (drive_act slot attempt)"
  by (rule movesI) (simp add: fst_drive_act moves_drive_from)

text \<open>
  What every operation does to the worker is a chain of these changes: a relation that holds of each of
  them holds of every operation.
\<close>

locale quiet_frame =
  fixes R :: "('c, 'e, 'a, 's, 'p, 'x, 'z) worker \<Rightarrow> ('c, 'e, 'a, 's, 'p, 'x, 'z) worker \<Rightarrow> bool"
  assumes pre: "preorder R"
    and session: "R w (w\<lparr>wk_session := S, wk_store := s\<rparr>)"
    and outside: "R w (w\<lparr>wk_store := s, wk_outside := x\<rparr>)"
    and fresh: "R w (w\<lparr>wk_outside := x\<rparr>)"
    and gate: "R w (w\<lparr>wk_gate := g\<rparr>)"
    and reading: "R w (w\<lparr>wk_reading := b\<rparr>)"
    and inbox: "R w (w\<lparr>wk_store := s, wk_inbox := p, wk_outside := x\<rparr>)"
    and queue: "R w (w\<lparr>wk_store := s, wk_inbox := p, wk_outside := x, wk_queue := q, wk_reading := b\<rparr>)"
    and boundary: "R w (w\<lparr>wk_session := S, wk_store := s, wk_inbox := p, wk_queue := q\<rparr>)"
begin

lemma moves_session [moves_rules]: "moves R (on_session f op)"
  by (rule movesI) (simp add: on_session_def session case_prod_unfold)

lemma moves_outside [moves_rules]: "moves R (on_outside op)"
  by (rule movesI) (simp add: on_outside_def outside case_prod_unfold)

lemma moves_new_id [moves_rules]: "moves R (new_id E)"
  by (rule movesI) (simp add: new_id_def fresh case_prod_unfold)

lemma moves_author [moves_rules]: "moves R worker_author"
  by (rule movesI) (simp add: worker_author_def preorder_refl pre)

lemma moves_ai_turn [moves_rules]: "moves R (worker_ai_turn E turn)"
  by (rule movesI) (simp add: worker_ai_turn_def preorder_refl pre)

lemma moves_gate [moves_rules]: "moves R (refresh_gate E)"
  by (rule movesI) (simp add: refresh_gate_def gate)

lemma moves_turn_ref [moves_rules]: "moves R (turn_ref turn)"
  unfolding turn_ref_def by (intro moves_rules pre)

lemma moves_turn_state [moves_rules]: "moves R (worker_turn_state E turn)"
  unfolding worker_turn_state_def by (intro moves_rules pre)

lemma moves_close_turn [moves_rules]: "moves R (worker_close_turn E turn reason)"
  unfolding worker_close_turn_def by (intro moves_rules pre)

lemma moves_attempt [moves_rules]: "moves R (step_attempt_call E sa client)"
  unfolding step_attempt_call_def by (intro moves_rules pre)

lemma moves_open_call [moves_rules]: "moves R (open_call E target call)"
  unfolding open_call_def by (intro moves_rules pre)

lemma moves_start_call [moves_rules]: "moves R (start_call E c)"
  unfolding start_call_def by (cases c; simp only: prod.case; intro moves_rules pre)

lemma moves_complete_with [moves_rules]: "moves R (complete_with E target entry built)"
  unfolding complete_with_def by (intro moves_rules pre)

lemma moves_complete_call [moves_rules]: "moves R (complete_call E target entry call name content)"
  unfolding complete_call_def by (intro moves_rules pre)

lemma moves_join_one [moves_rules]: "moves R (join_one E target run j)"
  unfolding join_one_def by (cases j; simp only: joined.case; intro moves_rules pre)

lemma moves_join [moves_rules]: "moves R (join_tasks E target n running)"
proof (induction n arbitrary: running)
  case 0
  show ?case unfolding join_tasks.simps by (intro moves_rules pre)
next
  case (Suc n)
  show ?case unfolding join_tasks.simps by (intro moves_rules pre Suc.IH)
qed

lemma moves_tool_round [moves_rules]: "moves R (tool_round E turn response)"
  unfolding tool_round_def Let_def by (intro moves_rules pre)


lemma moves_refresh_read [moves_rules]: "moves R (refresh_read E)"
  by (rule movesI) (auto simp: refresh_read_def reading inbox queue preorder_refl pre case_prod_unfold split: option.split)

lemma moves_drain_boundary [moves_rules]: "moves R (drain_boundary E P turn)"
  by (rule movesI) (simp add: drain_boundary_def boundary case_prod_unfold)

lemma moves_history [moves_rules]: "moves R (step_history E turn warning)"
  unfolding step_history_def by (intro moves_rules pre) (auto split: prod.split option.split intro!: moves_rules pre)

lemma moves_step_response [moves_rules]: "moves R (step_response E slot turn warning)"
  unfolding step_response_def by (intro moves_rules pre)

end

text \<open>A stored request also starts the counters of the critic again.\<close>

locale worker_frame = quiet_frame +
  assumes request: "R w (w\<lparr>wk_counters := counters_default\<rparr>)"
begin

lemma moves_drain [moves_rules]: "moves R (drain E)"
  unfolding drain_def Let_def
  by (intro moves_rules pre moves_put) (simp add: request preorder_refl pre)

lemma moves_pass_turn [moves_rules]: "moves R (pass_turn E opened response)"
  unfolding pass_turn_def by (intro moves_rules pre)

end

interpretation same: worker_frame same_steps
  by unfold_locales (auto simp: preorder_def same_steps_def settled_parts_def)

text \<open>A step that gives a response counts one; any other leaves the count alone.\<close>

definition one_step :: "('c, 'e, 'a, 's, 'p, 'x, 'z) worker \<Rightarrow> ('c, 'e, 'a, 's, 'p, 'x, 'z) worker \<Rightarrow> bool" where
  "one_step w w' \<longleftrightarrow> settled_parts w w' \<and> wk_steps w' = count_step (wk_steps w)"

lemma step_counts:
  assumes "worker_step E slot turn warning w = (w', Inr r)"
  shows "one_step w w'"
proof -
  obtain w1 where w1: "step_response E slot turn warning w = (w1, Inr r)" "w' = w1\<lparr>wk_steps := count_step (wk_steps w1)\<rparr>"
    using assms unfolding worker_step_def by (elim bind_act_okE) auto
  have "same_steps w w1"
    using movesD [OF same.moves_step_response, of w E slot turn warning] w1(1) by simp
  then show ?thesis
    using w1(2) by (simp add: one_step_def same_steps_def settled_parts_def count_step_def)
qed

lemma step_fails:
  assumes "worker_step E slot turn warning w = (w', Inl fault)"
  shows "same_steps w w'"
proof (cases "snd (step_response E slot turn warning w)")
  case (Inl f)
  then show ?thesis
    using assms movesD [OF same.moves_step_response, of w E slot turn warning] by (simp add: worker_step_def bind_act_Inl)
next
  case (Inr r)
  then show ?thesis
    using assms by (simp add: worker_step_def bind_act_Inr)
qed

text \<open>The pass goes on only while steps remain.\<close>

lemma moves_pair: "moves R m \<Longrightarrow> m s = (s', r) \<Longrightarrow> R s s'"
  using movesD [of R m s] by simp

lemma pass_turn_continues:
  assumes "pass_turn E opened response w = (w', Inr None)"
  shows "remaining (wk_steps w) \<noteq> 0"
proof -
  obtain w1 target w2 st where w1: "map_fail StopFault (turn_ref opened) w = (w1, Inr target)"
    and w2: "map_fail StopFault (worker_turn_state E opened) w1 = (w2, Inr st)"
    and left: "remaining (wk_steps w2) \<noteq> 0"
    using assms unfolding pass_turn_def
    by (elim bind_act_okE) (auto split: if_splits elim!: bind_act_okE)
  have "moves same_steps (map_fail StopFault (turn_ref opened))"
    by (intro moves_rules)
  from moves_pair [OF this w1] have one: "same_steps w w1" .
  have "moves same_steps (map_fail StopFault (worker_turn_state E opened))"
    by (intro moves_rules)
  from moves_pair [OF this w2] one show ?thesis
    using left by (simp add: same_steps_def)
qed

section \<open>The loop of a pass\<close>

function pass_loop ::
  "('c, 't, 'ai, 'n, 'e, 'a, 's, 'h, 'p, 'x, 'm, 'z) node_env \<Rightarrow> 'm slot \<Rightarrow> uuid option \<Rightarrow> bool \<Rightarrow>
     ('c, 'e, 'a, 's, 'p, 'x, 'z) worker \<Rightarrow> ('c, 'e, 'a, 's, 'p, 'x, 'z) worker \<times> (stop + 'n pass_end \<times> 'm slot)" where
  "pass_loop E slot turn warn w =
     (case worker_step E slot turn (if warn then warning_text (remaining (wk_steps w)) else None) w of
        (w1, Inl fault) \<Rightarrow> (w1, Inl (StopFault fault))
      | (w1, Inr (response, slot1, opened)) \<Rightarrow> (case pass_turn E opened response w1 of
          (w2, Inl stopped) \<Rightarrow> (w2, Inl stopped)
        | (w2, Inr (Some pend)) \<Rightarrow> (w2, Inr (pend, slot1))
        | (w2, Inr None) \<Rightarrow> pass_loop E slot1 (Some opened) (ev_calls E response \<noteq> []) w2))"
  by pat_completeness auto
termination
proof (relation "measure (\<lambda>(E, slot, turn, warn, w). unat (remaining (wk_steps w)))", goal_cases)
  case 1
  show ?case by simp
next
  case (2 E slot turn warn w w1 s1 r response rest slot1 opened w2 s2 finished)
  have step: "worker_step E slot turn (if warn then warning_text (remaining (wk_steps w)) else None) w =
      (w1, Inr (response, slot1, opened))"
    and on: "pass_turn E opened response w1 = (w2, Inr None)"
    using 2 by simp_all
  have "one_step w w1" "same_steps w1 w2" "unat (remaining (wk_steps w1)) \<noteq> 0"
    using step_counts [OF step] moves_pair [OF same.moves_pass_turn on] pass_turn_continues [OF on]
    by (simp_all add: unat_eq_zero)
  then have "unat (remaining (wk_steps w2)) = unat (remaining (wk_steps w)) - 1"
    "unat (remaining (wk_steps w)) - 1 \<noteq> 0"
    by (simp_all add: one_step_def same_steps_def)
  then show ?case by simp
qed

declare pass_loop.simps [simp del]

text \<open>For evaluation: the same loop, which looks at the result of a step before it goes on.\<close>

definition pass_after ::
  "('c, 't, 'ai, 'n, 'e, 'a, 's, 'h, 'p, 'x, 'm, 'z) node_env \<Rightarrow> 'n \<times> 'm slot \<times> uuid \<Rightarrow>
     ('c, 'e, 'a, 's, 'p, 'x, 'z) worker \<times> (stop + 'n pass_end option) \<Rightarrow>
     ('c, 'e, 'a, 's, 'p, 'x, 'z) worker \<times> (stop + 'n pass_end \<times> 'm slot)" where
  "pass_after E r q = (case snd q of
     Inl stopped \<Rightarrow> (fst q, Inl stopped)
   | Inr p \<Rightarrow> (case p of
       None \<Rightarrow> pass_loop E (fst (snd r)) (Some (snd (snd r))) (ev_calls E (fst r) \<noteq> []) (fst q)
     | Some pend \<Rightarrow> (fst q, Inr (pend, fst (snd r)))))"

definition pass_next ::
  "('c, 't, 'ai, 'n, 'e, 'a, 's, 'h, 'p, 'x, 'm, 'z) node_env \<Rightarrow>
     ('c, 'e, 'a, 's, 'p, 'x, 'z) worker \<times> (fault + 'n \<times> 'm slot \<times> uuid) \<Rightarrow>
     ('c, 'e, 'a, 's, 'p, 'x, 'z) worker \<times> (stop + 'n pass_end \<times> 'm slot)" where
  "pass_next E out = (case snd out of
     Inl fault \<Rightarrow> (fst out, Inl (StopFault fault))
   | Inr r \<Rightarrow> pass_after E r (pass_turn E (snd (snd r)) (fst r) (fst out)))"

lemma pass_loop_code [code]:
  "pass_loop E slot turn warn w =
     pass_next E (worker_step E slot turn (if warn then warning_text (remaining (wk_steps w)) else None) w)"
  by (subst pass_loop.simps) (simp add: pass_next_def pass_after_def split: prod.split sum.split option.split)

definition worker_pass ::
  "('c, 't, 'ai, 'n, 'e, 'a, 's, 'h, 'p, 'x, 'm, 'z) node_env \<Rightarrow> 'm slot \<Rightarrow>
     ('c, 'e, 'a, 's, 'p, 'x, 'z, stop, 'n pass_end \<times> 'm slot) wact" where
  "worker_pass E slot w = pass_loop E slot None False w"


lemma pass_loop_step_fails:
  assumes "worker_step E slot turn (if warn then warning_text (remaining (wk_steps w)) else None) w = (w1, Inl fault)"
  shows "pass_loop E slot turn warn w = (w1, Inl (StopFault fault))"
  using assms by (subst pass_loop.simps) simp

lemma pass_loop_step:
  assumes "worker_step E slot turn (if warn then warning_text (remaining (wk_steps w)) else None) w =
    (w1, Inr (response, slot1, opened))"
  shows "pass_loop E slot turn warn w = (case pass_turn E opened response w1 of
      (w2, Inl stopped) \<Rightarrow> (w2, Inl stopped)
    | (w2, Inr (Some pend)) \<Rightarrow> (w2, Inr (pend, slot1))
    | (w2, Inr None) \<Rightarrow> pass_loop E slot1 (Some opened) (ev_calls E response \<noteq> []) w2)"
  using assms by (subst pass_loop.simps) simp

text \<open>How the turn of a step ends: finally, with a response that asks for nothing, or at the limit.\<close>

lemma pass_turn_ends:
  assumes "pass_turn E opened response w = (w', Inr (Some pend))"
  shows "pend = PassFinal response \<and> ev_calls E response = [] \<or>
    pend = PassStepLimit response \<and> remaining (wk_steps w) = 0"
proof -
  obtain w1 target w2 st where w1: "map_fail StopFault (turn_ref opened) w = (w1, Inr target)"
    and w2: "map_fail StopFault (worker_turn_state E opened) w1 = (w2, Inr st)"
    and ends: "pend = PassFinal response \<and> is_final E response st \<or> pend = PassStepLimit response \<and> remaining (wk_steps w2) = 0"
    using assms unfolding pass_turn_def
    by (elim bind_act_okE) (auto split: if_splits elim!: bind_act_okE)
  have "moves same_steps (map_fail StopFault (turn_ref opened))"
    by (intro moves_rules)
  from moves_pair [OF this w1] have one: "same_steps w w1" .
  have "moves same_steps (map_fail StopFault (worker_turn_state E opened))"
    by (intro moves_rules)
  from moves_pair [OF this w2] one show ?thesis
    using ends by (auto simp: same_steps_def is_final_def)
qed

definition made :: "('c, 'e, 'a, 's, 'p, 'x, 'z) worker \<Rightarrow> nat" where
  "made w = unat (st_made (wk_steps w))"

definition left :: "('c, 'e, 'a, 's, 'p, 'x, 'z) worker \<Rightarrow> nat" where
  "left w = unat (remaining (wk_steps w))"

lemma same_steps_counts: "same_steps w w' \<Longrightarrow> made w' = made w \<and> left w' = left w \<and> settled_parts w w'"
  by (simp add: same_steps_def made_def left_def)

lemma one_step_counts: "one_step w w' \<Longrightarrow> made w \<le> made w' \<and> made w' \<le> made w + 1 \<and> left w' = left w - 1 \<and> settled_parts w w'"
  using unat_u32 [of "st_made (wk_steps w)"]
  by (auto simp: one_step_def made_def left_def) (auto simp: count_step_def unat_sat_inc)

lemma settled_trans: "settled_parts a b \<Longrightarrow> settled_parts b c \<Longrightarrow> settled_parts a c"
  using preorder_settled(1) by (rule preorder_trans)

definition pass_bounds ::
  "('c, 't, 'ai, 'n, 'e, 'a, 's, 'h, 'p, 'x, 'm, 'z) node_env \<Rightarrow> ('c, 'e, 'a, 's, 'p, 'x, 'z) worker \<Rightarrow>
     ('c, 'e, 'a, 's, 'p, 'x, 'z) worker \<Rightarrow> stop + 'n pass_end \<times> 'm slot \<Rightarrow> bool" where
  "pass_bounds E w w' r \<longleftrightarrow> made w \<le> made w' \<and> made w' + left w' \<le> made w + max 1 (left w) \<and> left w' \<le> left w \<and> settled_parts w w' \<and>
     (case r of Inl _ \<Rightarrow> True | Inr (pend, _) \<Rightarrow> left w' < max 1 (left w) \<and>
       (case pend of PassFinal response \<Rightarrow> ev_calls E response = [] | PassStepLimit _ \<Rightarrow> left w' = 0))"

lemma pass_bounds_stop:
  "made w \<le> made w' \<Longrightarrow> made w' + left w' \<le> made w + max 1 (left w) \<Longrightarrow> left w' \<le> left w \<Longrightarrow> settled_parts w w' \<Longrightarrow> pass_bounds E w w' (Inl stopped)"
  by (simp add: pass_bounds_def)

lemma pass_bounds_end:
  "made w \<le> made w' \<Longrightarrow> made w' \<le> made w + 1 \<Longrightarrow> left w' = left w - 1 \<Longrightarrow> settled_parts w w' \<Longrightarrow>
     (case pend of PassFinal response \<Rightarrow> ev_calls E response = [] | PassStepLimit _ \<Rightarrow> left w' = 0) \<Longrightarrow>
     pass_bounds E w w' (Inr (pend, slot))"
  by (auto simp: pass_bounds_def)

lemma pass_bounds_on:
  "made w \<le> made w2 \<Longrightarrow> made w2 \<le> made w + 1 \<Longrightarrow> left w2 = left w - 1 \<Longrightarrow> left w2 \<noteq> 0 \<Longrightarrow> settled_parts w w2 \<Longrightarrow>
     pass_bounds E w2 w' r \<Longrightarrow> pass_bounds E w w' r"
  using settled_trans [of w w2 w'] by (cases r) (auto simp: pass_bounds_def)

lemma pass_loop_bounds:
  "pass_bounds E w (fst (pass_loop E slot turn warn w)) (snd (pass_loop E slot turn warn w))"
proof (induction E slot turn warn w rule: pass_loop.induct)
  case (1 E slot turn warn w)
  obtain w1 r where step: "worker_step E slot turn (if warn then warning_text (remaining (wk_steps w)) else None) w = (w1, r)"
    by fastforce
  show ?case
  proof (cases r)
    case (Inl fault)
    then have "same_steps w w1"
      using step step_fails by blast
    then show ?thesis
      using pass_loop_step_fails [of E slot turn warn w w1 fault] step Inl same_steps_counts [of w w1]
      by (auto intro!: pass_bounds_stop)
  next
    case (Inr rso)
    obtain response slot1 opened where rso: "rso = (response, slot1, opened)"
      by (cases rso) auto
    note one = one_step_counts [OF step_counts [OF step [unfolded Inr]]]
    obtain w2 q where turn: "pass_turn E opened response w1 = (w2, q)"
      by fastforce
    have two: "made w2 = made w1" "left w2 = left w1" "settled_parts w w2"
      using moves_pair [OF same.moves_pass_turn turn] same_steps_counts one settled_trans by blast+
    note loop = pass_loop_step [OF step [unfolded Inr rso]]
    show ?thesis
    proof (cases q)
      case (Inl stopped)
      then show ?thesis
        using loop turn one two by (auto intro!: pass_bounds_stop)
    next
      case ok: (Inr p)
      show ?thesis
      proof (cases p)
        case None
        have pos: "left w2 \<noteq> 0"
          using pass_turn_continues [of E opened response w1 w2] turn ok None two by (simp add: left_def unat_eq_zero)
        have eq: "pass_loop E slot turn warn w = pass_loop E slot1 (Some opened) (ev_calls E response \<noteq> []) w2"
          using loop turn ok None by simp
        show ?thesis
          unfolding eq
          by (rule pass_bounds_on [OF _ _ _ pos two(3) 1 [OF step [symmetric] Inr rso [symmetric] refl turn [symmetric] ok None]])
            (use one two in auto)
      next
        case (Some pend)
        then have "case pend of PassFinal response \<Rightarrow> ev_calls E response = [] | PassStepLimit _ \<Rightarrow> left w2 = 0"
          using turn ok two pass_turn_ends [of E opened response w1 w2 pend] by (auto simp: left_def)
        then show ?thesis
          using loop turn ok one two Some by (auto intro!: pass_bounds_end)
      qed
    qed
  qed
qed

end
