(* ===== verification/Agentic_Demo.thy ===== *)
theory Agentic_Demo
  imports Agentic_Pass
begin

text \<open>
  A concrete agent for the witnesses: the in-memory thread access and inbox, a clock that counts, a
  client that answers every request, whose answers ask for a tool while their ids are below 104, and
  tasks that never end before their timeout.
\<close>

definition demo_closed :: "entry_id \<Rightarrow> bool" where
  "demo_closed n \<longleftrightarrow> 2 ^ 64 \<le> n"

text \<open>A closed turn takes no entry.\<close>

definition demo_push_open :: "uuid \<Rightarrow> entry_id \<Rightarrow> demo_turn list \<Rightarrow> demo_turn list \<times> (cause + unit)" where
  "demo_push_open u n c = (if list_ex (\<lambda>t. fst t = u \<and> list_ex demo_closed (snd (snd t))) c
     then (c, Inl (Cause (Inr ''closed''))) else demo_push_entry u n c)"

definition demo_agent_messages ::
  "(demo_turn list, demo_turn, uuid \<times> agent_id \<times> string \<times> entry_id list, entry_id, entry_id, string) messages" where
  "demo_agent_messages = demo_messages\<lparr>ms_push_entry := demo_push_open, ms_ai_closed := (\<lambda>(_, _, _, ns). list_ex demo_closed ns)\<rparr>"

type_synonym demo_store = "(demo_turn list, demo_turn, entry_id, string, string) thread_state"

definition demo_env :: "(demo_turn list, demo_turn, uuid \<times> agent_id \<times> string \<times> entry_id list, entry_id, entry_id, string,
    demo_store, entry_id \<times> nat, (string, 128 word) memory_inbox, uuid, nat, uuid) node_env" where
  "demo_env = \<lparr>
     ev_messages = demo_agent_messages, ev_access = memory_access demo_uuids demo_agent_messages, ev_entries = demo_entries,
     ev_inbox = Some (memory_inbox_port demo_uuids demo_entries),
     ev_fresh = (\<lambda>x. (x + 1, Inr x)), ev_cancelled = (\<lambda>x. False), ev_project = (\<lambda>agent c. 0),
     ev_entry_list = (\<lambda>c. concat (map (\<lambda>(u, ai, ns). map (\<lambda>n. (n, if ai = None then RefIncoming else RefTurn False)) ns) c)),
     ev_notice = (\<lambda>i t. Inr 0), ev_push_notice = (\<lambda>u note h. Inr h),
     ev_request = (\<lambda>sys h turn i ts shape. Inr i), ev_call = (\<lambda>m q h d sx. (sx, Some (Inr q))),
     ev_calls = (\<lambda>n. if n < 104 then [\<lparr>ca_id = 1, ca_name = ''t'', ca_arguments = 0\<rparr>] else []),
     ev_ending = (\<lambda>n. EndsFinished), ev_blocks = (\<lambda>n. [BlockOther]), ev_response_of = (\<lambda>n. \<not> demo_closed n),
     ev_ai_state = (\<lambda>(u, a, au, ns). \<lparr>tu_outstanding = [], tu_pending = [], tu_last_ending = Some EndsFinished,
       tu_closure = (if list_ex demo_closed ns then Some ClosedCompleted else None)\<rparr>),
     ev_ai_entries = (\<lambda>(u, a, au, ns). ns), ev_closure = (\<lambda>i r. or i (2 ^ 64)), ev_reason = (\<lambda>t. Inr ()),
     ev_spec_name = (\<lambda>z. if z = 3 then ''t'' else []),
     ev_blocks_of = \<lparr>bo_plain_text = (\<lambda>t. Inr 0), bo_text = (\<lambda>i t. Inr 0), bo_image = (\<lambda>i z. z), bo_structured = (\<lambda>i z. Inr z),
       bo_result = (\<lambda>i call name err bs. Inr 0)\<rparr>,
     ev_results = (\<lambda>i z. Inr i), ev_show_duration = show_nat, ev_join = (\<lambda>running sx. (sx, 0, JoinElapsed)),
     ev_poll_read = (\<lambda>spx. (spx, None)), ev_mail_entry = (\<lambda>known. demo_build),
     ev_mail_tools = (\<lambda>context author c. Inr [])\<rparr>"

definition demo_worker ::
  "uuid \<Rightarrow> u32 \<Rightarrow> (demo_turn list, 128 word, string, demo_store, (string, 128 word) memory_inbox, uuid, uuid) worker" where
  "demo_worker now limit = \<lparr>wk_session = demo_session, wk_store = record_call (CallRead (ThreadRef 1)) demo_thread,
     wk_inbox = demo_box, wk_outside = now, wk_context = demo_context, wk_queue = [], wk_reading = False,
     wk_author = Some ''bot'', wk_system = None, wk_shape = None, wk_tools = ToolSet [\<lparr>tl_spec = 3, tl_code = 0\<rparr>],
     wk_files = None, wk_steps = steps_new (StepLimit limit), wk_timeouts = \<lparr>to_model_call = 1, to_tool_call = 1\<rparr>,
     wk_counters = counters_default, wk_agents = [2], wk_known = [(2, ''bot'')], wk_gate = []\<rparr>"

definition demo_client :: "nat slot" where
  "demo_client = slot_new (FallbackList [\<lparr>mc_client = 1, mc_expectation = NotExpected\<rparr>])"

end
