(* ===== verification/Agentic_Faults.thy ===== *)
theory Agentic_Faults
  imports Agentic_Limits
begin

text \<open>
  What a fault of an agent says: its \<open>Display\<close>, its sources and \<open>Fault::detail\<close>, which joins their texts
  (\<open>fault.rs\<close> of \<open>br-agentic-nodes\<close>; the displays of the errors of \<open>br-agentic-contract\<close>: \<open>error.rs\<close>,
  \<open>rules.rs\<close>, \<open>boundary.rs\<close>, \<open>tool.rs\<close>). The cause of a port, of a tool or of the rules is an error of the
  host: its \<open>Display\<close> may panic (\<open>Inl\<close>), and the panic is the one of whoever asked for the text.
\<close>

text \<open>
  What lies outside: the texts of ids and durations, the sources of an error of the host below the error
  itself and those of an error of a client.
\<close>

record fault_texts =
  ft_uuids :: uuid_ops
  ft_duration :: "duration \<Rightarrow> string"
  ft_sources :: "cause \<Rightarrow> (string + string) list"
  ft_client :: "string \<Rightarrow> (string + string) list"

section \<open>Displays and sources\<close>

fun port_display :: "port_error \<Rightarrow> string + string" where
  "port_display (Refused r) = Inr (''the request was refused: '' @ as_str r)"
| "port_display (Fault c) = Inr ''a port failed''"

fun port_sources :: "fault_texts \<Rightarrow> port_error \<Rightarrow> (string + string) list" where
  "port_sources T (Refused r) = []"
| "port_sources T (Fault c) = display c # ft_sources T c"

definition session_display :: "fault_texts \<Rightarrow> session_error \<Rightarrow> string + string" where
  "session_display T e = display (session_cause (ft_uuids T) e)"

fun session_sources :: "fault_texts \<Rightarrow> session_error \<Rightarrow> (string + string) list" where
  "session_sources T (Rules c) = display c # ft_sources T c"
| "session_sources T (WrongTurn t) = []"
| "session_sources T (WrongMailEntry m) = []"
| "session_sources T (Port e) = port_sources T e"

definition BOUNDARY_TEXT :: string where "BOUNDARY_TEXT = ''the instance faulted at the boundary''"

definition TOOL_TEXT :: string where "TOOL_TEXT = ''a tool faulted''"

fun call_display :: "fault_texts \<Rightarrow> call_failure \<Rightarrow> string" where
  "call_display T (ClientFailed t) = ''the client failed: '' @ t"
| "call_display T (CallTimeout d) = ''the call exceeded its timeout of '' @ ft_duration T d"
| "call_display T NoThinking =
     ''the runner declared that the model should think, and the response holds no thinking block''"
| "call_display T NoStructuredReply = ''the agent has a shape, and its final response holds no structured block''"
| "call_display T (UnusableAnswer t) = ''the answer of the critic is unusable: '' @ t"

fun call_sources :: "fault_texts \<Rightarrow> call_failure \<Rightarrow> (string + string) list" where
  "call_sources T (ClientFailed t) = Inr t # ft_client T t"
| "call_sources T _ = []"

fun fault_display :: "fault_texts \<Rightarrow> fault \<Rightarrow> string + string" where
  "fault_display T (FaultPort e) = port_display e"
| "fault_display T (FaultSession e) = session_display T e"
| "fault_display T (FaultBoundary b) = Inr (''the queue could not be stored: '' @ BOUNDARY_TEXT)"
| "fault_display T (FaultTool c) = Inr TOOL_TEXT"
| "fault_display T (FaultDuplicateTool name) =
     Inr (''the tool name '' @ name @ '' appears twice among the tools of an instance'')"
| "fault_display T (FaultModel e) = Inr (call_display T e)"
| "fault_display T (FaultValue t) = Inr (''a value is refused: '' @ t)"
| "fault_display T (FaultSandbox t) = Inr (''the workspace port gave a path outside the sandbox: '' @ t)"
| "fault_display T (CriticAtStepLimit m) = Inr (''the critic did not validate at the step limit: '' @ m)"
| "fault_display T (CriticAtRoundLimit m) = Inr (''the critic did not validate at the round limit: '' @ m)"
| "fault_display T (ProgrammaticRefusal r) = Inr (''the programmatic critic refused: '' @ r)"
| "fault_display T BlankExplicitReason = Inr ''the programmatic critic refused with a blank explicit reason''"
| "fault_display T (FaultPanic t) = Inr (''a panic: '' @ t)"

text \<open>A transparent variant has the sources of what it wraps; the others the error they carry, if any.\<close>

fun fault_sources :: "fault_texts \<Rightarrow> fault \<Rightarrow> (string + string) list" where
  "fault_sources T (FaultPort e) = port_sources T e"
| "fault_sources T (FaultSession e) = session_sources T e"
| "fault_sources T (FaultBoundary b) =
     Inr BOUNDARY_TEXT # session_display T (be_fault b) # session_sources T (be_fault b)"
| "fault_sources T (FaultTool c) = display c # ft_sources T c"
| "fault_sources T (FaultModel e) = call_sources T e"
| "fault_sources T _ = []"

section \<open>The detail\<close>

text \<open>The loop of \<open>Fault::detail\<close>: a text repeated is taken once; the first display that panics ends it.\<close>

definition push_detail :: "string list \<Rightarrow> string \<Rightarrow> string list" where
  "push_detail parts t = (if parts \<noteq> [] \<and> last parts = t then parts else parts @ [t])"

fun detail_loop :: "string list \<Rightarrow> (string + string) list \<Rightarrow> string + string" where
  "detail_loop parts [] = Inr (join_with '': '' parts)"
| "detail_loop parts (Inl panicked # rest) = Inl panicked"
| "detail_loop parts (Inr t # rest) = detail_loop (push_detail parts t) rest"

definition fault_detail :: "fault_texts \<Rightarrow> fault \<Rightarrow> string + string" where
  "fault_detail T f = bind_sum (fault_display T f) (\<lambda>t. detail_loop [t] (fault_sources T f))"

text \<open>The fault as the cause of the terminal event, with its \<open>Display\<close>.\<close>

definition fault_cause :: "fault_texts \<Rightarrow> fault \<Rightarrow> cause" where
  "fault_cause T f = Cause (fault_display T f)"

section \<open>Which faults have a text\<close>

lemma detail_loop_Inl: "(\<exists>p. detail_loop parts ss = Inl p) \<longleftrightarrow> (\<exists>p. Inl p \<in> set ss)"
  by (induction parts ss rule: detail_loop.induct) auto

text \<open>The errors of the host that a fault carries.\<close>

fun port_causes :: "port_error \<Rightarrow> cause list" where
  "port_causes (Refused r) = []"
| "port_causes (Fault c) = [c]"

fun session_causes :: "session_error \<Rightarrow> cause list" where
  "session_causes (Rules c) = [c]"
| "session_causes (Port e) = port_causes e"
| "session_causes _ = []"

fun fault_causes :: "fault \<Rightarrow> cause list" where
  "fault_causes (FaultPort e) = port_causes e"
| "fault_causes (FaultSession e) = session_causes e"
| "fault_causes (FaultBoundary b) = session_causes (be_fault b)"
| "fault_causes (FaultTool c) = [c]"
| "fault_causes _ = []"

definition can_show :: "fault_texts \<Rightarrow> cause \<Rightarrow> bool" where
  "can_show T c \<longleftrightarrow> (\<forall>s \<in> set (display c # ft_sources T c). is_ok s)"

lemma is_ok_Inl: "is_ok s \<longleftrightarrow> (\<forall>p. s \<noteq> Inl p)"
  by (cases s) simp_all

lemma port_shown: "(\<forall>c \<in> set (port_causes e). can_show T c) \<longleftrightarrow> (\<forall>s \<in> set (port_sources T e). is_ok s)"
  by (cases e) (simp_all add: can_show_def)

lemma session_shown:
  "(\<forall>c \<in> set (session_causes e). can_show T c) \<longleftrightarrow>
     is_ok (session_display T e) \<and> (\<forall>s \<in> set (session_sources T e). is_ok s)"
proof (cases e)
  case (Rules c)
  then show ?thesis
    by (cases "display c") (auto simp: can_show_def session_display_def prefixed_def)
next
  case (Port p)
  then show ?thesis
    using port_shown [of p T] by (cases p) (simp_all add: session_display_def)
qed (simp_all add: session_display_def)

text \<open>\<open>detail\<close> gives a text unless an error of the host that the fault carries panics when it is shown.\<close>

lemma fault_detail_shown:
  assumes "\<forall>c \<in> set (fault_causes f). can_show T c" "\<forall>t. \<forall>s \<in> set (ft_client T t). is_ok s"
  obtains t where "fault_detail T f = Inr t"
proof -
  have "is_ok (fault_display T f) \<and> (\<forall>s \<in> set (fault_sources T f). is_ok s)"
  proof (cases f)
    case (FaultPort e)
    then show ?thesis using assms(1) port_shown [of e T] by (cases e) simp_all
  next
    case (FaultModel e)
    then show ?thesis using assms(2) by (cases e) simp_all
  qed (use assms(1) session_shown in \<open>simp_all add: can_show_def\<close>)
  then obtain t where t: "fault_display T f = Inr t" and ok: "\<nexists>p. Inl p \<in> set (fault_sources T f)"
    by (cases "fault_display T f") (auto simp: is_ok_Inl)
  obtain d where "detail_loop [t] (fault_sources T f) = Inr d"
    using ok detail_loop_Inl [of "[t]" "fault_sources T f"] by (cases "detail_loop [t] (fault_sources T f)") auto
  then show ?thesis
    using that t by (simp add: fault_detail_def)
qed

end
