(* ===== verification/Agentic_React.thy ===== *)
theory Agentic_React
  imports Agentic_Demo Agentic_Faults "HOL-Library.Multiset"
begin

text \<open>
  The start of an agent (\<open>start.rs\<close>, \<open>seats.rs\<close>, \<open>config.rs\<close>), the run of its instance (\<open>run.rs\<close>,
  \<open>signals.rs\<close>) and the work of the \<open>ReactAgent\<close> (\<open>react.rs\<close>) of \<open>br-agentic-nodes\<close>. The ports of the
  node work on the outside; the outside also decides, at each race of the run, whether the work is
  done, cancelled or dropped, and where a cancelled work was cut.
\<close>

section \<open>The ports and the seats\<close>

datatype ('f, 'x, 'a) author_source = AuthorFixed 'a | AuthorPort "'f \<Rightarrow> agent_label \<Rightarrow> 'x \<Rightarrow> 'x \<times> (port_error + string)"

record ('f, 'u, 'x, 'a, 'z) node_ports =
  np_thread :: "'f \<Rightarrow> 'x \<Rightarrow> 'x \<times> (port_error + thread_ref)"
  np_agent :: "'f \<Rightarrow> uuid \<Rightarrow> agent_label \<Rightarrow> 'x \<Rightarrow> 'x \<times> (port_error + agent_id)"
  np_prompt :: "'f \<Rightarrow> agent_label \<Rightarrow> 'x \<Rightarrow> 'x \<times> (port_error + string)"
  np_tools :: "'f \<Rightarrow> uuid \<Rightarrow> 'x \<Rightarrow> 'x \<times> (port_error + ('z, 'z) tool list)"
  np_workspace :: "('x, 'f) workspace_port"
  np_shape :: "('f \<Rightarrow> agent_label \<Rightarrow> 'x \<Rightarrow> 'x \<times> (port_error + 'z option)) option"
  np_plain_text :: "string \<Rightarrow> string + 'z"
  np_author_new :: "string \<Rightarrow> string + 'a"
  np_show_sandbox :: "sandbox_error \<Rightarrow> string"

record ('f, 'x, 'a) seat_spec =
  sp_label :: string
  sp_author :: "('f, 'x, 'a) author_source"
  sp_prompt :: bool
  sp_shape :: bool

record ('a, 'z) seat =
  se_label :: agent_label
  se_agent :: agent_id
  se_author :: 'a
  se_system :: "'z option"
  se_shape :: "'z option"

definition main_seat :: "('a, 'z) seat list \<Rightarrow> fault + ('a, 'z) seat" where
  "main_seat seats = (case seats of s # _ \<Rightarrow> Inr s | [] \<Rightarrow> Inl (FaultValue ''the node has no agent''))"

definition get_seat :: "('a, 'z) seat list \<Rightarrow> string \<Rightarrow> fault + ('a, 'z) seat" where
  "get_seat seats label = (case find (\<lambda>s. se_label s = AgentLabel label) seats of
     Some s \<Rightarrow> Inr s | None \<Rightarrow> Inl (FaultValue (''the node has no agent '' @ label)))"

text \<open>A call of a port.\<close>

definition on_port :: "('x \<Rightarrow> 'x \<times> (port_error + 'r)) \<Rightarrow> ('c, 'e, 'a, 's, 'p, 'x, 'z, fault, 'r) wact" where
  "on_port op w = (case op (wk_outside w) of (x, r) \<Rightarrow> (w\<lparr>wk_outside := x\<rparr>, map_inl FaultPort r))"

definition resolve_author ::
  "('f, 'u, 'x, 'a, 'z) node_ports \<Rightarrow> ('f, 'x, 'a) author_source \<Rightarrow> 'f \<Rightarrow> agent_label \<Rightarrow>
     ('c, 'e, 'a, 's, 'p, 'x, 'z, fault, 'a) wact" where
  "resolve_author Q source snapshot label = (case source of
     AuthorFixed author \<Rightarrow> ret_act author
   | AuthorPort port \<Rightarrow> bind_act (on_port (port snapshot label)) (\<lambda>name. lift_sum FaultValue (np_author_new Q name)))"

section \<open>The start\<close>

definition agent_label_of :: "string \<Rightarrow> fault + agent_label" where
  "agent_label_of label = map_inl (\<lambda>_. FaultValue ''an agent label has a non-empty text'') (agent_label_new label)"

definition begin_seat ::
  "('f, 'u, 'x, 'a, 'z) node_ports \<Rightarrow> 'f \<Rightarrow> ('f, 'x, 'a) seat_spec \<times> agent_label \<times> agent_id \<Rightarrow>
     ('c, 'e, 'a, 's, 'p, 'x, 'z, fault, ('a, 'z) seat) wact" where
  "begin_seat Q snapshot = (\<lambda>(spec, label, agent).
     bind_act (if sp_prompt spec
       then bind_act (on_port (np_prompt Q snapshot label)) (\<lambda>t.
         bind_act (lift_sum FaultValue (np_plain_text Q t)) (\<lambda>p. ret_act (Some p)))
       else ret_act None) (\<lambda>system.
     bind_act (case np_shape Q of
         None \<Rightarrow> ret_act None
       | Some port \<Rightarrow> if sp_shape spec then on_port (port snapshot label) else ret_act None) (\<lambda>shape.
     bind_act (resolve_author Q (sp_author spec) snapshot label) (\<lambda>author.
     ret_act \<lparr>se_label = label, se_agent = agent, se_author = author, se_system = system, se_shape = shape\<rparr>))))"

text \<open>What \<open>begin\<close> does between the closing of the open turns and the first boundary.\<close>

definition begin_seats ::
  "('c, 't, 'ai, 'n, 'e, 'a, 's, 'h, 'p, 'x, 'm, 'z) node_env \<Rightarrow> ('f, 'u, 'x, 'a, 'z) node_ports \<Rightarrow> file_system_mode \<Rightarrow>
     'f \<Rightarrow> uuid \<Rightarrow> ('f, 'x, 'a) seat_spec list \<Rightarrow> (agent_label \<times> agent_id) list \<Rightarrow>
     ('c, 'e, 'a, 's, 'p, 'x, 'z, fault, ('a, 'z) seat list) wact" where
  "begin_seats E Q mode snapshot inst seat_specs agents =
     bind_act (each_act (begin_seat Q snapshot) (zip seat_specs agents)) (\<lambda>seats.
     bind_act (lift_sum (\<lambda>f. f) (main_seat seats)) (\<lambda>main.
     bind_act (put_act (\<lambda>w. w\<lparr>wk_author := Some (se_author main), wk_system := se_system main, wk_shape := se_shape main,
       wk_known := [(se_agent main, se_author main)]\<rparr>)) (\<lambda>_.
     bind_act (on_port (np_tools Q snapshot inst)) (\<lambda>tools.
     bind_act (worker_mail_tools E) (\<lambda>mail.
     bind_act (lift_sum FaultDuplicateTool (tool_set_new (ev_spec_name E) tools mail)) (\<lambda>ts.
     bind_act (put_act (\<lambda>w. w\<lparr>wk_tools := ts\<rparr>)) (\<lambda>_.
     bind_act (on_port (mode_start mode (np_workspace Q) snapshot)) (\<lambda>loaded.
     bind_act (lift_sum (\<lambda>e. FaultSandbox (np_show_sandbox Q e)) (case loaded of
         None \<Rightarrow> Inr None
       | Some files \<Rightarrow> (case from_files files of Inl e \<Rightarrow> Inl e | Inr system \<Rightarrow> Inr (Some system)))) (\<lambda>files.
     bind_act (put_act (\<lambda>w. w\<lparr>wk_files := files\<rparr>)) (\<lambda>_.
     ret_act seats))))))))))"

definition worker_begin ::
  "('c, 't, 'ai, 'n, 'e, 'a, 's, 'h, 'p, 'x, 'm, 'z) node_env \<Rightarrow> ('f, 'u, 'x, 'a, 'z) node_ports \<Rightarrow> file_system_mode \<Rightarrow>
     'f \<Rightarrow> uuid \<Rightarrow> ('f, 'x, 'a) seat_spec list \<Rightarrow> (agent_label \<times> agent_id) list \<Rightarrow>
     ('c, 'e, 'a, 's, 'p, 'x, 'z) worker \<Rightarrow> (('c, 'e, 'a, 's, 'p, 'x, 'z) worker \<times> (fault + ('a, 'z) seat list)) option" where
  "worker_begin E Q mode snapshot inst seat_specs agents w =
     (if length seat_specs \<noteq> length agents then Some (w, Inl (FaultValue ''the node has not one agent for each seat''))
      else case close_open_turns E ClosedInterrupted True (w\<lparr>wk_agents := map snd agents\<rparr>) of
        None \<Rightarrow> None
      | Some (w, Inl fault) \<Rightarrow> Some (w, Inl fault)
      | Some (w, Inr _) \<Rightarrow> (case begin_seats E Q mode snapshot inst seat_specs agents w of
          (w, Inl fault) \<Rightarrow> Some (w, Inl fault)
        | (w, Inr seats) \<Rightarrow> map_option (\<lambda>(w, r). (w, map_inr (\<lambda>_. seats) r)) (drain_at_start E w)))"

definition worker_finish ::
  "('f, 'u, 'x, 'a, 'z) node_ports \<Rightarrow> 'f \<Rightarrow> 'u \<Rightarrow> ('c, 'e, 'a, 's, 'p, 'x, 'z, fault, 'u) wact" where
  "worker_finish Q snapshot update =
     bind_act (get_act (\<lambda>w. map_option into_files (wk_files w))) (\<lambda>files.
     bind_act (put_act (\<lambda>w. w\<lparr>wk_files := None\<rparr>)) (\<lambda>_.
     bind_act (on_port (save_files (np_workspace Q) snapshot files)) (\<lambda>_. ret_act update)))"

section \<open>The work of the ReactAgent\<close>

record 'n react_outcome =
  ro_response :: 'n
  ro_steps :: u32
  ro_step_limit_reached :: bool

text \<open>Whether a final response is followed by another pass: mail came in and steps remain.\<close>

definition react_again ::
  "('c, 't, 'ai, 'n, 'e, 'a, 's, 'h, 'p, 'x, 'm, 'z) node_env \<Rightarrow> 'n pass_end \<Rightarrow> ('c, 'e, 'a, 's, 'p, 'x, 'z, fault, bool) wact" where
  "react_again E pend = bind_act (get_act (\<lambda>w. remaining (wk_steps w))) (\<lambda>rest.
     if \<not> step_limit_reached pend \<and> ev_inbox E \<noteq> None \<and> rest > 0
     then bind_act (drain E) (\<lambda>drained. ret_act (dr_stored drained > 0))
     else ret_act False)"

lemma moves_again [moves_rules]: "moves same_steps (react_again E pend)"
  unfolding react_again_def by (intro moves_rules preorder_settled)

lemma react_again_left:
  assumes "react_again E pend w = (w', Inr True)"
  shows "left w \<noteq> 0"
  using assms by (auto simp: react_again_def left_def unat_eq_zero split: if_splits)

function react_loop ::
  "('c, 't, 'ai, 'n, 'e, 'a, 's, 'h, 'p, 'x, 'm, 'z) node_env \<Rightarrow> 'm slot \<Rightarrow> ('c, 'e, 'a, 's, 'p, 'x, 'z) worker \<Rightarrow>
     ('c, 'e, 'a, 's, 'p, 'x, 'z) worker \<times> (stop + 'n pass_end)" where
  "react_loop E slot w = (case worker_pass E slot w of
     (w1, Inl stopped) \<Rightarrow> (w1, Inl stopped)
   | (w1, Inr (pend, slot1)) \<Rightarrow> (case react_again E pend w1 of
       (w2, Inl fault) \<Rightarrow> (w2, Inl (StopFault fault))
     | (w2, Inr again) \<Rightarrow> if again then react_loop E slot1 w2 else (w2, Inr pend)))"
  by pat_completeness auto
termination
proof (relation "measure (\<lambda>(E, slot, w). left w)", goal_cases)
  case 1
  show ?case by simp
next
  case (2 E slot w w1 s1 r pend slot1 w2 s2 again)
  have pass: "worker_pass E slot w = (w1, Inr (pend, slot1))" and on: "react_again E pend w1 = (w2, Inr True)"
    using 2 by simp_all
  have "left w1 < max 1 (left w)"
    using pass_loop_bounds [of E w slot None False] pass by (simp add: worker_pass_def pass_bounds_def)
  moreover have "left w2 = left w1"
    using moves_pair [OF moves_again on] same_steps_counts by blast
  moreover have "left w1 \<noteq> 0"
    using on by (rule react_again_left)
  ultimately show ?case by simp
qed

declare react_loop.simps [simp del]

definition react_execute ::
  "('c, 't, 'ai, 'n, 'e, 'a, 's, 'h, 'p, 'x, 'm, 'z) node_env \<Rightarrow> ('f, 'u, 'x, 'a, 'z) node_ports \<Rightarrow> 'm fallback_list \<Rightarrow>
     ('f \<Rightarrow> 'n react_outcome \<Rightarrow> 'x \<Rightarrow> 'x \<times> (port_error + 'u)) \<Rightarrow> 'f \<Rightarrow> ('c, 'e, 'a, 's, 'p, 'x, 'z, stop, 'u) wact" where
  "react_execute E Q fallback outcome snapshot =
     bind_act (get_act (restored E)) (\<lambda>kept.
     bind_act (case kept of None \<Rightarrow> react_loop E (slot_new fallback) | Some pend \<Rightarrow> ret_act pend) (\<lambda>pend.
     bind_act (get_act (\<lambda>w. \<lparr>ro_response = into_response pend, ro_steps = st_made (wk_steps w),
       ro_step_limit_reached = step_limit_reached pend\<rparr>)) (\<lambda>out.
     bind_act (map_fail StopFault (on_port (outcome snapshot out))) (\<lambda>update.
     map_fail StopFault (worker_finish Q snapshot update)))))"


section \<open>The run of an instance\<close>

datatype 'r raced = RacedGone | RacedCancelled | RacedDone 'r

text \<open>What the biased select of a race answers: the outside drops the instance, cancels it, or lets the work end.\<close>

datatype race_choice = ChoiceGone | ChoiceCancelled | ChoiceReady

definition race :: "race_choice \<Rightarrow> 'r \<Rightarrow> 'r raced" where
  "race choice r = (case choice of ChoiceGone \<Rightarrow> RacedGone | ChoiceCancelled \<Rightarrow> RacedCancelled | ChoiceReady \<Rightarrow> RacedDone r)"

text \<open>\<open>settle\<close>: the input end is closed and emptied, the event is sent, the sender is dropped.\<close>

definition settle_core :: "'u event \<Rightarrow> ('i, 'u event) inner \<Rightarrow> ('i, 'u event) inner" where
  "settle_core event core = fst (sender_gone (fst (finish (fst (Instance_Core.drain (fst (close_input core)))) event)))"

type_synonym ('c, 'e, 'a, 's, 'p, 'x, 'z, 'i, 'u) concluded =
  "('c, 'e, 'a, 's, 'p, 'x, 'z) worker \<times> ('i, 'u event) inner \<times> 'u event option"

text \<open>An end of the session, then the settlement.\<close>

definition end_with ::
  "(('c session \<times> 's) \<Rightarrow> ('i, 'u event) inner \<Rightarrow> (('c session \<times> 's) \<times> ('i, 'u event) inner) \<times> 'u event) \<Rightarrow>
     ('c, 'e, 'a, 's, 'p, 'x, 'z) worker \<Rightarrow> ('i, 'u event) inner \<Rightarrow> ('c, 'e, 'a, 's, 'p, 'x, 'z, 'i, 'u) concluded" where
  "end_with ends w core = (case ends (wk_session w, wk_store w) core of
     (((S, s), core), event) \<Rightarrow> (w\<lparr>wk_session := S, wk_store := s\<rparr>, settle_core event core, Some event))"

definition discard_open ::
  "('c, 't, 'ai, 'n, 'e, 'a, 's, 'h, 'p, 'x, 'm, 'z) node_env \<Rightarrow> ('c, 'e, 'a, 's, 'p, 'x, 'z) worker \<Rightarrow> ('c, 'e, 'a, 's, 'p, 'x, 'z) worker" where
  "discard_open E w = (case discard_all (ev_access E) (wk_session w, wk_store w) of
     ((S, s), _) \<Rightarrow> w\<lparr>wk_session := S, wk_store := s\<rparr>)"

definition failed_reason ::
  "('c, 't, 'ai, 'n, 'e, 'a, 's, 'h, 'p, 'x, 'm, 'z) node_env \<Rightarrow> string \<Rightarrow> closure_reason option" where
  "failed_reason E detail = (if is_ok (ev_reason E detail) then Some (ClosedFailed detail)
     else if is_ok (ev_reason E ''the instance failed'') then Some (ClosedFailed ''the instance failed'') else None)"

text \<open>
  \<open>conclude\<close> itself is not guarded: \<open>Fault::detail\<close> asks the errors of the host for their texts, and a
  panic there ends the task. The sender is then dropped without an event, as it is for a dropped instance.
\<close>

definition conclude ::
  "('c, 't, 'ai, 'n, 'e, 'a, 's, 'h, 'p, 'x, 'm, 'z) node_env \<Rightarrow> fault_texts \<Rightarrow>
     ('c, 'e, 'a, 's, 'p, 'x, 'z) worker \<Rightarrow> ('i, 'u event) inner \<Rightarrow> (stop + 'u) raced \<Rightarrow>
     ('c, 'e, 'a, 's, 'p, 'x, 'z, 'i, 'u) concluded option" where
  "conclude E T w core raced = (let w = stop_read w; A = ev_access E in
     case raced of
       RacedGone \<Rightarrow> Some (w, fst (sender_gone core), None)
     | RacedCancelled \<Rightarrow> map_option (\<lambda>(w, _). end_with (end_cancelled A) w core)
         (close_open_turns E ClosedCancelled False (discard_open E w))
     | RacedDone (Inl StopCancelled) \<Rightarrow> map_option (\<lambda>(w, _). end_with (end_cancelled A) w core)
         (close_open_turns E ClosedCancelled False (discard_open E w))
     | RacedDone (Inl (StopFault fault)) \<Rightarrow>
         (case fault_detail T fault of
            Inl panicked \<Rightarrow> Some (discard_open E w, fst (sender_gone core), None)
          | Inr detail \<Rightarrow> (case failed_reason E detail of
              None \<Rightarrow> Some (end_with (end_failed A (fault_cause T fault)) (discard_open E w) core)
            | Some reason \<Rightarrow> map_option (\<lambda>(w, _). end_with (end_failed A (fault_cause T fault)) w core)
                (close_open_turns E reason False (discard_open E w))))
     | RacedDone (Inr update) \<Rightarrow> Some (end_with (end_result A update) w core))"

text \<open>\<open>bare_end\<close>: the event of an instance that ends before it has a worker.\<close>

definition bare_end :: "fault_texts \<Rightarrow> (stop + 'r) raced \<Rightarrow> 'u event option" where
  "bare_end T raced = (case raced of
     RacedGone \<Rightarrow> None
   | RacedDone (Inr _) \<Rightarrow> None
   | RacedCancelled \<Rightarrow> Some EvCancelled
   | RacedDone (Inl StopCancelled) \<Rightarrow> Some EvCancelled
   | RacedDone (Inl (StopFault fault)) \<Rightarrow> Some (EvFailed (fault_cause T fault)))"

section \<open>The end of every instance\<close>

lemma discard_all_objects:
  "se_responses (fst (fst (discard_all A Ss))) = [] \<and> se_results (fst (fst (discard_all A Ss))) = [] \<and>
   se_conversation (fst (fst (discard_all A Ss))) = se_conversation (fst Ss)"
  by (simp add: discard_all_def case_prod_unfold)

lemma end_with_objects:
  assumes "\<And>Ss core. fst (fst (ends Ss core)) = fst (discard_all A Ss)"
  shows "open_objects (wk_session (fst (end_with ends w core))) = 0"
    "se_conversation (wk_session (fst (end_with ends w core))) = se_conversation (wk_session w)"
  using assms [of "(wk_session w, wk_store w)" core] discard_all_objects [of A "(wk_session w, wk_store w)"]
  by (simp_all add: end_with_def open_objects_def case_prod_unfold)

lemma ends_discard:
  "fst (fst (end_cancelled A Ss core)) = fst (discard_all A Ss)"
  "fst (fst (end_failed A cause Ss core)) = fst (discard_all A Ss)"
  "fst (fst (end_result A update Ss core)) = fst (discard_all A Ss)"
  by (simp_all add: end_cancelled_def end_failed_def end_result_def case_prod_unfold)


section \<open>The closing of open turns\<close>

definition open_turns :: "('c, 't, 'ai, 'n, 'e, 'a) messages \<Rightarrow> 'c \<Rightarrow> nat" where
  "open_turns M c = length (filter (\<lambda>ai. \<not> ms_ai_closed M ai) (List.map_filter (ms_as_ai M) (ms_turns M c)))"

definition no_open_turn :: "('c, 't, 'ai, 'n, 'e, 'a) messages \<Rightarrow> 'c \<Rightarrow> agent_id \<Rightarrow> bool" where
  "no_open_turn M c agent \<longleftrightarrow>
     (\<forall>ai \<in> set (List.map_filter (ms_as_ai M) (ms_turns M c)). ms_ai_agent M ai = agent \<longrightarrow> ms_ai_closed M ai)"

lemma open_ai_turn_None: "open_ai_turn M S agent = None \<longleftrightarrow> no_open_turn M (se_conversation S) agent"
  by (auto simp: open_ai_turn_def no_open_turn_def find_None_iff in_set_map_filter)

text \<open>What \<open>br-llm-messages\<close> promises of an accepted closure: it closes a turn that was open and opens none.\<close>

definition closing_laws :: "('c, 't, 'ai, 'n, 'e, 'a, 's, 'h, 'p, 'x, 'm, 'z) node_env \<Rightarrow> bool" where
  "closing_laws E \<longleftrightarrow> (\<forall>turn i reason c c' r.
     apply_closure (ev_messages E) turn (ev_closure E i reason) c = (c', r) \<longrightarrow>
       (r = Inr () \<longrightarrow> open_turns (ev_messages E) c' < open_turns (ev_messages E) c) \<and>
       (\<forall>agent. no_open_turn (ev_messages E) c agent \<longrightarrow> no_open_turn (ev_messages E) c' agent))"

definition conversation :: "('c, 'e, 'a, 's, 'p, 'x, 'z) worker \<Rightarrow> 'c" where
  "conversation w = se_conversation (wk_session w)"

lemma close_turn_conversation:
  "se_conversation (fst (fst (close_turn M A turn n Ss))) = fst (apply_closure M turn n (se_conversation (fst Ss)))"
  "snd (close_turn M A turn n Ss) = Inr () \<Longrightarrow> snd (apply_closure M turn n (se_conversation (fst Ss))) = Inr ()"
  by (auto simp: close_turn_def case_prod_unfold split: sum.splits unit.splits prod.splits)

lemma new_id_conversation [simp]: "conversation (fst (new_id E w)) = conversation w"
  by (simp add: new_id_def conversation_def case_prod_unfold)

lemma worker_close_turn_cases:
  "conversation (fst (worker_close_turn E turn reason w)) = conversation w \<and> \<not> is_ok (snd (worker_close_turn E turn reason w)) \<or>
   (\<exists>i. conversation (fst (worker_close_turn E turn reason w)) =
       fst (apply_closure (ev_messages E) turn (ev_closure E i reason) (conversation w)) \<and>
     (is_ok (snd (worker_close_turn E turn reason w)) \<longrightarrow>
       snd (apply_closure (ev_messages E) turn (ev_closure E i reason) (conversation w)) = Inr ()))"
proof (cases "snd (new_id E w)")
  case (Inl f)
  then show ?thesis
    by (simp add: worker_close_turn_def bind_act_Inl)
next
  case (Inr i)
  obtain w1 where w1: "w1 = fst (new_id E w)" "conversation w1 = conversation w"
    by simp
  have eq: "worker_close_turn E turn reason w =
      on_session FaultSession (close_turn (ev_messages E) (ev_access E) turn (ev_closure E i reason)) w1"
    using Inr by (simp add: worker_close_turn_def bind_act_Inr w1(1))
  note c = close_turn_conversation [of "ev_messages E" "ev_access E" turn "ev_closure E i reason" "(wk_session w1, wk_store w1)"]
  have "is_ok r \<longleftrightarrow> r = Inr ()" for r :: "session_error + unit"
    by (cases r) auto
  then show ?thesis
    unfolding eq using c w1(2) by (intro disjI2 exI [of _ i]) (simp add: on_session_def conversation_def case_prod_unfold)
qed

definition closes_agents ::
  "('c, 't, 'ai, 'n, 'e, 'a, 's, 'h, 'p, 'x, 'm, 'z) node_env \<Rightarrow> bool \<Rightarrow> agent_id list \<Rightarrow> ('c, 'e, 'a, 's, 'p, 'x, 'z) worker \<Rightarrow>
     (('c, 'e, 'a, 's, 'p, 'x, 'z) worker \<times> (fault + unit)) option \<Rightarrow> bool" where
  "closes_agents E strict agents w out \<longleftrightarrow> (\<exists>w' r. out = Some (w', r) \<and> same_steps w w' \<and>
     (\<forall>agent. no_open_turn (ev_messages E) (conversation w) agent \<longrightarrow> no_open_turn (ev_messages E) (conversation w') agent) \<and>
     (strict \<longrightarrow> r = Inr () \<longrightarrow> (\<forall>agent \<in> set agents. no_open_turn (ev_messages E) (conversation w') agent)) \<and>
     (\<not> strict \<longrightarrow> r = Inr ()))"

lemma close_agent_turns_closes:
  assumes "closing_laws E"
  shows "closes_agents E strict [agent] w (close_agent_turns E reason strict agent w)"
proof (induction "open_turns (ev_messages E) (conversation w)" arbitrary: w rule: less_induct)
  case less
  show ?case
  proof (cases "open_ai_turn (ev_messages E) (wk_session w) agent")
    case None
    then show ?thesis
      using open_ai_turn_None [of "ev_messages E" "wk_session w" agent]
      by (subst close_agent_turns.simps) (simp add: closes_agents_def conversation_def preorder_refl preorder_settled)
  next
    case (Some turn)
    obtain w1 r where cl: "worker_close_turn E turn reason w = (w1, r)"
      by fastforce
    have same: "same_steps w w1"
      using moves_pair [OF same.moves_close_turn cl] .
    have kept: "\<forall>agent. no_open_turn (ev_messages E) (conversation w) agent \<longrightarrow> no_open_turn (ev_messages E) (conversation w1) agent"
      and fewer: "is_ok r \<longrightarrow> open_turns (ev_messages E) (conversation w1) < open_turns (ev_messages E) (conversation w)"
      using worker_close_turn_cases [of E turn reason w] assms cl unfolding closing_laws_def
      by (auto, (metis prod.collapse)+)
    show ?thesis
    proof (cases r)
      case (Inl f)
      then show ?thesis
        using Some cl same kept by (subst close_agent_turns.simps) (simp add: closes_agents_def)
    next
      case (Inr u)
      have "closes_agents E strict [agent] w1 (close_agent_turns E reason strict agent w1)"
        using less fewer Inr by simp
      then show ?thesis
        using Some cl same kept Inr preorder_trans [OF preorder_settled(2), of w w1]
        by (subst close_agent_turns.simps) (auto simp: closes_agents_def)
    qed
  qed
qed

lemma close_turns_of_closes:
  assumes "closing_laws E"
  shows "closes_agents E strict agents w (close_turns_of E reason strict agents w)"
proof (induction agents arbitrary: w)
  case Nil
  show ?case by (simp add: closes_agents_def preorder_refl preorder_settled)
next
  case (Cons agent agents)
  obtain w1 r where one: "close_agent_turns E reason strict agent w = Some (w1, r)" "same_steps w w1"
    "\<forall>agent. no_open_turn (ev_messages E) (conversation w) agent \<longrightarrow> no_open_turn (ev_messages E) (conversation w1) agent"
    "strict \<longrightarrow> r = Inr () \<longrightarrow> no_open_turn (ev_messages E) (conversation w1) agent" "\<not> strict \<longrightarrow> r = Inr ()"
    using close_agent_turns_closes [OF assms, of strict agent w reason] by (auto simp: closes_agents_def)
  show ?case
  proof (cases r)
    case (Inl f)
    then show ?thesis using one by (auto simp: closes_agents_def)
  next
    case (Inr u)
    then show ?thesis
      using one Cons.IH [of w1] preorder_trans [OF preorder_settled(2), of w w1] by (auto simp: closes_agents_def)
  qed
qed

lemma close_open_turns_closes:
  "closing_laws E \<Longrightarrow> closes_agents E strict (wk_agents w) w (close_open_turns E reason strict w)"
  unfolding close_open_turns_def by (rule close_turns_of_closes)


section \<open>The open results of a round\<close>

definition results_of :: "('c, 'e, 'a, 's, 'p, 'x, 'z) worker \<Rightarrow> entry_id set" where
  "results_of w = set (se_results (wk_session w))"

text \<open>\<open>RuntimeToolResults::new\<close> gives the entry it was asked for.\<close>

definition results_law :: "('c, 't, 'ai, 'n, 'e, 'a, 's, 'h, 'p, 'x, 'm, 'z) node_env \<Rightarrow> bool" where
  "results_law E \<longleftrightarrow> (\<forall>i z n. ev_results E i z = Inr n \<longrightarrow> ms_entry_id (ev_messages E) n = i)"

definition keeps_results :: "('c, 'e, 'a, 's, 'p, 'x, 'z) worker \<Rightarrow> ('c, 'e, 'a, 's, 'p, 'x, 'z) worker \<Rightarrow> bool" where
  "keeps_results w w' \<longleftrightarrow> results_of w' = results_of w"

lemma preorder_results: "preorder keeps_results"
  by (auto simp: preorder_def keeps_results_def)

lemma results_new_id [moves_rules]: "moves keeps_results (new_id E)"
  by (rule movesI) (simp add: new_id_def keeps_results_def results_of_def case_prod_unfold)

lemma results_author [moves_rules]: "moves keeps_results worker_author"
  by (rule movesI) (simp add: worker_author_def keeps_results_def results_of_def)

lemma results_outside [moves_rules]: "moves keeps_results (on_outside op)"
  by (rule movesI) (simp add: on_outside_def keeps_results_def results_of_def case_prod_unfold)

lemma results_gate [moves_rules]: "moves keeps_results (refresh_gate E)"
  by (rule movesI) (simp add: refresh_gate_def keeps_results_def results_of_def)

lemma results_turn_ref [moves_rules]: "moves keeps_results (turn_ref turn)"
  unfolding turn_ref_def by (intro moves_rules preorder_results)

lemma results_start_call [moves_rules]: "moves keeps_results (start_call E c)"
  unfolding start_call_def by (cases c; simp only: prod.case; intro moves_rules preorder_results)

lemma results_moved: "moves keeps_results m \<Longrightarrow> m w = (w', r) \<Longrightarrow> results_of w' = results_of w"
  using movesD [of keeps_results m w] by (simp add: keeps_results_def)

lemma open_result_results:
  "snd (open_result A turn i Ss) = Inr h \<Longrightarrow> set (se_results (fst (fst (open_result A turn i Ss)))) = insert i (set (se_results (fst Ss)))"
  by (auto simp: open_result_def case_prod_unfold track_def split: sum.splits)

lemma complete_result_results:
  "snd (complete_result M A turn n Ss) = Inr u \<Longrightarrow>
     set (se_results (fst (fst (complete_result M A turn n Ss)))) = set (se_results (fst Ss)) - {ms_entry_id M n}"
  by (auto simp: complete_result_def case_prod_unfold retain_not_def split: sum.splits unit.splits)

lemma on_session_Inr:
  "on_session f op w = (w', Inr r) \<longleftrightarrow>
     snd (op (wk_session w, wk_store w)) = Inr r \<and>
     w' = w\<lparr>wk_session := fst (fst (op (wk_session w, wk_store w))), wk_store := snd (fst (op (wk_session w, wk_store w)))\<rparr>"
  by (auto simp: on_session_def case_prod_unfold)

lemma open_call_results:
  assumes "open_call E target call w = (w', Inr opened)"
  shows "results_of w' \<subseteq> insert (fst (snd opened)) (results_of w) \<and> fst opened = call"
proof -
  obtain w1 entry w2 stream where w1: "new_id E w = (w1, Inr entry)"
    and w2: "on_session FaultSession (open_result (ev_access E) target entry) w1 = (w2, Inr stream)"
    and opened: "w' = w2" "opened = (call, entry, stream)"
    using assms unfolding open_call_def by (elim bind_act_okE) auto
  have "results_of w1 = results_of w"
    using results_moved [OF results_new_id w1] .
  moreover have "results_of w2 = insert entry (results_of w1)"
    using w2 open_result_results [of "ev_access E" target entry "(wk_session w1, wk_store w1)" stream]
    by (simp add: on_session_Inr results_of_def)
  ultimately show ?thesis
    using opened by auto
qed

lemma complete_with_results:
  assumes "results_law E" "complete_with E target entry built w = (w', Inr u)"
  shows "results_of w' = results_of w - {entry}"
proof -
  obtain result results where ok: "ev_results E entry result = Inr results"
    "on_session FaultSession (complete_result (ev_messages E) (ev_access E) target results) w = (w', Inr u)"
  proof (cases "snd built")
    case (Inl e)
    then show ?thesis using assms(2) by (simp add: complete_with_def)
  next
    case (Inr result)
    then have b: "bind_act (lift_sum FaultValue (ev_results E entry result)) (\<lambda>results.
         on_session FaultSession (complete_result (ev_messages E) (ev_access E) target results)) w = (w', Inr u)"
      using assms(2) by (simp add: complete_with_def split: if_splits)
    show ?thesis
      using b that by (cases "ev_results E entry result") auto
  qed
  then show ?thesis
    using assms(1) complete_result_results [of "ev_messages E" "ev_access E" target results "(wk_session w, wk_store w)" u]
    by (auto simp: on_session_Inr results_of_def results_law_def)
qed

lemma complete_call_results:
  assumes "results_law E" "complete_call E target entry call name content w = (w', Inr u)"
  shows "results_of w' = results_of w - {entry}"
proof -
  obtain w1 ids w2 i where w1: "each_act (\<lambda>_. new_id E) (tc_content content) w = (w1, Inr ids)"
    and w2: "new_id E w1 = (w2, Inr i)"
    and rest: "complete_with E target entry (into_result (ev_blocks_of E) content i call name (pop_id call) (ids, False)) w2 = (w', Inr u)"
    using assms(2) unfolding complete_call_def by (elim bind_act_okE)
  have "moves keeps_results (each_act (\<lambda>_. new_id E) (tc_content content))"
    by (intro moves_rules preorder_results)
  from results_moved [OF this w1] results_moved [OF results_new_id w2] show ?thesis
    using complete_with_results [OF assms(1) rest] by simp
qed

lemma each_act_ConsE:
  assumes "each_act f (x # xs) w = (w', Inr rs)"
  obtains w1 r rs' where "f x w = (w1, Inr r)" "each_act f xs w1 = (w', Inr rs')" "rs = r # rs'"
  using assms unfolding each_act.simps by (elim bind_act_okE) auto

lemma each_open_results:
  "each_act (open_call E target) calls w = (w', Inr opened) \<Longrightarrow>
     results_of w' \<subseteq> results_of w \<union> set (map (fst \<circ> snd) opened) \<and> map fst opened = calls"
proof (induction calls arbitrary: w opened)
  case Nil
  then show ?case by simp
next
  case (Cons call calls)
  from Cons.prems obtain w1 o1 os where one: "open_call E target call w = (w1, Inr o1)"
    "each_act (open_call E target) calls w1 = (w', Inr os)" "opened = o1 # os"
    by (rule each_act_ConsE)
  then show ?case
    using Cons.IH [OF one(2)] open_call_results [OF one(1)] by auto
qed

lemma each_complete_results:
  assumes "results_law E"
  shows "each_act (\<lambda>im. complete_call E target (im_entry im) (im_call im) (im_name im) (im_content im)) ims w = (w', Inr us) \<Longrightarrow>
     results_of w' \<subseteq> results_of w - set (map im_entry ims)"
proof (induction ims arbitrary: w us)
  case Nil
  then show ?case by simp
next
  case (Cons im ims)
  from Cons.prems obtain w1 u us' where one: "complete_call E target (im_entry im) (im_call im) (im_name im) (im_content im) w = (w1, Inr u)"
    "each_act (\<lambda>im. complete_call E target (im_entry im) (im_call im) (im_name im) (im_content im)) ims w1 = (w', Inr us')"
    by (rule each_act_ConsE)
  then show ?case
    using Cons.IH [OF one(2)] complete_call_results [OF assms one(1)] by auto
qed

lemma start_call_entry:
  "start_call E (call, entry, stream) w = (w', Inr s) \<Longrightarrow>
     (case s of Inl im \<Rightarrow> im_entry im | Inr run \<Rightarrow> rn_entry run) = entry"
  unfolding start_call_def by (auto split: option.splits elim!: bind_act_okE)

lemma each_start_entries:
  "each_act (start_call E) opened w = (w', Inr started) \<Longrightarrow>
     map (\<lambda>s. case s of Inl im \<Rightarrow> im_entry im | Inr run \<Rightarrow> rn_entry run) started = map (fst \<circ> snd) opened"
proof (induction opened arbitrary: w started)
  case Nil
  then show ?case by simp
next
  case (Cons c opened)
  from Cons.prems obtain w1 s ss where one: "start_call E c w = (w1, Inr s)"
    "each_act (start_call E) opened w1 = (w', Inr ss)" "started = s # ss"
    by (rule each_act_ConsE)
  then show ?case
    using Cons.IH [OF one(2)] start_call_entry [of E "fst c" "fst (snd c)" "snd (snd c)" w w1 s] by simp
qed

lemma join_one_completes:
  assumes "join_one E target run j w = (w', Inr u)"
  obtains content where "complete_call E target (rn_entry run) (rn_call run) (rn_name run) content w = (w', Inr u)"
proof -
  have "\<exists>content. joined_content E (rn_name run) (to_tool_call (wk_timeouts w)) j = Inr content \<and>
      map_fail StopFault (complete_call E target (rn_entry run) (rn_call run) (rn_name run) content) w = (w', Inr u)"
    using assms by (cases "joined_content E (rn_name run) (to_tool_call (wk_timeouts w)) j"; cases j)
      (auto simp: join_one_def split: if_splits)
  then obtain content where "map_fail StopFault (complete_call E target (rn_entry run) (rn_call run) (rn_name run) content) w = (w', Inr u)"
    by blast
  then show thesis
    using that [of content] by (auto simp: map_fail_def prod_eq_iff)
qed

lemma join_one_results:
  assumes "results_law E" "join_one E target run j w = (w', Inr u)"
  shows "results_of w' = results_of w - {rn_entry run}"
proof -
  obtain content where "complete_call E target (rn_entry run) (rn_call run) (rn_name run) content w = (w', Inr u)"
    using join_one_completes [OF assms(2)] .
  then show ?thesis
    by (rule complete_call_results [OF assms(1)])
qed

lemma join_results:
  assumes "results_law E"
  shows "join_tasks E target n running w = (w', Inr u) \<Longrightarrow> length running = n \<Longrightarrow>
     results_of w' \<subseteq> results_of w - set (map rn_entry running)"
proof (induction n arbitrary: running w)
  case 0
  then show ?case by simp
next
  case (Suc n)
  obtain w1 ended w2 v where w1: "on_outside (ev_join E running) w = (w1, (Inr ended :: stop + _))"
    and w2: "join_one E target (running ! (fst ended mod Suc n)) (snd ended) w1 = (w2, Inr v)"
    and rest: "join_tasks E target n (take (fst ended mod Suc n) running @ drop (Suc (fst ended mod Suc n)) running) w2 = (w', Inr u)"
    using Suc.prems(1) unfolding join_tasks.simps by (elim bind_act_okE) blast
  define k where "k = fst ended mod Suc n"
  have k: "k < length running"
    using Suc.prems(2) by (simp add: k_def)
  have "results_of w' \<subseteq> results_of w2 - set (map rn_entry (take k running @ drop (Suc k) running))"
    using Suc.IH [OF rest] k Suc.prems(2) by (simp add: k_def)
  moreover have "results_of w2 = results_of w - {rn_entry (running ! k)}"
    using join_one_results [OF assms w2] results_moved [OF results_outside w1] by (simp add: k_def)
  moreover have "set running = insert (running ! k) (set (take k running @ drop (Suc k) running))"
    using k by (metis Un_insert_right id_take_nth_drop list.simps(15) set_append)
  ultimately show ?case by auto
qed

abbreviation answered_of :: "'i + 'r \<Rightarrow> 'i option" where
  "answered_of s \<equiv> (case s of Inl im \<Rightarrow> Some im | Inr _ \<Rightarrow> None)"

abbreviation running_of :: "'i + 'r \<Rightarrow> 'r option" where
  "running_of s \<equiv> (case s of Inl _ \<Rightarrow> None | Inr run \<Rightarrow> Some run)"

lemma started_entries:
  "(\<lambda>s. case s of Inl im \<Rightarrow> im_entry im | Inr run \<Rightarrow> rn_entry run) ` set started =
     im_entry ` set (List.map_filter answered_of started) \<union> rn_entry ` set (List.map_filter running_of started)"
  by (induction started) (auto simp: List.map_filter_simps split: sum.split)

lemma map_fail_Inr: "map_fail f m w = (w', Inr r) \<longleftrightarrow> m w = (w', Inr r)"
  by (auto simp: map_fail_def prod_eq_iff)

lemma tool_round_results:
  assumes "results_law E" "tool_round E turn response w = (w', Inr u)"
  shows "results_of w' \<subseteq> results_of w"
proof -
  obtain w0 v w1 target w2 opened w3 started w4 us where w0: "refresh_gate E w = (w0, (Inr v :: stop + _))"
    and w1: "map_fail StopFault (turn_ref turn) w0 = (w1, Inr target)"
    and w2: "map_fail StopFault (each_act (open_call E target) (ev_calls E response)) w1 = (w2, Inr opened)"
    and w3: "map_fail StopFault (each_act (start_call E) opened) w2 = (w3, Inr started)"
    and w4: "map_fail StopFault (each_act
       (\<lambda>im. complete_call E target (im_entry im) (im_call im) (im_name im) (im_content im))
       (List.map_filter answered_of started)) w3 = (w4, Inr us)"
    and w5: "join_tasks E target (length (List.map_filter running_of started)) (List.map_filter running_of started) w4 = (w', Inr u)"
    using assms(2) unfolding tool_round_def Let_def by (elim bind_act_okE) blast
  have "results_of w1 = results_of w"
    using results_moved [OF results_gate w0] results_moved [OF results_turn_ref, of turn w0 w1 "Inr target"] w1
    by (simp add: map_fail_Inr)
  moreover have "results_of w2 \<subseteq> results_of w1 \<union> set (map (fst \<circ> snd) opened)"
    using each_open_results [of E target "ev_calls E response" w1 w2 opened] w2 by (simp add: map_fail_Inr)
  moreover have "moves keeps_results (each_act (start_call E) opened)"
    by (intro moves_rules preorder_results)
  then have "results_of w3 = results_of w2"
    using results_moved [of "each_act (start_call E) opened" w2 w3 "Inr started"] w3 by (simp add: map_fail_Inr)
  moreover have "set (map (fst \<circ> snd) opened) =
      im_entry ` set (List.map_filter answered_of started) \<union> rn_entry ` set (List.map_filter running_of started)"
    using each_start_entries [of E opened w2 w3 started] w3 started_entries [of started]
    by (simp add: map_fail_Inr flip: set_map)
  moreover have "results_of w4 \<subseteq> results_of w3 - set (map im_entry (List.map_filter answered_of started))"
    using each_complete_results [OF assms(1), of target "List.map_filter answered_of started" w3 w4 us] w4
    by (simp add: map_fail_Inr)
  moreover have "results_of w' \<subseteq> results_of w4 - set (map rn_entry (List.map_filter running_of started))"
    using join_results [OF assms(1) w5] by simp
  ultimately show ?thesis
    unfolding set_map by blast
qed


section \<open>The answers of a round\<close>

text \<open>Result entries a conversation takes, one after the other, each accepted by the rules.\<close>

fun takes_results :: "('c, 't, 'ai, 'n, 'e, 'a) messages \<Rightarrow> 'a ai_turn_ref \<Rightarrow> 'n list \<Rightarrow> 'c \<Rightarrow> 'c \<Rightarrow> bool" where
  "takes_results M turn [] c c' \<longleftrightarrow> c' = c"
| "takes_results M turn (n # ns) c c' \<longleftrightarrow>
     (\<exists>c1. apply_results M turn n c = (c1, Inr ()) \<and> takes_results M turn ns c1 c')"

lemma takes_append:
  "takes_results M turn ns c c1 \<Longrightarrow> takes_results M turn ns' c1 c' \<Longrightarrow> takes_results M turn (ns @ ns') c c'"
  by (induction M turn ns c c1 rule: takes_results.induct) auto

definition no_tool_text :: "string \<Rightarrow> string" where
  "no_tool_text name = ''the node holds no tool named '' @ name"

text \<open>
  An entry that answers a call: the result it holds is built for the id and the name of that call, and says
  so when the node holds no such tool.
\<close>

definition answers ::
  "('c, 't, 'ai, 'n, 'e, 'a, 's, 'h, 'p, 'x, 'm, 'z) node_env \<Rightarrow> ('z, 'z) tool_set \<Rightarrow> 'z tool_call \<Rightarrow> 'n \<Rightarrow> bool" where
  "answers E tools call n \<longleftrightarrow> (\<exists>entry content i ids result.
     snd (into_result (ev_blocks_of E) content i (ca_id call) (ca_name call) (pop_id (ca_id call)) (ids, False)) = Inr result \<and>
     ev_results E entry result = Inr n \<and>
     (find_tool (ev_spec_name E) tools (ca_name call) = None \<longrightarrow>
        error_text (ev_blocks_of E) (no_tool_text (ca_name call)) = Inr content))"

text \<open>A change of the worker that gave the calls their answers, in that order.\<close>

definition gave ::
  "('c, 't, 'ai, 'n, 'e, 'a, 's, 'h, 'p, 'x, 'm, 'z) node_env \<Rightarrow> 'a ai_turn_ref \<Rightarrow> ('z, 'z) tool_set \<Rightarrow> 'z tool_call list \<Rightarrow>
     ('c, 'e, 'a, 's, 'p, 'x, 'z) worker \<Rightarrow> ('c, 'e, 'a, 's, 'p, 'x, 'z) worker \<Rightarrow> bool" where
  "gave E turn tools calls w w' \<longleftrightarrow> wk_tools w' = wk_tools w \<and> (\<exists>ns. list_all2 (answers E tools) calls ns \<and>
     takes_results (ev_messages E) turn ns (conversation w) (conversation w'))"

lemma gave_none: "wk_tools w' = wk_tools w \<Longrightarrow> conversation w' = conversation w \<Longrightarrow> gave E turn tools [] w w'"
  by (simp add: gave_def)

lemma gave_trans: "gave E turn tools cs w w1 \<Longrightarrow> gave E turn tools cs' w1 w' \<Longrightarrow> gave E turn tools (cs @ cs') w w'"
  unfolding gave_def by (metis list_all2_appendI takes_append)

definition quiet_talk :: "('c, 'e, 'a, 's, 'p, 'x, 'z) worker \<Rightarrow> ('c, 'e, 'a, 's, 'p, 'x, 'z) worker \<Rightarrow> bool" where
  "quiet_talk w w' \<longleftrightarrow> wk_tools w' = wk_tools w \<and> conversation w' = conversation w"

lemma preorder_talk: "preorder quiet_talk"
  by (auto simp: preorder_def quiet_talk_def)

lemma talk_new_id [moves_rules]: "moves quiet_talk (new_id E)"
  by (rule movesI) (simp add: new_id_def quiet_talk_def conversation_def case_prod_unfold)

lemma talk_author [moves_rules]: "moves quiet_talk worker_author"
  by (rule movesI) (simp add: worker_author_def quiet_talk_def)

lemma talk_outside [moves_rules]: "moves quiet_talk (on_outside op)"
  by (rule movesI) (simp add: on_outside_def quiet_talk_def conversation_def case_prod_unfold)

lemma talk_gate [moves_rules]: "moves quiet_talk (refresh_gate E)"
  by (rule movesI) (simp add: refresh_gate_def quiet_talk_def conversation_def)

lemma talk_turn_ref [moves_rules]: "moves quiet_talk (turn_ref turn)"
  unfolding turn_ref_def by (intro moves_rules preorder_talk)

lemma talk_open_result [moves_rules]: "moves quiet_talk (on_session f (open_result A turn i))"
  by (rule movesI) (simp add: on_session_def open_result_def quiet_talk_def conversation_def case_prod_unfold split: sum.split prod.split)

lemma talk_open_call [moves_rules]: "moves quiet_talk (open_call E target call)"
  unfolding open_call_def by (intro moves_rules preorder_talk)

lemma talk_start_call [moves_rules]: "moves quiet_talk (start_call E c)"
  unfolding start_call_def by (cases c; simp only: prod.case; intro moves_rules preorder_talk)

lemma talk_moved: "moves quiet_talk m \<Longrightarrow> m w = (w', r) \<Longrightarrow> wk_tools w' = wk_tools w \<and> conversation w' = conversation w"
  using movesD [of quiet_talk m w] by (simp add: quiet_talk_def)

lemma complete_result_takes:
  "snd (complete_result M A turn n Ss) = Inr u \<Longrightarrow>
     apply_results M turn n (se_conversation (fst Ss)) = (se_conversation (fst (fst (complete_result M A turn n Ss))), Inr ())"
  by (auto simp: complete_result_def case_prod_unfold prod_eq_iff split: sum.splits unit.splits)

lemma complete_call_gives:
  assumes "complete_call E target entry (ca_id call) (ca_name call) content w = (w', Inr u)"
    "find_tool (ev_spec_name E) tools (ca_name call) = None \<longrightarrow>
       error_text (ev_blocks_of E) (no_tool_text (ca_name call)) = Inr content"
  shows "gave E target tools [call] w w'"
proof -
  obtain w1 ids w2 i where w1: "each_act (\<lambda>_. new_id E) (tc_content content) w = (w1, Inr ids)"
    and w2: "new_id E w1 = (w2, Inr i)"
    and rest: "complete_with E target entry
       (into_result (ev_blocks_of E) content i (ca_id call) (ca_name call) (pop_id (ca_id call)) (ids, False)) w2 = (w', Inr u)"
    using assms(1) unfolding complete_call_def by (elim bind_act_okE)
  have "moves quiet_talk (each_act (\<lambda>_. new_id E) (tc_content content))"
    by (intro moves_rules preorder_talk)
  from talk_moved [OF this w1] talk_moved [OF talk_new_id w2]
  have same: "wk_tools w2 = wk_tools w" "conversation w2 = conversation w"
    by simp_all
  obtain result where b: "snd (into_result (ev_blocks_of E) content i (ca_id call) (ca_name call) (pop_id (ca_id call)) (ids, False)) = Inr result"
    "bind_act (lift_sum FaultValue (ev_results E entry result)) (\<lambda>results.
         on_session FaultSession (complete_result (ev_messages E) (ev_access E) target results)) w2 = (w', Inr u)"
    using rest by (auto simp: complete_with_def split: sum.splits if_splits)
  then obtain n where n: "ev_results E entry result = Inr n"
    "on_session FaultSession (complete_result (ev_messages E) (ev_access E) target n) w2 = (w', Inr u)"
    by (cases "ev_results E entry result") auto
  have "apply_results (ev_messages E) target n (conversation w2) = (conversation w', Inr ())" "wk_tools w' = wk_tools w2"
    using n(2) complete_result_takes [of "ev_messages E" "ev_access E" target n "(wk_session w2, wk_store w2)" u]
    by (auto simp: on_session_Inr conversation_def)
  moreover have "answers E tools call n"
    unfolding answers_def using b(1) n(1) assms(2)
    by (intro exI [of _ entry] exI [of _ content] exI [of _ i] exI [of _ ids] exI [of _ result]) simp
  ultimately show ?thesis
    using same by (auto simp: gave_def intro!: exI [of _ "[n]"])
qed

text \<open>A call and what starting it gave.\<close>

definition starts ::
  "('c, 't, 'ai, 'n, 'e, 'a, 's, 'h, 'p, 'x, 'm, 'z) node_env \<Rightarrow> ('z, 'z) tool_set \<Rightarrow> 'z tool_call \<Rightarrow>
     'z immediate + ('h, 'z) running_call \<Rightarrow> bool" where
  "starts E tools call s \<longleftrightarrow> (case s of
     Inl im \<Rightarrow> im_call im = ca_id call \<and> im_name im = ca_name call \<and>
       error_text (ev_blocks_of E) (no_tool_text (ca_name call)) = Inr (im_content im)
   | Inr run \<Rightarrow> rn_call run = ca_id call \<and> rn_name run = ca_name call \<and> find_tool (ev_spec_name E) tools (ca_name call) \<noteq> None)"

lemma start_call_starts: "start_call E (call, rest) w = (w', Inr s) \<Longrightarrow> starts E (wk_tools w) call s"
  unfolding start_call_def no_tool_text_def [symmetric]
  by (cases rest; cases "error_text (ev_blocks_of E) (no_tool_text (ca_name call))")
    (auto simp: starts_def split: option.splits sum.splits elim!: bind_act_okE)

lemma each_starts:
  "each_act (start_call E) opened w = (w', Inr started) \<Longrightarrow> list_all2 (starts E (wk_tools w)) (map fst opened) started"
proof (induction opened arbitrary: w started)
  case (Cons c opened)
  from Cons.prems obtain w1 s ss where one: "start_call E c w = (w1, Inr s)"
    "each_act (start_call E) opened w1 = (w', Inr ss)" "started = s # ss"
    by (rule each_act_ConsE)
  then show ?case
    using Cons.IH [OF one(2)] start_call_starts [of E "fst c" "snd c" w w1 s] talk_moved [OF talk_start_call one(1)] by simp
qed simp

lemma starts_split:
  assumes "list_all2 (starts E tools) calls started"
  obtains at_once later where "mset calls = mset at_once + mset later"
    "list_all2 (\<lambda>call im. starts E tools call (Inl im)) at_once (List.map_filter answered_of started)"
    "list_all2 (\<lambda>call run. starts E tools call (Inr run)) later (List.map_filter running_of started)"
proof -
  have "\<exists>at_once later. mset calls = mset at_once + mset later \<and>
    list_all2 (\<lambda>call im. starts E tools call (Inl im)) at_once (List.map_filter answered_of started) \<and>
    list_all2 (\<lambda>call run. starts E tools call (Inr run)) later (List.map_filter running_of started)"
    using assms
  proof (induction rule: list_all2_induct)
    case Nil
    show ?case by (simp add: List.map_filter_simps)
  next
    case (Cons call calls s started)
    then obtain at_once later where ih: "mset calls = mset at_once + mset later"
      "list_all2 (\<lambda>call im. starts E tools call (Inl im)) at_once (List.map_filter answered_of started)"
      "list_all2 (\<lambda>call run. starts E tools call (Inr run)) later (List.map_filter running_of started)"
      by blast
    show ?case
    proof (cases s)
      case (Inl im)
      then show ?thesis
        using ih Cons.hyps by (intro exI [of _ "call # at_once"] exI [of _ later]) (simp add: List.map_filter_simps)
    next
      case (Inr run)
      then show ?thesis
        using ih Cons.hyps by (intro exI [of _ at_once] exI [of _ "call # later"]) (simp add: List.map_filter_simps)
    qed
  qed
  with that show ?thesis by blast
qed

lemma each_complete_gives:
  assumes "list_all2 (\<lambda>call im. starts E tools call (Inl im)) calls ims"
  shows "each_act (\<lambda>im. complete_call E target (im_entry im) (im_call im) (im_name im) (im_content im)) ims w = (w', Inr us) \<Longrightarrow>
     gave E target tools calls w w'"
  using assms
proof (induction arbitrary: w us rule: list_all2_induct)
  case Nil
  then show ?case by (simp add: gave_none)
next
  case (Cons call calls im ims)
  from Cons.prems obtain w1 u us' where one: "complete_call E target (im_entry im) (im_call im) (im_name im) (im_content im) w = (w1, Inr u)"
    "each_act (\<lambda>im. complete_call E target (im_entry im) (im_call im) (im_name im) (im_content im)) ims w1 = (w', Inr us')"
    by (rule each_act_ConsE)
  have "gave E target tools [call] w w1"
    using Cons.hyps(1) complete_call_gives [of E target "im_entry im" call "im_content im" w w1 u tools] one(1)
    by (simp add: starts_def)
  from gave_trans [OF this Cons.IH [OF one(2)]] show ?case by simp
qed

lemma join_one_gives:
  assumes "join_one E target run j w = (w', Inr u)" "starts E tools call (Inr run)"
  shows "gave E target tools [call] w w'"
proof -
  obtain content where "complete_call E target (rn_entry run) (rn_call run) (rn_name run) content w = (w', Inr u)"
    using join_one_completes [OF assms(1)] .
  then show ?thesis
    using assms(2) complete_call_gives [of E target "rn_entry run" call content w w' u tools] by (auto simp: starts_def)
qed

lemma join_tasks_gives:
  "join_tasks E target n running w = (w', Inr u) \<Longrightarrow> length running = n \<Longrightarrow>
     list_all2 (\<lambda>call run. starts E tools call (Inr run)) calls running \<Longrightarrow>
     \<exists>ended. mset ended = mset calls \<and> gave E target tools ended w w'"
proof (induction n arbitrary: running calls w)
  case 0
  then show ?case by (simp add: gave_none)
next
  case (Suc n)
  obtain w1 ended w2 v where w1: "on_outside (ev_join E running) w = (w1, (Inr ended :: stop + _))"
    and w2: "join_one E target (running ! (fst ended mod Suc n)) (snd ended) w1 = (w2, Inr v)"
    and rest: "join_tasks E target n (take (fst ended mod Suc n) running @ drop (Suc (fst ended mod Suc n)) running) w2 = (w', Inr u)"
    using Suc.prems(1) unfolding join_tasks.simps by (elim bind_act_okE) blast
  define k where "k = fst ended mod Suc n"
  have k: "k < length running" "k < length calls"
    using Suc.prems(2) list_all2_lengthD [OF Suc.prems(3)] by (simp_all add: k_def)
  let ?calls = "take k calls @ drop (Suc k) calls"
  have "list_all2 (\<lambda>call run. starts E tools call (Inr run)) ?calls (take k running @ drop (Suc k) running)"
    using Suc.prems(3) by (intro list_all2_appendI list_all2_takeI list_all2_dropI)
  then obtain es where es: "mset es = mset ?calls" "gave E target tools es w2 w'"
    using Suc.IH [OF rest, of ?calls] k Suc.prems(2) by (auto simp: k_def)
  have "starts E tools (calls ! k) (Inr (running ! k))"
    using Suc.prems(3) k by (simp add: list_all2_conv_all_nth)
  then have "gave E target tools [calls ! k] w1 w2"
    using join_one_gives [OF w2] by (simp add: k_def)
  moreover have "gave E target tools [] w w1"
    using talk_moved [OF talk_outside w1] by (simp add: gave_none)
  ultimately have "gave E target tools (calls ! k # es) w w'"
    using gave_trans [OF gave_trans es(2)] by fastforce
  moreover have "mset (calls ! k # es) = mset calls"
    using es(1) id_take_nth_drop [OF k(2)] by (metis mset.simps(2) mset_append union_mset_add_mset_right)
  ultimately show ?case by blast
qed

lemma tool_round_gives:
  assumes "tool_round E turn response w = (w', Inr u)"
  shows "\<exists>target calls. tr_id target = turn \<and> mset calls = mset (ev_calls E response) \<and> gave E target (wk_tools w) calls w w'"
proof -
  obtain w0 v w1 target w2 opened w3 started w4 us where w0: "refresh_gate E w = (w0, (Inr v :: stop + _))"
    and w1: "map_fail StopFault (turn_ref turn) w0 = (w1, Inr target)"
    and w2: "map_fail StopFault (each_act (open_call E target) (ev_calls E response)) w1 = (w2, Inr opened)"
    and w3: "map_fail StopFault (each_act (start_call E) opened) w2 = (w3, Inr started)"
    and w4: "map_fail StopFault (each_act
       (\<lambda>im. complete_call E target (im_entry im) (im_call im) (im_name im) (im_content im))
       (List.map_filter answered_of started)) w3 = (w4, Inr us)"
    and w5: "join_tasks E target (length (List.map_filter running_of started)) (List.map_filter running_of started) w4 = (w', Inr u)"
    using assms unfolding tool_round_def Let_def by (elim bind_act_okE) blast
  have quiet: "moves quiet_talk (each_act (open_call E target) (ev_calls E response))" "moves quiet_talk (each_act (start_call E) opened)"
    by (intro moves_rules preorder_talk)+
  then have same: "wk_tools w1 = wk_tools w" "wk_tools w2 = wk_tools w" "wk_tools w3 = wk_tools w" "conversation w3 = conversation w"
    using talk_moved [OF talk_gate w0] talk_moved [OF talk_turn_ref w1 [unfolded map_fail_Inr]]
      talk_moved [OF quiet(1) w2 [unfolded map_fail_Inr]] talk_moved [OF quiet(2) w3 [unfolded map_fail_Inr]] by simp_all
  have "tr_id target = turn"
    using w1 by (auto simp: map_fail_Inr turn_ref_def elim!: bind_act_okE)
  have "map fst opened = ev_calls E response"
    using each_open_results [of E target "ev_calls E response" w1 w2 opened] w2 by (simp add: map_fail_Inr)
  then have "list_all2 (starts E (wk_tools w)) (ev_calls E response) started"
    using each_starts [OF w3 [unfolded map_fail_Inr]] same by simp
  then obtain at_once later where split: "mset (ev_calls E response) = mset at_once + mset later"
    "list_all2 (\<lambda>call im. starts E (wk_tools w) call (Inl im)) at_once (List.map_filter answered_of started)"
    "list_all2 (\<lambda>call run. starts E (wk_tools w) call (Inr run)) later (List.map_filter running_of started)"
    by (rule starts_split)
  obtain ended where ended: "mset ended = mset later" "gave E target (wk_tools w) ended w4 w'"
    using join_tasks_gives [OF w5 refl split(3)] by blast
  have "gave E target (wk_tools w) ([] @ at_once @ ended) w w'"
    using each_complete_gives [OF split(2) w4 [unfolded map_fail_Inr]] ended(2) same
    by (intro gave_trans) (auto simp: gave_none)
  then show ?thesis
    using \<open>tr_id target = turn\<close> split(1) ended(1) by (intro exI [of _ target] exI [of _ "at_once @ ended"]) simp
qed


section \<open>The steps of the loop\<close>

lemma react_loop_bounds:
  "made w \<le> made (fst (react_loop E slot w)) \<and> made (fst (react_loop E slot w)) \<le> made w + max 1 (left w) \<and>
   settled_parts w (fst (react_loop E slot w)) \<and>
   (case snd (react_loop E slot w) of
      Inl _ \<Rightarrow> True
    | Inr (PassFinal response) \<Rightarrow> ev_calls E response = []
    | Inr (PassStepLimit _) \<Rightarrow> left (fst (react_loop E slot w)) = 0)"
proof (induction E slot w rule: react_loop.induct)
  case (1 E slot w)
  obtain w1 r where pass: "worker_pass E slot w = (w1, r)"
    by fastforce
  have b: "pass_bounds E w w1 r"
    using pass_loop_bounds [of E w slot None False] pass by (simp add: worker_pass_def)
  show ?case
  proof (cases r)
    case (Inl stopped)
    then have "react_loop E slot w = (w1, Inl stopped)"
      using pass by (subst react_loop.simps) simp
    then show ?thesis
      using b Inl by (simp add: pass_bounds_def)
  next
    case (Inr ps)
    obtain pend slot1 where ps: "ps = (pend, slot1)"
      by (cases ps) auto
    obtain w2 q where again: "react_again E pend w1 = (w2, q)"
      by fastforce
    have same: "same_steps w1 w2"
      using moves_pair [OF moves_again again] .
    have counts: "made w2 = made w1" "left w2 = left w1" "settled_parts w1 w2"
      using same_steps_counts [OF same] by simp_all
    have "settled_parts w w1"
      using b by (simp add: pass_bounds_def)
    note two = counts(1,2) settled_trans [OF this counts(3)]
    show ?thesis
    proof (cases "q = Inr True")
      case True
      have eq: "react_loop E slot w = react_loop E slot1 w2"
        using pass Inr ps again True by (subst react_loop.simps) simp
      have pos: "left w2 \<noteq> 0"
        using react_again_left [of E pend w1 w2] again True two by simp
      note ih = 1 [OF pass [symmetric] Inr ps [symmetric] again [symmetric] True TrueI]
      have "made w2 + max 1 (left w2) \<le> made w + max 1 (left w)"
        using b Inr ps two pos by (auto simp: pass_bounds_def)
      then show ?thesis
        using ih two b settled_trans [of w w2] unfolding eq by (auto simp: pass_bounds_def)
    next
      case False
      have eq: "fst (react_loop E slot w) = w2 \<and> (\<forall>p. snd (react_loop E slot w) = Inr p \<longrightarrow> p = pend)"
        using pass Inr ps again False by (subst (1 2) react_loop.simps) (cases q; simp)
      have "case snd (react_loop E slot w) of
          Inl _ \<Rightarrow> True
        | Inr (PassFinal response) \<Rightarrow> ev_calls E response = []
        | Inr (PassStepLimit _) \<Rightarrow> left w2 = 0"
        using eq b Inr ps two by (cases "snd (react_loop E slot w)") (auto simp: pass_bounds_def split: pass_end.splits)
      then show ?thesis
        unfolding conjunct1 [OF eq] using b two by (simp add: pass_bounds_def)
    qed
  qed
qed

section \<open>The settled event\<close>

lemma settle_core_sent:
  assumes "is_working (node_side core)"
  shows "node_side (settle_core ev core) = Sent ev" "queue (settle_core ev core) = []"
  using assms by (auto simp: settle_core_def finish_def sender_gone_def Instance_Core.drain_def retire_def close_input_def
    is_working_def split: node_side.splits gate.splits)

lemma sender_gone_idle: "\<not> is_working (node_side (fst (sender_gone core)))"
  by (auto simp: sender_gone_def retire_def is_working_def)

lemma close_input_working: "is_working (node_side (fst (close_input core))) = is_working (node_side core)"
  by (auto simp: close_input_def is_working_def split: node_side.splits gate.splits)

text \<open>The event that fits what the race answered.\<close>

definition ends_as :: "fault_texts \<Rightarrow> (stop + 'u) raced \<Rightarrow> 'u event \<Rightarrow> bool" where
  "ends_as T raced ev = (case raced of
     RacedGone \<Rightarrow> False
   | RacedCancelled \<Rightarrow> ev = EvCancelled
   | RacedDone (Inl StopCancelled) \<Rightarrow> ev = EvCancelled
   | RacedDone (Inl (StopFault fault)) \<Rightarrow> ev = EvFailed (fault_cause T fault)
   | RacedDone (Inr update) \<Rightarrow> ev = EvResult update \<or> (\<exists>e. ev = EvFailed (port_cause e)))"

text \<open>A fault whose detail cannot be made.\<close>

definition unspeakable :: "fault_texts \<Rightarrow> (stop + 'u) raced \<Rightarrow> bool" where
  "unspeakable T raced \<longleftrightarrow> (\<exists>fault. raced = RacedDone (Inl (StopFault fault)) \<and> \<not> is_ok (fault_detail T fault))"

text \<open>
  An end: the event that fits is on the channel, the input end is empty, nothing of the session is open;
  only after a fault whose detail cannot be made is there no event, and the instance has vanished.
\<close>

definition well_ended :: "fault_texts \<Rightarrow> (stop + 'u) raced \<Rightarrow> ('c, 'e, 'a, 's, 'p, 'x, 'z, 'i, 'u) concluded \<Rightarrow> bool" where
  "well_ended T raced = (\<lambda>(w, core, event). queue core = [] \<and> open_objects (wk_session w) = 0 \<and> (case event of
     None \<Rightarrow> unspeakable T raced \<and> node_side core = Vanished
   | Some ev \<Rightarrow> \<not> unspeakable T raced \<and> ends_as T raced ev \<and> node_side core = Sent ev))"

lemma end_with_well:
  assumes "is_working (node_side core)" "\<not> unspeakable T raced"
    "\<And>Ss. fst (fst (ends Ss core)) = fst (discard_all A Ss)" "\<And>Ss. snd (fst (ends Ss core)) = fst (close_input core)"
    "\<And>Ss. ends_as T raced (snd (ends Ss core))"
  shows "well_ended T raced (end_with ends w core)"
proof -
  obtain S s core1 ev where e: "ends (wk_session w, wk_store w) core = (((S, s), core1), ev)"
    by (metis prod.collapse)
  have "core1 = fst (close_input core)" "(S, s) = fst (discard_all A (wk_session w, wk_store w))" "ends_as T raced ev"
    using assms(3-5) [of "(wk_session w, wk_store w)"] e by simp_all
  moreover have "end_with ends w core = (w\<lparr>wk_session := S, wk_store := s\<rparr>, settle_core ev core1, Some ev)"
    by (simp add: end_with_def e)
  moreover have "se_responses S = []" "se_results S = []"
    using discard_all_objects [of A "(wk_session w, wk_store w)"] calculation(2) by (metis fst_conv)+
  ultimately show ?thesis
    using settle_core_sent [of core1 ev] close_input_working [of core] assms(1,2)
    by (simp add: well_ended_def open_objects_def)
qed

lemma ends_well:
  assumes "is_working (node_side core)" "\<not> unspeakable T raced"
  shows "ends_as T raced EvCancelled \<Longrightarrow> well_ended T raced (end_with (end_cancelled A) w core)"
    "ends_as T raced (EvFailed c) \<Longrightarrow> well_ended T raced (end_with (end_failed A c) w core)"
  using assms by (auto intro!: end_with_well simp: end_cancelled_def end_failed_def)

lemma end_result_well:
  assumes "is_working (node_side core)"
  shows "well_ended T (RacedDone (Inr update)) (end_with (end_result A update) w core)"
  using assms by (intro end_with_well [where A = A])
    (auto simp: end_result_def ends_as_def unspeakable_def case_prod_unfold split: list.splits)

lemma silent_well:
  assumes "is_working (node_side core)" "unspeakable T raced"
  shows "well_ended T raced (discard_open E w, fst (sender_gone core), None)"
proof -
  have "open_objects (wk_session (discard_open E w)) = 0"
    using discard_all_objects [of "ev_access E" "(wk_session w, wk_store w)"]
    by (simp add: discard_open_def open_objects_def case_prod_unfold)
  then show ?thesis
    using assms by (simp add: well_ended_def sender_gone_def retire_def)
qed

lemma close_open_turns_returns:
  assumes "closing_laws E"
  obtains w' r where "close_open_turns E reason strict w = Some (w', r)"
  using close_open_turns_closes [OF assms, of strict w reason] by (auto simp: closes_agents_def)

lemma conclude_well:
  assumes "closing_laws E" "is_working (node_side core)" "raced \<noteq> RacedGone"
  shows "\<exists>out. conclude E T w core raced = Some out \<and> well_ended T raced out"
proof -
  obtain w1 r1 where c: "close_open_turns E ClosedCancelled False (discard_open E (stop_read w)) = Some (w1, r1)"
    using close_open_turns_returns [OF assms(1)] .
  show ?thesis
  proof (cases raced)
    case RacedCancelled
    then show ?thesis
      using c ends_well(1) [OF assms(2), of T raced] by (simp add: conclude_def Let_def ends_as_def unspeakable_def)
  next
    case (RacedDone r)
    show ?thesis
    proof (cases r)
      case (Inr update)
      then show ?thesis
        using RacedDone end_result_well [OF assms(2)] by (simp add: conclude_def Let_def)
    next
      case (Inl s)
      show ?thesis
      proof (cases s)
        case StopCancelled
        then show ?thesis
          using RacedDone Inl c ends_well(1) [OF assms(2), of T raced]
          by (simp add: conclude_def Let_def ends_as_def unspeakable_def)
      next
        case (StopFault fault)
        show ?thesis
        proof (cases "fault_detail T fault")
          case (Inl panicked)
          then show ?thesis
            using RacedDone \<open>r = Inl s\<close> StopFault silent_well [OF assms(2), of T raced E "stop_read w"]
            by (simp add: conclude_def Let_def unspeakable_def)
        next
          case (Inr detail)
          have well: "well_ended T raced (end_with (end_failed A (fault_cause T fault)) v core)" for A v
            by (rule ends_well(2) [OF assms(2)]) (simp_all add: RacedDone \<open>r = Inl s\<close> StopFault Inr ends_as_def unspeakable_def)
          obtain w2 r2 where "close_open_turns E (the (failed_reason E detail)) False (discard_open E (stop_read w)) = Some (w2, r2)"
            using close_open_turns_returns [OF assms(1)] .
          then show ?thesis
            using RacedDone \<open>r = Inl s\<close> StopFault Inr well
            by (auto simp: conclude_def Let_def simp del: split_paired_Ex split: option.split)
        qed
      qed
    qed
  qed (use assms(3) in simp)
qed

section \<open>The concrete agent keeps the laws\<close>

lemma demo_push_open_cases:
  "demo_push_open u n c = (c, Inl (Cause (Inr ''closed''))) \<or> demo_push_open u n c = (c, Inl (Cause (Inr ''refused''))) \<or>
   demo_push_open u n c = (map (\<lambda>t. if fst t = u then (u, fst (snd t), snd (snd t) @ [n]) else t) c, Inr ()) \<and>
     (\<forall>t \<in> set c. fst t = u \<longrightarrow> \<not> list_ex demo_closed (snd (snd t)))"
  by (auto simp: demo_push_open_def demo_push_entry_def list_ex_iff)

lemma demo_ai_turns:
  "List.map_filter (ms_as_ai demo_agent_messages) (ms_turns demo_agent_messages c) =
     map (\<lambda>t. (fst t, fst (the (fst (snd t))), snd (the (fst (snd t))), snd (snd t))) (filter (\<lambda>t. fst (snd t) \<noteq> None) c)"
  by (induction c) (auto simp: List.map_filter_simps demo_agent_messages_def demo_messages_def split: option.splits)

lemma demo_turn_open: "ms_ai_closed demo_agent_messages ai = list_ex demo_closed (snd (snd (snd ai)))"
  by (simp add: demo_agent_messages_def case_prod_unfold)

lemma demo_open_turns:
  "open_turns demo_agent_messages c = length (filter (\<lambda>t. fst (snd t) \<noteq> None \<and> \<not> list_ex demo_closed (snd (snd t))) c)"
  unfolding open_turns_def demo_ai_turns demo_turn_open
  by (induction c) auto

lemma demo_no_open_turn:
  "no_open_turn demo_agent_messages c agent \<longleftrightarrow>
     (\<forall>t \<in> set c. fst (snd t) \<noteq> None \<longrightarrow> fst (the (fst (snd t))) = agent \<longrightarrow> list_ex demo_closed (snd (snd t)))"
  unfolding no_open_turn_def demo_ai_turns demo_turn_open
  by (auto simp: demo_agent_messages_def demo_messages_def) force

lemma demo_push_closes:
  assumes "demo_closed n" "\<forall>t \<in> set c. fst t = u \<longrightarrow> \<not> list_ex demo_closed (snd (snd t))" "t \<in> set c" "fst t = u" "fst (snd t) \<noteq> None"
  defines "c' \<equiv> map (\<lambda>t. if fst t = u then (u, fst (snd t), snd (snd t) @ [n]) else t) c"
  shows "open_turns demo_agent_messages c' < open_turns demo_agent_messages c"
proof -
  let ?p = "\<lambda>t. fst (snd t) \<noteq> None \<and> \<not> list_ex demo_closed (snd (snd t))"
  have "filter ?p c' = filter (\<lambda>t. ?p t \<and> fst t \<noteq> u) c" if "\<forall>t \<in> set c. fst t = u \<longrightarrow> \<not> list_ex demo_closed (snd (snd t))"
    unfolding c'_def using assms(1) by (induction c) auto
  moreover have "length (filter (\<lambda>t. ?p t \<and> fst t \<noteq> u) c) < length (filter ?p c)"
    using length_filter_less [of t "filter ?p c" "\<lambda>t. fst t \<noteq> u"] assms(2-5) by (simp add: conj_commute)
  ultimately show ?thesis
    using assms(2) unfolding demo_open_turns by simp
qed

lemma demo_closing_laws: "closing_laws demo_env"
proof -
  have sel: "ev_messages demo_env = demo_agent_messages" "ev_closure demo_env = (\<lambda>i r. or i (2 ^ 64))"
    by (simp_all add: demo_env_def)
  have closed: "demo_closed (or i (2 ^ 64))" for i :: "128 word"
    unfolding demo_closed_def by (rule le_word_or1)
  have law: "(r = Inr () \<longrightarrow> open_turns demo_agent_messages c' < open_turns demo_agent_messages c) \<and>
       (\<forall>agent. no_open_turn demo_agent_messages c agent \<longrightarrow> no_open_turn demo_agent_messages c' agent)"
    if ap: "apply_closure demo_agent_messages turn n c = (c', r)" and n: "demo_closed n" for turn n c c' r
  proof (cases "r = Inr ()")
    case False
    then have "c' = c"
      using ap demo_push_open_cases [of "tr_id turn" n c]
      by (auto simp: apply_closure_def by_rules_def map_inl_def demo_agent_messages_def split: sum.splits bool.splits)
    with False show ?thesis by simp
  next
    case True
    have ex: "existing demo_agent_messages c turn = Inr True"
      and push: "demo_push_open (tr_id turn) n c = (c', Inr ())"
      using ap True by (auto simp: apply_closure_def by_rules_def map_inl_def demo_agent_messages_def prod_eq_iff
          split: sum.splits bool.splits)
    have opened: "\<forall>t \<in> set c. fst t = tr_id turn \<longrightarrow> \<not> list_ex demo_closed (snd (snd t))"
      and c': "c' = map (\<lambda>t. if fst t = tr_id turn then (tr_id turn, fst (snd t), snd (snd t) @ [n]) else t) c"
      using demo_push_open_cases [of "tr_id turn" n c] push by auto
    obtain t where "find (\<lambda>t. fst t = tr_id turn) c = Some t" "fst (snd t) \<noteq> None"
      using ex by (auto simp: existing_def demo_agent_messages_def demo_messages_def split: sum.splits option.splits if_splits)
    then have t: "t \<in> set c" "fst t = tr_id turn" "fst (snd t) \<noteq> None"
      by (auto simp: find_Some_iff)
    show ?thesis
      using demo_push_closes [OF n opened t] opened unfolding c' demo_no_open_turn by auto
  qed
  show ?thesis
    unfolding closing_laws_def sel using law closed by blast
qed

lemma demo_results_law: "results_law demo_env"
  by (simp add: results_law_def demo_env_def demo_agent_messages_def demo_messages_def)

text \<open>A worker whose thread was left with an open turn.\<close>

definition demo_left_open ::
  "(demo_turn list, 128 word, string, demo_store, (string, 128 word) memory_inbox, uuid, uuid) worker" where
  "demo_left_open = fst (worker_step demo_env demo_client None None (demo_worker 100 3))"

lemma demo_restart_step:
  "case worker_step demo_env demo_client None None (demo_worker 100 3) of (w, _) \<Rightarrow>
     (case close_open_turns demo_env ClosedInterrupted True w of Some (_, r) \<Rightarrow> is_ok r | None \<Rightarrow> False) \<and>
     open_turns demo_agent_messages (conversation w) = 1 \<and> wk_agents w = [2]"
  by code_simp

lemma demo_restart:
  "case close_open_turns demo_env ClosedInterrupted True demo_left_open of Some (_, r) \<Rightarrow> is_ok r | None \<Rightarrow> False"
  "open_turns demo_agent_messages (conversation demo_left_open) = 1" "wk_agents demo_left_open = [2]"
  using demo_restart_step by (simp_all add: demo_left_open_def case_prod_unfold)

lemma demo_tool_round: "is_ok (snd (tool_round demo_env 7 101 (demo_worker 100 3)))"
  by code_simp

section \<open>Properties\<close>

text \<open>
  C26: The work of a ReactAgent, its pass and every pass that mail adds, is a total function, and counts
  at most as many steps as the step limit leaves, one at least; the conversation it ends with asks for
  no tool unless the last step left no step over.
\<close>

theorem react_within_limit:
  "made w \<le> made (fst (react_loop E slot w)) \<and> made (fst (react_loop E slot w)) \<le> made w + max 1 (left w) \<and>
   (case snd (react_loop E slot w) of
      Inl _ \<Rightarrow> True
    | Inr (PassFinal response) \<Rightarrow> ev_calls E response = []
    | Inr (PassStepLimit _) \<Rightarrow> left (fst (react_loop E slot w)) = 0)"
  using react_loop_bounds [of w E slot] by auto

text \<open>
  C25: Every instance that is not dropped ends: whatever the race of the work answers and wherever the
  work was cut, \<open>conclude\<close> returns, the input end is empty, the session holds no open response and no open
  result, and the event of that answer is the one sent on the channel of the instance. There is one
  exception, and there only no event is sent and the instance has vanished: a fault that carries an error
  of the host whose text, asked for outside any guard, panics.
\<close>

theorem agent_end:
  assumes "closing_laws E" "is_working (node_side core)" "raced \<noteq> RacedGone"
  shows "\<exists>w' core' event. conclude E T w core raced = Some (w', core', event) \<and>
    queue core' = [] \<and> open_objects (wk_session w') = 0 \<and>
    (if \<exists>fault panicked. raced = RacedDone (Inl (StopFault fault)) \<and> fault_detail T fault = Inl panicked
     then event = None \<and> node_side core' = Vanished
     else \<exists>ev. event = Some ev \<and> node_side core' = Sent ev \<and> ends_as T raced ev)"
proof -
  obtain w' core' event where "conclude E T w core raced = Some (w', core', event)" "well_ended T raced (w', core', event)"
    using conclude_well [OF assms] by (metis prod_cases3)
  moreover have "unspeakable T raced \<longleftrightarrow> (\<exists>fault panicked. raced = RacedDone (Inl (StopFault fault)) \<and> fault_detail T fault = Inl panicked)"
    by (auto simp: unspeakable_def is_ok_Inl)
  ultimately show ?thesis
    by (cases event) (simp_all add: well_ended_def)
qed

definition demo_texts :: fault_texts where
  "demo_texts = \<lparr>ft_uuids = demo_uuids, ft_duration = (\<lambda>_. ''1s''), ft_sources = (\<lambda>_. []), ft_client = (\<lambda>_. [])\<rparr>"

theorem agent_end_witness:
  "(\<exists>w core. conclude demo_env demo_texts (demo_worker 100 3) (core_new :: (nat, nat event) inner)
       (RacedDone (Inl (StopFault (FaultTool (Cause (Inr ''disk full'')))))) =
     Some (w, core, Some (EvFailed (Cause (Inr ''a tool faulted''))))) \<and>
   (\<exists>w core. conclude demo_env demo_texts (demo_worker 100 3) (core_new :: (nat, nat event) inner)
       (RacedDone (Inl (StopFault (FaultTool (Cause (Inl ''boom'')))))) = Some (w, core, None))"
proof -
  have working: "is_working (node_side (core_new :: (nat, nat event) inner))"
    by (simp add: core_new_def is_working_def)
  show ?thesis
    using agent_end [OF demo_closing_laws working, of "RacedDone (Inl (StopFault (FaultTool (Cause (Inr ''disk full'')))))"
        demo_texts "demo_worker 100 3"]
      agent_end [OF demo_closing_laws working, of "RacedDone (Inl (StopFault (FaultTool (Cause (Inl ''boom'')))))"
        demo_texts "demo_worker 100 3"]
    by (auto simp: fault_detail_def demo_texts_def ends_as_def fault_cause_def TOOL_TEXT_def)
qed

text \<open>
  C30: At the start of an instance, closing the turns that an earlier instance left open returns, and
  when it reports no fault none of the node's agents has an open turn; nor does it ever open a turn.
\<close>

theorem restart_closes_turns:
  assumes "closing_laws E"
  shows "\<exists>w' r. close_open_turns E reason True w = Some (w', r) \<and>
     (\<forall>agent. no_open_turn (ev_messages E) (conversation w) agent \<longrightarrow> no_open_turn (ev_messages E) (conversation w') agent) \<and>
     (r = Inr () \<longrightarrow> (\<forall>agent \<in> set (wk_agents w). no_open_turn (ev_messages E) (conversation w') agent))"
  using close_open_turns_closes [OF assms, of True w reason] by (auto simp: closes_agents_def)

theorem restart_closes_turns_witness:
  "\<exists>w'. close_open_turns demo_env ClosedInterrupted True demo_left_open = Some (w', Inr ()) \<and>
     open_turns (ev_messages demo_env) (conversation demo_left_open) = 1 \<and>
     no_open_turn (ev_messages demo_env) (conversation w') 2"
proof -
  obtain w' r where w': "close_open_turns demo_env ClosedInterrupted True demo_left_open = Some (w', r)"
    "r = Inr () \<longrightarrow> (\<forall>agent \<in> set (wk_agents demo_left_open). no_open_turn (ev_messages demo_env) (conversation w') agent)"
    using restart_closes_turns [OF demo_closing_laws, of ClosedInterrupted demo_left_open] by blast
  moreover have "r = Inr ()"
    using demo_restart(1) w'(1) by (cases r) simp_all
  moreover have "ev_messages demo_env = demo_agent_messages"
    by (simp add: demo_env_def)
  ultimately show ?thesis
    using demo_restart(2,3) by simp
qed

text \<open>
  C29: A tool round that reports no error answers every call of the response exactly once: the conversation
  after it is the one before with one accepted result entry for each call and no other entry, in the order
  in which the tools that do not exist are refused and then the tasks ended, each built for the id and
  the name of its call, and saying so when the node holds no tool of that name. No result is left open that
  was not open before.
\<close>

theorem tool_round_answers:
  assumes "results_law E" "tool_round E turn response w = (w', Inr u)"
  shows "\<exists>target calls ns. tr_id target = turn \<and> mset calls = mset (ev_calls E response) \<and>
    list_all2 (answers E (wk_tools w)) calls ns \<and>
    takes_results (ev_messages E) target ns (conversation w) (conversation w') \<and>
    set (se_results (wk_session w')) \<subseteq> set (se_results (wk_session w))"
  using tool_round_gives [OF assms(2)] tool_round_results [OF assms] by (auto simp: results_of_def gave_def)

theorem tool_round_answers_witness:
  "length (ev_calls demo_env 101) = 1 \<and>
   (\<exists>target n. tr_id target = 7 \<and> answers demo_env (wk_tools (demo_worker 100 3)) (hd (ev_calls demo_env 101)) n \<and>
     apply_results (ev_messages demo_env) target n (conversation (demo_worker 100 3)) =
       (conversation (fst (tool_round demo_env 7 101 (demo_worker 100 3))), Inr ()))"
proof -
  have one: "length (ev_calls demo_env 101) = 1"
    by code_simp
  then obtain call where call: "ev_calls demo_env 101 = [call]"
    by (cases "ev_calls demo_env 101") auto
  obtain u where "snd (tool_round demo_env 7 101 (demo_worker 100 3)) = Inr u"
    using demo_tool_round by (cases "snd (tool_round demo_env 7 101 (demo_worker 100 3))") auto
  then have "tool_round demo_env 7 101 (demo_worker 100 3) = (fst (tool_round demo_env 7 101 (demo_worker 100 3)), Inr u)"
    by (simp add: prod_eq_iff)
  from tool_round_answers [OF demo_results_law this]
  obtain target calls ns where r: "tr_id target = 7" "mset calls = mset [call]"
    "list_all2 (answers demo_env (wk_tools (demo_worker 100 3))) calls ns"
    "takes_results (ev_messages demo_env) target ns (conversation (demo_worker 100 3))
       (conversation (fst (tool_round demo_env 7 101 (demo_worker 100 3))))"
    unfolding call by blast
  then obtain n where "ns = [n]" "calls = [call]"
    by (auto simp: list_all2_Cons1)
  then show ?thesis
    using r one call by auto
qed

end
