(* ===== verification/Agentic_Critic.thy ===== *)
theory Agentic_Critic
  imports Agentic_React
begin

text \<open>
  The generator-critic agent of \<open>br-agentic-nodes\<close> (\<open>generator_critic/\<close>): the answer of a critic
  (\<open>answer.rs\<close>), its view of the conversation, its call and its message (\<open>critic.rs\<close>), the judgement of
  a generation and the loop of generations (\<open>execute.rs\<close>, \<open>mod.rs\<close>).
\<close>

section \<open>What other crates give\<close>

datatype seen_kind = SeenAgentMail | SeenRuntimeNotice | SeenAgentOutput | SeenPartialOutput | SeenOther

type_synonym 'z seen_entry = "seen_kind \<times> 'z"

datatype 'z seen_turn = SeenInput uuid "'z seen_entry list" | SeenAi 'z

datatype parameter_kind = KindString | KindBoolean

type_synonym parameter = "string \<times> string \<times> bool \<times> parameter_kind"

text \<open>
  \<open>ce_wire\<close> is the serde reading of a structured value; \<open>ce_project\<close> a perspective that keeps some entries;
  \<open>ce_from_turns\<close> a thread of the conversation and agent of another; \<open>ce_call\<close> a client call with a sink
  that discards.
\<close>

record ('c, 'n, 's, 'x, 'm, 'z) critic_env =
  ce_wire :: "'z \<Rightarrow> string + (bool \<times> string option)"
  ce_block :: "uuid \<Rightarrow> string \<Rightarrow> string + 'z"
  ce_project :: "agent_id \<Rightarrow> (seen_kind \<Rightarrow> bool) \<Rightarrow> 'c \<Rightarrow> 'z"
  ce_turns :: "'z \<Rightarrow> 'z seen_turn list"
  ce_input_projected :: "uuid \<Rightarrow> 'z seen_entry list \<Rightarrow> string + 'z seen_turn"
  ce_from_turns :: "'z \<Rightarrow> 'z seen_turn list \<Rightarrow> string + 'z"
  ce_human :: "entry_id \<Rightarrow> uuid \<Rightarrow> 'z \<Rightarrow> string + 'z"
  ce_push_incoming :: "uuid \<Rightarrow> 'z \<Rightarrow> 'z \<Rightarrow> string + 'z"
  ce_input_new :: "uuid \<Rightarrow> 'z \<Rightarrow> string + 'z seen_turn"
  ce_push_turn :: "'z seen_turn \<Rightarrow> 'z \<Rightarrow> string + 'z"
  ce_shape :: "string \<Rightarrow> string \<Rightarrow> parameter list \<Rightarrow> string + 'z"
  ce_request :: "'z \<Rightarrow> 'z \<Rightarrow> uuid \<Rightarrow> entry_id \<Rightarrow> 'z \<Rightarrow> string + 'z"
  ce_call :: "'m \<Rightarrow> 'z \<Rightarrow> duration \<Rightarrow> 's \<times> 'x \<Rightarrow> ('s \<times> 'x) \<times> (string + 'n) option"
  ce_response :: "entry_id \<Rightarrow> 'z \<Rightarrow> string + 'n"

section \<open>The answer of the critic\<close>

record answer =
  an_validated :: bool
  an_message :: string

definition ends_badly :: "response_ending \<Rightarrow> bool" where
  "ends_badly e \<longleftrightarrow> e = EndsRefusal \<or> e = EndsFiltering \<or> e = EndsOutputExhaustion"

definition structured_answer ::
  "('c, 't, 'ai, 'n, 'e, 'a, 's, 'h, 'p, 'x, 'm, 'z) node_env \<Rightarrow> ('c, 'n, 's, 'x, 'm, 'z) critic_env \<Rightarrow> 'n \<Rightarrow>
     string + (bool \<times> string option)" where
  "structured_answer E C response =
     (if ends_badly (ev_ending E response)
      then Inl ''the response ends with a refusal, a filter or an exhaustion''
      else case structured_reply (ev_blocks E response) of
        None \<Rightarrow> Inl ''the response holds no structured answer''
      | Some v \<Rightarrow> ce_wire C v)"

text \<open>\<open>unwrap_answer\<close>; the block of the check of the message takes an id.\<close>

definition unwrap_answer ::
  "('c, 't, 'ai, 'n, 'e, 'a, 's, 'h, 'p, 'x, 'm, 'z) node_env \<Rightarrow> ('c, 'n, 's, 'x, 'm, 'z) critic_env \<Rightarrow> 'n \<Rightarrow>
     ('c, 'e, 'a, 's, 'p, 'x, 'z, string, answer) wact" where
  "unwrap_answer E C response =
     bind_act (lift_sum (\<lambda>t. t) (structured_answer E C response)) (\<lambda>(validated, message).
     if validated then ret_act \<lparr>an_validated = True, an_message = (case message of None \<Rightarrow> [] | Some t \<Rightarrow> t)\<rparr>
     else case message of
       None \<Rightarrow> fail_act ''the critic does not validate and gives no message''
     | Some t \<Rightarrow> bind_act (\<lambda>w. case ev_fresh E (wk_outside w) of (x, r) \<Rightarrow> (w\<lparr>wk_outside := x\<rparr>, r)) (\<lambda>i.
         bind_act (lift_sum (\<lambda>_. ''the critic does not validate and gives a blank message'') (ce_block C i t)) (\<lambda>_.
         ret_act \<lparr>an_validated = False, an_message = t\<rparr>)))"

definition critic_parameters :: "bool \<Rightarrow> parameter list" where
  "critic_parameters thinking_field =
     (if thinking_field then [(''thinking'', ''Think about the work before you judge it.'', True, KindString)] else []) @
     [(''is_validated'', ''True when the work is good enough and nothing more is needed.'', True, KindBoolean),
      (''message'', ''What the generator must do to improve its work. Not blank when the work is not validated.'',
       True, KindString)]"

definition critic_shape :: "('c, 'n, 's, 'x, 'm, 'z) critic_env \<Rightarrow> bool \<Rightarrow> fault + 'z" where
  "critic_shape C thinking_field = map_inl FaultValue (ce_shape C ''critic_answer''
     ''The judgement of the critic on the work of the generator.'' (critic_parameters thinking_field))"

section \<open>The call of the critic\<close>

definition visible_to_critic :: "seen_kind \<Rightarrow> bool" where
  "visible_to_critic k \<longleftrightarrow> k \<noteq> SeenAgentMail \<and> k \<noteq> SeenRuntimeNotice"

text \<open>The turns the critic sees: the visible entries of each input turn, and no empty input turn.\<close>

fun critic_turns :: "('c, 'n, 's, 'x, 'm, 'z) critic_env \<Rightarrow> 'z seen_turn list \<Rightarrow> fault + 'z seen_turn list" where
  "critic_turns C [] = Inr []"
| "critic_turns C (SeenInput i es # turns) =
     (let kept = filter (\<lambda>(k, _). visible_to_critic k) es in
      if kept = [] then critic_turns C turns
      else bind_sum (map_inl FaultValue (ce_input_projected C i kept)) (\<lambda>turn.
        map_inr (Cons turn) (critic_turns C turns)))"
| "critic_turns C (SeenAi z # turns) = map_inr (Cons (SeenAi z)) (critic_turns C turns)"

definition critic_view :: "('c, 'n, 's, 'x, 'm, 'z) critic_env \<Rightarrow> agent_id \<Rightarrow> 'c \<Rightarrow> fault + 'z" where
  "critic_view C agent c = (let projected = ce_project C agent visible_to_critic c in
     bind_sum (critic_turns C (ce_turns C projected)) (\<lambda>turns. map_inl FaultValue (ce_from_turns C projected turns)))"

definition shows_agent_output :: "'z seen_entry list \<Rightarrow> bool" where
  "shows_agent_output es \<longleftrightarrow> list_ex (\<lambda>(k, _). k = SeenAgentOutput \<or> k = SeenPartialOutput) es"

record critic_request =
  cr_text :: string
  cr_human :: uuid

definition request_turn :: "'z seen_turn list \<Rightarrow> uuid option" where
  "request_turn turns = (if turns = [] then None else case last turns of
     SeenInput i es \<Rightarrow> if shows_agent_output es then None else Some i
   | SeenAi _ \<Rightarrow> None)"

definition with_request ::
  "('c, 't, 'ai, 'n, 'e, 'a, 's, 'h, 'p, 'x, 'm, 'z) node_env \<Rightarrow> ('c, 'n, 's, 'x, 'm, 'z) critic_env \<Rightarrow> 'z \<Rightarrow>
     critic_request \<Rightarrow> ('c, 'e, 'a, 's, 'p, 'x, 'z, fault, 'z) wact" where
  "with_request E C history request =
     bind_act (new_id E) (\<lambda>b.
     bind_act (lift_sum FaultValue (ce_block C b (cr_text request))) (\<lambda>block.
     bind_act (new_id E) (\<lambda>i.
     bind_act (lift_sum FaultValue (ce_human C i (cr_human request) block)) (\<lambda>message.
     case request_turn (ce_turns C history) of
       Some turn \<Rightarrow> lift_sum FaultValue (ce_push_incoming C turn message history)
     | None \<Rightarrow> bind_act (new_id E) (\<lambda>t.
         bind_act (lift_sum FaultValue (ce_input_new C t message)) (\<lambda>turn.
         lift_sum FaultValue (ce_push_turn C turn history)))))))"

record 'z critic_attempt =
  cc_system :: 'z
  cc_history :: 'z
  cc_request :: critic_request
  cc_timeout :: duration

definition shape_of :: "('c, 'n, 's, 'x, 'm, 'z) critic_env \<Rightarrow> 'm model_client \<Rightarrow> fault + 'z" where
  "shape_of C client = critic_shape C (\<not> should_have_thought client)"

text \<open>What a call of the client gives: an answer, or why there is none.\<close>

definition critic_called ::
  "('c, 't, 'ai, 'n, 'e, 'a, 's, 'h, 'p, 'x, 'm, 'z) node_env \<Rightarrow> ('c, 'n, 's, 'x, 'm, 'z) critic_env \<Rightarrow> duration \<Rightarrow>
     'm model_client \<Rightarrow> (string + 'n) option \<Rightarrow> ('c, 'e, 'a, 's, 'p, 'x, 'z, call_failure, answer) wact" where
  "critic_called E C timeout client called = (case called of
     None \<Rightarrow> fail_act (CallTimeout timeout)
   | Some (Inl failure) \<Rightarrow> fail_act (ClientFailed failure)
   | Some (Inr response) \<Rightarrow> bind_act (lift_sum (\<lambda>e. e) (check_thinking client (ev_blocks E response))) (\<lambda>_.
       map_fail UnusableAnswer (unwrap_answer E C response)))"

definition critic_attempt_call ::
  "('c, 't, 'ai, 'n, 'e, 'a, 's, 'h, 'p, 'x, 'm, 'z) node_env \<Rightarrow> ('c, 'n, 's, 'x, 'm, 'z) critic_env \<Rightarrow> 'z critic_attempt \<Rightarrow>
     'm model_client \<Rightarrow> ('c, 'e, 'a, 's, 'p, 'x, 'z, attempt_error, answer) wact" where
  "critic_attempt_call E C cc client =
     bind_act (map_fail AttemptFatal (with_request E C (cc_history cc) (cc_request cc))) (\<lambda>history.
     bind_act (map_fail AttemptFatal (new_id E)) (\<lambda>turn.
     bind_act (map_fail AttemptFatal (new_id E)) (\<lambda>entry.
     bind_act (lift_sum AttemptFatal (shape_of C client)) (\<lambda>shape.
     bind_act (lift_sum (\<lambda>e. AttemptFatal (FaultValue e)) (ce_request C (cc_system cc) history turn entry shape)) (\<lambda>request.
     bind_act (on_outside (ce_call C (mc_client client) request (cc_timeout cc))) (\<lambda>called.
     map_fail AttemptFailed (critic_called E C (cc_timeout cc) client called)))))))"

definition call_critic ::
  "('c, 't, 'ai, 'n, 'e, 'a, 's, 'h, 'p, 'x, 'm, 'z) node_env \<Rightarrow> ('c, 'n, 's, 'x, 'm, 'z) critic_env \<Rightarrow> ('a, 'z) seat \<Rightarrow>
     critic_request \<Rightarrow> 'm fallback_list \<Rightarrow> ('c, 'e, 'a, 's, 'p, 'x, 'z, fault, answer) wact" where
  "call_critic E C seat request clients = (case se_system seat of
     None \<Rightarrow> fail_act (FaultValue ''the critic has no system prompt'')
   | Some system \<Rightarrow> bind_act (get_act (\<lambda>w. w)) (\<lambda>w.
       bind_act (lift_sum (\<lambda>f. f) (critic_view C (se_agent seat) (se_conversation (wk_session w)))) (\<lambda>history.
       bind_act (drive_act (slot_new clients) (critic_attempt_call E C
         \<lparr>cc_system = system, cc_history = history, cc_request = request, cc_timeout = to_model_call (wk_timeouts w)\<rparr>))
       (\<lambda>driven. ret_act (fst driven)))))"

text \<open>A message of a critic: an AI turn of its own, with one response, closed.\<close>

definition store_message ::
  "('c, 't, 'ai, 'n, 'e, 'a, 's, 'h, 'p, 'x, 'm, 'z) node_env \<Rightarrow> ('c, 'n, 's, 'x, 'm, 'z) critic_env \<Rightarrow> agent_id \<Rightarrow> 'a \<Rightarrow>
     string \<Rightarrow> ('c, 'e, 'a, 's, 'p, 'x, 'z, fault, unit) wact" where
  "store_message E C agent author message =
     bind_act (new_id E) (\<lambda>t.
     let turn = \<lparr>tr_id = t, tr_agent = agent, tr_author = author\<rparr> in
     bind_act (new_id E) (\<lambda>b.
     bind_act (lift_sum FaultValue (ce_block C b message)) (\<lambda>block.
     bind_act (new_id E) (\<lambda>i.
     bind_act (lift_sum FaultValue (ce_response C i block)) (\<lambda>response.
     bind_act (on_session FaultSession (complete_response (ev_messages E) (ev_access E) turn response)) (\<lambda>_.
     worker_close_turn E turn ClosedCompleted))))))"

end
