(* ===== verification/Agentic_Judge.thy ===== *)
theory Agentic_Judge
  imports Agentic_Critic
begin

text \<open>
  The judgement of a generation and the loop of the generator-critic
  (\<open>generator_critic/execute.rs\<close>, \<open>generator_critic/mod.rs\<close>, \<open>outcome.rs\<close>, the critic ports of \<open>ports.rs\<close>).
\<close>

section \<open>The node\<close>

datatype step_limit_ending = WithoutCriticCall | WithCriticCall

datatype round_limit_ending = FinalGeneration | KeepRejectedGeneration | FailAtRounds

datatype judgement = Validated | Rejected | NotJudged

datatype verdict = Accept | Refuse string

datatype ('f, 'n, 'x) critic_request_source =
  RequestFixed critic_request | RequestPort "'f \<Rightarrow> 'n \<Rightarrow> 'x \<Rightarrow> 'x \<times> (port_error + critic_request)"

record ('f, 'n, 'x, 'a) programmatic_critic =
  pc_port :: "'f \<Rightarrow> 'n \<Rightarrow> u32 \<Rightarrow> 'x \<Rightarrow> 'x \<times> (port_error + verdict)"
  pc_limit :: refusal_limit
  pc_author :: "('f, 'x, 'a) author_source"

record 'n gc_outcome =
  go_response :: 'n
  go_judgement :: judgement
  go_iterations :: u32
  go_step_limit_reached :: bool

record ('f, 'n, 'x, 'a, 'm, 'u) gc_body =
  gc_generator :: "'m ladder"
  gc_critic :: "'m ladder"
  gc_round_limit :: round_limit
  gc_request :: "('f, 'n, 'x) critic_request_source"
  gc_generator_author :: "('f, 'x, 'a) author_source"
  gc_critic_author :: "('f, 'x, 'a) author_source"
  gc_outcome_port :: "'f \<Rightarrow> 'n gc_outcome \<Rightarrow> 'x \<Rightarrow> 'x \<times> (port_error + 'u)"
  gc_step_ending :: step_limit_ending
  gc_round_ending :: round_limit_ending
  gc_programmatic :: "('f, 'n, 'x, 'a) programmatic_critic option"

definition GENERATOR_LABEL :: string where "GENERATOR_LABEL = ''generator''"
definition CRITIC_LABEL :: string where "CRITIC_LABEL = ''critic''"
definition PROGRAMMATIC_CRITIC_LABEL :: string where "PROGRAMMATIC_CRITIC_LABEL = ''programmatic_critic''"

definition gc_seats :: "('f, 'n, 'x, 'a, 'm, 'u) gc_body \<Rightarrow> ('f, 'x, 'a) seat_spec list" where
  "gc_seats B =
     [\<lparr>sp_label = GENERATOR_LABEL, sp_author = gc_generator_author B, sp_prompt = True, sp_shape = True\<rparr>,
      \<lparr>sp_label = CRITIC_LABEL, sp_author = gc_critic_author B, sp_prompt = True, sp_shape = False\<rparr>] @
     (case gc_programmatic B of None \<Rightarrow> [] | Some critic \<Rightarrow>
        [\<lparr>sp_label = PROGRAMMATIC_CRITIC_LABEL, sp_author = pc_author critic, sp_prompt = False, sp_shape = False\<rparr>])"

section \<open>The judgement\<close>

record 'n gc_finish =
  gf_response :: 'n
  gf_judgement :: judgement
  gf_step_limit_reached :: bool

datatype 'n gc_next = NextPass | NextEnd "'n gc_finish"

record gc_state =
  gl_iterations :: u32
  gl_drain_first :: bool
  gl_last_scheduled :: bool
  gl_is_last :: bool
  gl_position :: u32
  gl_keep_position :: "u32 option"

text \<open>The rung of a ladder; indexing an empty list panics, and \<open>guarded\<close> makes the panic a fault.\<close>

definition rung :: "'m ladder \<Rightarrow> u32 \<Rightarrow> ('s, fault, 'm fallback_list) act" where
  "rung l position = (case ladder_entry l position of
     Some clients \<Rightarrow> ret_act clients
   | None \<Rightarrow> fail_act (FaultPanic ''index out of bounds: the len is 0 but the index is 0''))"

definition gc_ask ::
  "('c, 't, 'ai, 'n, 'e, 'a, 's, 'h, 'p, 'x, 'm, 'z) node_env \<Rightarrow> ('c, 'n, 's, 'x, 'm, 'z) critic_env \<Rightarrow>
     ('f, 'n, 'x, 'a, 'm, 'u) gc_body \<Rightarrow> ('a, 'z) seat list \<Rightarrow> 'f \<Rightarrow> 'n \<Rightarrow> u32 \<Rightarrow>
     ('c, 'e, 'a, 's, 'p, 'x, 'z, fault, answer) wact" where
  "gc_ask E C B seats snapshot response position =
     bind_act (case gc_request B of
         RequestFixed request \<Rightarrow> ret_act request
       | RequestPort port \<Rightarrow> on_port (port snapshot response)) (\<lambda>request.
     bind_act (lift_sum FaultValue (bo_plain_text (ev_blocks_of E) (cr_text request))) (\<lambda>_.
     bind_act (lift_sum (\<lambda>f. f) (get_seat seats CRITIC_LABEL)) (\<lambda>seat.
     bind_act (rung (gc_critic B) position) (\<lambda>clients. call_critic E C seat request clients))))"

definition put_counters :: "(counters \<Rightarrow> counters) \<Rightarrow> ('c, 'e, 'a, 's, 'p, 'x, 'z, 'g, unit) wact" where
  "put_counters f = put_act (\<lambda>w. w\<lparr>wk_counters := f (wk_counters w)\<rparr>)"

text \<open>A refusal with a reason: the message of the critic, the count, and the limit.\<close>

definition gc_refused ::
  "('c, 't, 'ai, 'n, 'e, 'a, 's, 'h, 'p, 'x, 'm, 'z) node_env \<Rightarrow> ('c, 'n, 's, 'x, 'm, 'z) critic_env \<Rightarrow>
     ('f, 'n, 'x, 'a) programmatic_critic \<Rightarrow> ('a, 'z) seat list \<Rightarrow> string \<Rightarrow> gc_state \<Rightarrow>
     ('c, 'e, 'a, 's, 'p, 'x, 'z, fault, bool \<times> gc_state) wact" where
  "gc_refused E C critic seats reason st =
     (if is_blank reason then fail_act BlankExplicitReason
      else bind_act (lift_sum (\<lambda>f. f) (get_seat seats PROGRAMMATIC_CRITIC_LABEL)) (\<lambda>seat.
        bind_act (store_message E C (se_agent seat) (se_author seat) reason) (\<lambda>_.
        bind_act (put_counters (\<lambda>c. c\<lparr>cn_refusals := sat_inc (cn_refusals c)\<rparr>)) (\<lambda>_.
        bind_act (get_act (\<lambda>w. cn_refusals (wk_counters w) \<ge> refusal_limit_get (pc_limit critic) \<or> remaining (wk_steps w) = 0)) (\<lambda>over.
        if over then fail_act (ProgrammaticRefusal reason)
        else ret_act (False, st\<lparr>gl_keep_position := Some (gl_position st), gl_drain_first := True\<rparr>))))))"

definition gc_check ::
  "('c, 't, 'ai, 'n, 'e, 'a, 's, 'h, 'p, 'x, 'm, 'z) node_env \<Rightarrow> ('c, 'n, 's, 'x, 'm, 'z) critic_env \<Rightarrow>
     ('f, 'n, 'x, 'a, 'm, 'u) gc_body \<Rightarrow> ('a, 'z) seat list \<Rightarrow> 'f \<Rightarrow> 'n \<Rightarrow> gc_state \<Rightarrow>
     ('c, 'e, 'a, 's, 'p, 'x, 'z, fault, bool \<times> gc_state) wact" where
  "gc_check E C B seats snapshot response st = (case gc_programmatic B of
     None \<Rightarrow> ret_act (True, st)
   | Some critic \<Rightarrow>
       bind_act (get_act (\<lambda>w. cn_refusals (wk_counters w))) (\<lambda>refusals.
       bind_act (on_port (pc_port critic snapshot response refusals)) (\<lambda>v.
       case v of
         Accept \<Rightarrow> bind_act (put_counters (\<lambda>c. c\<lparr>cn_refusals := 0\<rparr>)) (\<lambda>_. ret_act (True, st))
       | Refuse reason \<Rightarrow> gc_refused E C critic seats reason st)))"

definition gc_validated ::
  "('c, 't, 'ai, 'n, 'e, 'a, 's, 'h, 'p, 'x, 'm, 'z) node_env \<Rightarrow> gc_state \<Rightarrow> 'n gc_next \<Rightarrow>
     ('c, 'e, 'a, 's, 'p, 'x, 'z, fault, 'n gc_next \<times> gc_state) wact" where
  "gc_validated E st fin = bind_act (get_act (\<lambda>w. remaining (wk_steps w))) (\<lambda>rest.
     if ev_inbox E \<noteq> None \<and> rest > 0
     then bind_act (drain E) (\<lambda>drained.
       if dr_stored drained > 0
       then ret_act (NextPass, st\<lparr>gl_drain_first := False, gl_last_scheduled := False, gl_keep_position := None\<rparr>)
       else ret_act (fin, st))
     else ret_act (fin, st))"

text \<open>What follows the message of a critic that rejects.\<close>

definition gc_after_rejection ::
  "('f, 'n, 'x, 'a, 'm, 'u) gc_body \<Rightarrow> bool \<Rightarrow> bool \<Rightarrow> gc_state \<Rightarrow> 'n gc_next \<Rightarrow> 'n gc_next \<times> gc_state" where
  "gc_after_rejection B at_limit continues st fin =
     (if at_limit then
        (if gc_round_ending B = FinalGeneration \<and> continues
         then (NextPass, st\<lparr>gl_last_scheduled := True, gl_drain_first := True\<rparr>) else (fin, st))
      else if \<not> continues then (fin, st)
      else (NextPass, st\<lparr>gl_last_scheduled := False, gl_drain_first := True\<rparr>))"

definition gc_rejected ::
  "('c, 't, 'ai, 'n, 'e, 'a, 's, 'h, 'p, 'x, 'm, 'z) node_env \<Rightarrow> ('c, 'n, 's, 'x, 'm, 'z) critic_env \<Rightarrow>
     ('f, 'n, 'x, 'a, 'm, 'u) gc_body \<Rightarrow> ('a, 'z) seat list \<Rightarrow> answer \<Rightarrow> gc_state \<Rightarrow> 'n gc_next \<Rightarrow>
     ('c, 'e, 'a, 's, 'p, 'x, 'z, fault, 'n gc_next \<times> gc_state) wact" where
  "gc_rejected E C B seats answer st fin =
     bind_act (put_counters (\<lambda>c. c\<lparr>cn_rounds := sat_inc (cn_rounds c)\<rparr>)) (\<lambda>_.
     bind_act (get_act (\<lambda>w. cn_rounds (wk_counters w) \<ge> round_limit_get (gc_round_limit B))) (\<lambda>at_limit.
     if at_limit \<and> gc_round_ending B = FailAtRounds then fail_act (CriticAtRoundLimit (an_message answer))
     else bind_act (lift_sum (\<lambda>f. f) (get_seat seats CRITIC_LABEL)) (\<lambda>seat.
       bind_act (store_message E C (se_agent seat) (se_author seat) (an_message answer)) (\<lambda>_.
       get_act (\<lambda>w. gc_after_rejection B at_limit (remaining (wk_steps w) > 0) st fin)))))"

definition gc_judge ::
  "('c, 't, 'ai, 'n, 'e, 'a, 's, 'h, 'p, 'x, 'm, 'z) node_env \<Rightarrow> ('c, 'n, 's, 'x, 'm, 'z) critic_env \<Rightarrow>
     ('f, 'n, 'x, 'a, 'm, 'u) gc_body \<Rightarrow> ('a, 'z) seat list \<Rightarrow> 'f \<Rightarrow> 'n pass_end \<Rightarrow> gc_state \<Rightarrow>
     ('c, 'e, 'a, 's, 'p, 'x, 'z, fault, 'n gc_next \<times> gc_state) wact" where
  "gc_judge E C B seats snapshot pend st =
     (let reached = step_limit_reached pend; response = into_response pend;
          fin = (\<lambda>j. NextEnd \<lparr>gf_response = response, gf_judgement = j, gf_step_limit_reached = reached\<rparr>) in
      if reached then
        (if gl_is_last st \<or> gc_step_ending B = WithoutCriticCall then ret_act (fin NotJudged, st)
         else bind_act (gc_ask E C B seats snapshot response (gl_position st)) (\<lambda>answer.
           if an_validated answer then ret_act (fin Validated, st)
           else fail_act (CriticAtStepLimit (an_message answer))))
      else bind_act (gc_check E C B seats snapshot response st) (\<lambda>(ok, st).
        if \<not> ok then ret_act (NextPass, st)
        else if gl_is_last st then ret_act (fin NotJudged, st)
        else bind_act (gc_ask E C B seats snapshot response (gl_position st)) (\<lambda>answer.
          if an_validated answer then gc_validated E st (fin Validated)
          else gc_rejected E C B seats answer st (fin Rejected))))"

section \<open>The loop\<close>

definition gc_initial :: "('c, 'e, 'a, 's, 'p, 'x, 'z) worker \<Rightarrow> gc_state" where
  "gc_initial w = \<lparr>gl_iterations = 0, gl_drain_first = False, gl_last_scheduled = False, gl_is_last = False,
     gl_position = cn_rounds (wk_counters w), gl_keep_position = None\<rparr>"

text \<open>The state of the next generation, after the drain.\<close>

definition gc_schedule :: "bool \<Rightarrow> u32 \<Rightarrow> gc_state \<Rightarrow> gc_state" where
  "gc_schedule request_stored rounds st =
     (let st = st\<lparr>gl_drain_first := False\<rparr>;
          st = (if request_stored then st\<lparr>gl_last_scheduled := False, gl_keep_position := None\<rparr> else st) in
      st\<lparr>gl_position := (case gl_keep_position st of Some p \<Rightarrow> p | None \<Rightarrow> rounds), gl_keep_position := None,
         gl_is_last := gl_last_scheduled st, gl_iterations := gl_iterations st + 1\<rparr>)"

definition gc_generation ::
  "('c, 't, 'ai, 'n, 'e, 'a, 's, 'h, 'p, 'x, 'm, 'z) node_env \<Rightarrow> ('f, 'n, 'x, 'a, 'm, 'u) gc_body \<Rightarrow> gc_state \<Rightarrow>
     ('c, 'e, 'a, 's, 'p, 'x, 'z, stop, 'n pass_end \<times> gc_state) wact" where
  "gc_generation E B st =
     bind_act (if gl_drain_first st then map_fail StopFault (drain E) else ret_act drained_default) (\<lambda>drained.
     bind_act (get_act (\<lambda>w. gc_schedule (dr_request_stored drained) (cn_rounds (wk_counters w)) st)) (\<lambda>st.
     bind_act (map_fail StopFault (rung (gc_generator B) (gl_position st))) (\<lambda>clients.
     bind_act (worker_pass E (slot_new clients)) (\<lambda>passed.
     ret_act (fst passed, st)))))"

definition gc_iteration ::
  "('c, 't, 'ai, 'n, 'e, 'a, 's, 'h, 'p, 'x, 'm, 'z) node_env \<Rightarrow> ('c, 'n, 's, 'x, 'm, 'z) critic_env \<Rightarrow>
     ('f, 'n, 'x, 'a, 'm, 'u) gc_body \<Rightarrow> ('a, 'z) seat list \<Rightarrow> 'f \<Rightarrow> 'n pass_end option \<Rightarrow> gc_state \<Rightarrow>
     ('c, 'e, 'a, 's, 'p, 'x, 'z, stop, 'n gc_next \<times> gc_state) wact" where
  "gc_iteration E C B seats snapshot ended st =
     bind_act (case ended of Some pend \<Rightarrow> ret_act (pend, st) | None \<Rightarrow> gc_generation E B st) (\<lambda>generated.
     map_fail StopFault (gc_judge E C B seats snapshot (fst generated) (snd generated)))"

section \<open>What the judgement leaves alone\<close>

context quiet_frame
begin

lemma moves_on_port [moves_rules]: "moves R (on_port op)"
  by (rule movesI) (simp add: on_port_def fresh case_prod_unfold)

lemma moves_unwrap [moves_rules]: "moves R (unwrap_answer E C response)"
proof -
  have id: "moves R (\<lambda>w. case ev_fresh E (wk_outside w) of (x, r) \<Rightarrow> (w\<lparr>wk_outside := x\<rparr>, r))"
    by (rule movesI) (simp add: fresh case_prod_unfold)
  show ?thesis
    unfolding unwrap_answer_def case_prod_unfold
    by (intro moves_rules pre id [unfolded case_prod_unfold])
qed

lemma moves_with_request [moves_rules]: "moves R (with_request E C history request)"
  unfolding with_request_def by (intro moves_rules pre)

lemma moves_critic_called [moves_rules]: "moves R (critic_called E C timeout client called)"
  unfolding critic_called_def by (intro moves_rules pre)

lemma moves_critic_attempt [moves_rules]: "moves R (critic_attempt_call E C cc client)"
  unfolding critic_attempt_call_def by (intro moves_rules pre)

lemma moves_call_critic [moves_rules]: "moves R (call_critic E C seat request clients)"
  unfolding call_critic_def by (intro moves_rules pre)

lemma moves_store_message [moves_rules]: "moves R (store_message E C agent author message)"
  unfolding store_message_def Let_def by (intro moves_rules pre)

lemma moves_rung [moves_rules]: "moves R (rung l position)"
  unfolding rung_def by (intro moves_rules pre)

lemma moves_ask [moves_rules]: "moves R (gc_ask E C B seats snapshot response position)"
  unfolding gc_ask_def
  by (cases "gc_request B"; simp only: critic_request_source.case; intro moves_rules pre)

end

context worker_frame
begin

lemma moves_validated [moves_rules]: "moves R (gc_validated E st fin)"
  unfolding gc_validated_def by (intro moves_rules pre)

end

lemma same_counters [moves_rules]: "moves same_steps (put_counters f)"
  unfolding put_counters_def by (intro moves_put) (simp add: same_steps_def settled_parts_def)

lemma same_refused [moves_rules]: "moves same_steps (gc_refused E C critic seats reason st)"
  unfolding gc_refused_def by (intro moves_rules preorder_settled)

lemma moves_verdict [moves_rules]:
  "moves R m \<Longrightarrow> (\<And>x. moves R (k x)) \<Longrightarrow> moves R (case v of Accept \<Rightarrow> m | Refuse x \<Rightarrow> k x)"
  by (cases v) simp_all

lemma same_check [moves_rules]: "moves same_steps (gc_check E C B seats snapshot response st)"
  unfolding gc_check_def by (intro moves_rules preorder_settled)

lemma same_rejected [moves_rules]: "moves same_steps (gc_rejected E C B seats answer st fin)"
  unfolding gc_rejected_def by (intro moves_rules preorder_settled)

lemma same_judge: "moves same_steps (gc_judge E C B seats snapshot pend st)"
  unfolding gc_judge_def Let_def case_prod_unfold by (intro moves_rules preorder_settled)

text \<open>A judgement sends the generator back to work only while steps remain.\<close>

lemma refused_left:
  assumes "gc_refused E C critic seats reason st w = (w', Inr (False, st'))"
  shows "0 < left w'"
  using assms unfolding gc_refused_def left_def
  by (auto simp: unat_gt_0 split: if_splits elim!: bind_act_okE)

lemma check_refuses_left:
  assumes "gc_check E C B seats snapshot response st w = (w', Inr (False, st'))"
  shows "0 < left w'"
  using assms unfolding gc_check_def
  by (auto split: option.splits verdict.splits elim!: bind_act_okE dest: refused_left)

lemma validated_left:
  assumes "gc_validated E st (NextEnd f) w = (w', Inr (NextPass, st'))"
  shows "0 < left w'"
proof -
  obtain d where "drain E w = (w', Inr d)" "remaining (wk_steps w) > 0"
    using assms unfolding gc_validated_def by (auto split: if_splits elim!: bind_act_okE)
  then show ?thesis
    using moves_pair [OF same.moves_drain, of E w w' "Inr d"] by (auto simp: same_steps_def left_def unat_gt_0)
qed

lemma rejected_left:
  assumes "gc_rejected E C B seats answer st (NextEnd f) w = (w', Inr (NextPass, st'))"
  shows "0 < left w'"
  using assms unfolding gc_rejected_def
  by (auto simp: gc_after_rejection_def left_def unat_gt_0 split: if_splits elim!: bind_act_okE)

lemma judge_left:
  assumes "gc_judge E C B seats snapshot pend st w = (w', Inr (NextPass, st'))"
  shows "0 < left w'"
  using assms unfolding gc_judge_def Let_def
  by (auto split: if_splits elim!: bind_act_okE dest!: check_refuses_left validated_left rejected_left)

lemma generation_bounds:
  assumes "gc_generation E B st w = (w', Inr (pend, st'))"
  shows "left w' < max 1 (left w) \<and> made w \<le> made w' \<and> made w' + left w' \<le> made w + max 1 (left w) \<and>
    gl_iterations st' = gl_iterations st + 1 \<and> (step_limit_reached pend \<longrightarrow> left w' = 0)"
proof -
  obtain w1 d clients slot where
    d: "(if gl_drain_first st then map_fail StopFault (drain E) else ret_act drained_default) w = (w1, (Inr d :: stop + drained))"
    and st': "st' = gc_schedule (dr_request_stored d) (cn_rounds (wk_counters w1)) st"
    and pass: "worker_pass E (slot_new clients) w1 = (w', Inr (pend, slot))"
    using assms unfolding gc_generation_def
    by (elim bind_act_okE) (auto simp: rung_def map_fail_Inr split: option.splits)
  have "moves same_steps (if gl_drain_first st then map_fail StopFault (drain E) else ret_act drained_default)"
    by (intro moves_rules preorder_settled)
  from same_steps_counts [OF moves_pair [OF this d]] have "made w1 = made w" "left w1 = left w"
    by simp_all
  moreover have "pass_bounds E w1 w' (Inr (pend, slot))"
    using pass_loop_bounds [of E w1 "slot_new clients" None False] pass by (simp add: worker_pass_def)
  moreover have "gl_iterations st' = gl_iterations st + 1"
    by (simp add: st' gc_schedule_def Let_def)
  ultimately show ?thesis
    by (auto simp: pass_bounds_def step_limit_reached_def split: pass_end.splits)
qed

text \<open>The measure of the loop: a restored ending is judged once, before any generation.\<close>

definition gc_measure :: "'n pass_end option \<Rightarrow> ('c, 'e, 'a, 's, 'p, 'x, 'z) worker \<Rightarrow> nat" where
  "gc_measure ended w = 2 * left w + (if ended = None then 0 else 1)"

lemma iteration_parts:
  assumes "gc_iteration E C B seats snapshot ended st w = (w', Inr (q, st'))"
  obtains w1 pend st1 where
    "ended = None \<and> gc_generation E B st w = (w1, Inr (pend, st1)) \<or> ended = Some pend \<and> w1 = w \<and> st1 = st"
    "gc_judge E C B seats snapshot pend st1 w1 = (w', Inr (q, st'))"
proof -
  obtain w1 g where g: "(case ended of Some pend \<Rightarrow> ret_act (pend, st) | None \<Rightarrow> gc_generation E B st) w = (w1, Inr g)"
    and j: "gc_judge E C B seats snapshot (fst g) (snd g) w1 = (w', Inr (q, st'))"
    using assms unfolding gc_iteration_def by (elim bind_act_okE) (simp add: map_fail_Inr)
  show ?thesis
    using that [of w1 "fst g" "snd g"] g j by (cases g) (auto split: option.splits)
qed

lemma iteration_decreases:
  assumes "gc_iteration E C B seats snapshot ended st w = (w', Inr (NextPass, st'))"
  shows "gc_measure None w' < gc_measure ended w"
proof -
  obtain w1 pend st1 where
    g: "ended = None \<and> gc_generation E B st w = (w1, Inr (pend, st1)) \<or> ended = Some pend \<and> w1 = w \<and> st1 = st"
    and j: "gc_judge E C B seats snapshot pend st1 w1 = (w', Inr (NextPass, st'))"
    using iteration_parts [OF assms] .
  have "0 < left w'" "left w' = left w1"
    using judge_left [OF j] same_steps_counts [OF moves_pair [OF same_judge j]] by simp_all
  then show ?thesis
    using g generation_bounds [of E B st w w1 pend st1] by (auto simp: gc_measure_def)
qed

function gc_loop ::
  "('c, 't, 'ai, 'n, 'e, 'a, 's, 'h, 'p, 'x, 'm, 'z) node_env \<Rightarrow> ('c, 'n, 's, 'x, 'm, 'z) critic_env \<Rightarrow>
     ('f, 'n, 'x, 'a, 'm, 'u) gc_body \<Rightarrow> ('a, 'z) seat list \<Rightarrow> 'f \<Rightarrow> 'n pass_end option \<Rightarrow> gc_state \<Rightarrow>
     ('c, 'e, 'a, 's, 'p, 'x, 'z, stop, 'n gc_finish \<times> gc_state) wact" where
  "gc_loop E C B seats snapshot ended st w = (case gc_iteration E C B seats snapshot ended st w of
     (w1, Inl stopped) \<Rightarrow> (w1, Inl stopped)
   | (w1, Inr (NextEnd fin, st1)) \<Rightarrow> (w1, Inr (fin, st1))
   | (w1, Inr (NextPass, st1)) \<Rightarrow> gc_loop E C B seats snapshot None st1 w1)"
  by pat_completeness auto
termination
  by (relation "measure (\<lambda>(E, C, B, seats, snapshot, ended, st, w). gc_measure ended w)")
    (auto dest: iteration_decreases [OF sym])

declare gc_loop.simps [simp del]

text \<open>For evaluation: the loop looks at the result of an iteration before it goes on.\<close>

definition gc_after ::
  "('c, 't, 'ai, 'n, 'e, 'a, 's, 'h, 'p, 'x, 'm, 'z) node_env \<Rightarrow> ('c, 'n, 's, 'x, 'm, 'z) critic_env \<Rightarrow>
     ('f, 'n, 'x, 'a, 'm, 'u) gc_body \<Rightarrow> ('a, 'z) seat list \<Rightarrow> 'f \<Rightarrow>
     ('c, 'e, 'a, 's, 'p, 'x, 'z) worker \<times> (stop + 'n gc_next \<times> gc_state) \<Rightarrow>
     ('c, 'e, 'a, 's, 'p, 'x, 'z) worker \<times> (stop + 'n gc_finish \<times> gc_state)" where
  "gc_after E C B seats snapshot out = (case snd out of
     Inl stopped \<Rightarrow> (fst out, Inl stopped)
   | Inr r \<Rightarrow> (case fst r of
       NextEnd fin \<Rightarrow> (fst out, Inr (fin, snd r))
     | NextPass \<Rightarrow> gc_loop E C B seats snapshot None (snd r) (fst out)))"

lemma gc_loop_code [code]:
  "gc_loop E C B seats snapshot ended st w =
     gc_after E C B seats snapshot (gc_iteration E C B seats snapshot ended st w)"
  by (subst gc_loop.simps) (simp add: gc_after_def split: prod.split sum.split gc_next.split)

definition gc_execute ::
  "('c, 't, 'ai, 'n, 'e, 'a, 's, 'h, 'p, 'x, 'm, 'z) node_env \<Rightarrow> ('c, 'n, 's, 'x, 'm, 'z) critic_env \<Rightarrow>
     ('f, 'v, 'x, 'a, 'z) node_ports \<Rightarrow> ('f, 'n, 'x, 'a, 'm, 'u) gc_body \<Rightarrow> ('a, 'z) seat list \<Rightarrow> 'f \<Rightarrow>
     ('c, 'e, 'a, 's, 'p, 'x, 'z, stop, 'u) wact" where
  "gc_execute E C Q B seats snapshot =
     bind_act (get_act (\<lambda>w. (restored E w, gc_initial w))) (\<lambda>start.
     bind_act (gc_loop E C B seats snapshot (fst start) (snd start)) (\<lambda>r.
     bind_act (map_fail StopFault (on_port (gc_outcome_port B snapshot
       \<lparr>go_response = gf_response (fst r), go_judgement = gf_judgement (fst r), go_iterations = gl_iterations (snd r),
        go_step_limit_reached = gf_step_limit_reached (fst r)\<rparr>))) (\<lambda>update.
     map_fail StopFault (worker_finish Q snapshot update))))"

section \<open>The limits of the critic\<close>

text \<open>Every operation of the worker keeps the counters of the critic or starts them again.\<close>

definition calm :: "('c, 'e, 'a, 's, 'p, 'x, 'z) worker \<Rightarrow> ('c, 'e, 'a, 's, 'p, 'x, 'z) worker \<Rightarrow> bool" where
  "calm w w' \<longleftrightarrow> wk_counters w' = wk_counters w \<or> wk_counters w' = counters_default"

interpretation calm: worker_frame calm
  by unfold_locales (auto simp: preorder_def calm_def)

lemma calm_step [moves_rules]: "moves calm (worker_step E slot turn warning)"
  unfolding worker_step_def by (intro moves_rules calm.pre moves_put) (simp add: calm_def)

lemma calm_pass_loop: "calm w (fst (pass_loop E slot turn warn w))"
proof (induction E slot turn warn w rule: pass_loop.induct)
  case (1 E slot turn warn w)
  obtain w1 r where step: "worker_step E slot turn (if warn then warning_text (remaining (wk_steps w)) else None) w = (w1, r)"
    by fastforce
  have one: "calm w w1"
    using moves_pair [OF calm_step step] .
  show ?case
  proof (cases r)
    case (Inl fault)
    then show ?thesis using pass_loop_step_fails [of E slot turn warn w w1 fault] step one by simp
  next
    case (Inr rso)
    obtain response slot1 opened where rso: "rso = (response, slot1, opened)"
      by (cases rso) auto
    obtain w2 q where turn: "pass_turn E opened response w1 = (w2, q)"
      by fastforce
    have two: "calm w w2"
      using preorder_trans [OF calm.pre one moves_pair [OF calm.moves_pass_turn turn]] .
    note loop = pass_loop_step [OF step [unfolded Inr rso]]
    show ?thesis
    proof (cases "q = Inr None")
      case True
      show ?thesis
        using loop turn True preorder_trans [OF calm.pre two 1 [OF step [symmetric] Inr rso [symmetric] refl turn [symmetric] True refl]]
        by simp
    next
      case False
      then show ?thesis
        using loop turn two by (auto split: sum.splits option.splits)
    qed
  qed
qed

lemma calm_pass [moves_rules]: "moves calm (worker_pass E slot)"
  by (rule movesI) (simp add: worker_pass_def calm_pass_loop)

text \<open>Without a drain, they are kept.\<close>

definition kept :: "('c, 'e, 'a, 's, 'p, 'x, 'z) worker \<Rightarrow> ('c, 'e, 'a, 's, 'p, 'x, 'z) worker \<Rightarrow> bool" where
  "kept w w' \<longleftrightarrow> wk_counters w' = wk_counters w"

interpretation kept: quiet_frame kept
  by unfold_locales (auto simp: preorder_def kept_def)

lemmas kept_store = moves_pair [OF kept.moves_store_message, unfolded kept_def]
lemmas kept_ask = moves_pair [OF kept.moves_ask, unfolded kept_def]
lemmas kept_port = moves_pair [OF kept.moves_on_port, unfolded kept_def]

definition positive_limits :: "('f, 'n, 'x, 'a, 'm, 'u) gc_body \<Rightarrow> bool" where
  "positive_limits B \<longleftrightarrow> round_limit_get (gc_round_limit B) \<noteq> 0 \<and>
     (case gc_programmatic B of None \<Rightarrow> True | Some critic \<Rightarrow> refusal_limit_get (pc_limit critic) \<noteq> 0)"

text \<open>Fewer rounds and refusals than the limits, unless the last generation is scheduled.\<close>

definition within_limits :: "('f, 'n, 'x, 'a, 'm, 'u) gc_body \<Rightarrow> bool \<Rightarrow> ('c, 'e, 'a, 's, 'p, 'x, 'z) worker \<Rightarrow> bool" where
  "within_limits B final w \<longleftrightarrow> (cn_rounds (wk_counters w) < round_limit_get (gc_round_limit B) \<or> final) \<and>
     (case gc_programmatic B of None \<Rightarrow> True | Some critic \<Rightarrow> cn_refusals (wk_counters w) < refusal_limit_get (pc_limit critic))"

lemma within_default: "positive_limits B \<Longrightarrow> wk_counters w = counters_default \<Longrightarrow> within_limits B final w"
  by (auto simp: positive_limits_def within_limits_def counters_default_def word_neq_0_conv split: option.splits)

lemma within_calm: "positive_limits B \<Longrightarrow> calm w w' \<Longrightarrow> within_limits B final w \<Longrightarrow> within_limits B final w'"
  using within_default [of B w' final] unfolding calm_def by (auto simp: within_limits_def split: option.splits)

lemma drain_request: "drain E w = (w', Inr d) \<Longrightarrow> dr_request_stored d \<Longrightarrow> wk_counters w' = counters_default"
  unfolding drain_def Let_def
  by (auto simp: drained_default_def split: option.splits if_splits elim!: bind_act_okE)

lemma generation_within:
  assumes "positive_limits B" "within_limits B (gl_last_scheduled st) w" "gc_generation E B st w = (w', Inr (pend, st'))"
  shows "within_limits B (gl_last_scheduled st') w' \<and> gl_is_last st' = gl_last_scheduled st'"
proof -
  obtain w1 d clients slot where
    d: "(if gl_drain_first st then map_fail StopFault (drain E) else ret_act drained_default) w = (w1, (Inr d :: stop + drained))"
    and st': "st' = gc_schedule (dr_request_stored d) (cn_rounds (wk_counters w1)) st"
    and pass: "worker_pass E (slot_new clients) w1 = (w', Inr (pend, slot))"
    using assms(3) unfolding gc_generation_def
    by (elim bind_act_okE) (auto simp: rung_def map_fail_Inr split: option.splits)
  have "moves calm (if gl_drain_first st then map_fail StopFault (drain E) else ret_act drained_default)"
    by (intro moves_rules calm.pre)
  from within_calm [OF assms(1) moves_pair [OF this d]] have "within_limits B (gl_last_scheduled st) w1"
    using assms(2) .
  moreover have "dr_request_stored d \<Longrightarrow> wk_counters w1 = counters_default"
    using d drain_request [of E w w1 d] by (auto simp: map_fail_Inr drained_default_def split: if_splits)
  ultimately have "within_limits B (gl_last_scheduled st') w1"
    using within_default [OF assms(1)] by (auto simp: st' gc_schedule_def Let_def)
  then show ?thesis
    using within_calm [OF assms(1) moves_pair [OF calm_pass pass]] by (auto simp: st' gc_schedule_def Let_def)
qed

lemma lift_sum_Inr: "lift_sum f r s = (s', Inr x) \<longleftrightarrow> s' = s \<and> r = Inr x"
  by (cases r) auto

lemma check_within:
  assumes "gc_check E C B seats snapshot response st w = (w', Inr (acc, st'))" "within_limits B (gl_last_scheduled st) w"
    "positive_limits B"
  shows "within_limits B (gl_last_scheduled st) w' \<and> gl_last_scheduled st' = gl_last_scheduled st \<and> gl_is_last st' = gl_is_last st \<and>
    gl_position st' = gl_position st"
proof (cases "gc_programmatic B")
  case None
  then show ?thesis
    using assms by (simp add: gc_check_def)
next
  case (Some critic)
  then obtain w1 v where v: "on_port (pc_port critic snapshot response (cn_refusals (wk_counters w))) w = (w1, Inr v)"
    and on: "(case v of
         Accept \<Rightarrow> bind_act (put_counters (\<lambda>c. c\<lparr>cn_refusals := 0\<rparr>)) (\<lambda>_. ret_act (True, st))
       | Refuse reason \<Rightarrow> gc_refused E C critic seats reason st) w1 = (w', Inr (acc, st'))"
    using assms(1) by (auto simp: gc_check_def elim!: bind_act_okE)
  have same: "wk_counters w1 = wk_counters w"
    using kept_port [OF v] .
  show ?thesis
  proof (cases v)
    case Accept
    then show ?thesis
      using on same assms(2,3) Some by (auto simp: put_counters_def within_limits_def positive_limits_def word_neq_0_conv)
  next
    case (Refuse reason)
    then have "gc_refused E C critic seats reason st w1 = (w', Inr (acc, st'))"
      using on by simp
    then obtain agent author w2 where store: "store_message E C agent author reason w1 = (w2, (Inr () :: fault + unit))"
      and w': "w' = w2\<lparr>wk_counters := (wk_counters w2)\<lparr>cn_refusals := sat_inc (cn_refusals (wk_counters w2))\<rparr>\<rparr>"
      and under: "cn_refusals (wk_counters w') < refusal_limit_get (pc_limit critic)"
      and st': "st' = st\<lparr>gl_keep_position := Some (gl_position st), gl_drain_first := True\<rparr>"
      unfolding gc_refused_def put_counters_def by (auto simp: not_le lift_sum_Inr split: if_splits elim!: bind_act_okE)
    show ?thesis
      using kept_store [OF store] same under assms(2) Some st' by (simp add: within_limits_def w')
  qed
qed

lemma validated_within:
  assumes "gc_validated E st (NextEnd f) w = (w', Inr (NextPass, st'))" "within_limits B False w" "positive_limits B"
  shows "within_limits B (gl_last_scheduled st') w'"
proof -
  obtain d where "drain E w = (w', Inr d)"
    using assms(1) unfolding gc_validated_def by (auto split: if_splits elim!: bind_act_okE)
  then have "calm w w'"
    using moves_pair [OF calm.moves_drain] by blast
  from within_calm [OF assms(3) this assms(2)] show ?thesis
    by (simp add: within_limits_def)
qed

text \<open>After a rejection: a message is in the thread and the round is counted.\<close>

lemma rejected_parts:
  assumes "gc_rejected E C B seats answer st fin w = (w', Inr (q, st'))"
  shows "wk_counters w' = (wk_counters w)\<lparr>cn_rounds := sat_inc (cn_rounds (wk_counters w))\<rparr>"
    "(q, st') = gc_after_rejection B (cn_rounds (wk_counters w') \<ge> round_limit_get (gc_round_limit B)) (0 < left w') st fin"
    "cn_rounds (wk_counters w') \<ge> round_limit_get (gc_round_limit B) \<longrightarrow> gc_round_ending B \<noteq> FailAtRounds"
proof -
  let ?w = "w\<lparr>wk_counters := (wk_counters w)\<lparr>cn_rounds := sat_inc (cn_rounds (wk_counters w))\<rparr>\<rparr>"
  let ?at = "cn_rounds (wk_counters ?w) \<ge> round_limit_get (gc_round_limit B)"
  obtain agent author where store: "store_message E C agent author (an_message answer) ?w = (w', (Inr () :: fault + unit))"
    and q: "(q, st') = gc_after_rejection B ?at (0 < left w') st fin" and ending: "?at \<longrightarrow> gc_round_ending B \<noteq> FailAtRounds"
    using assms unfolding gc_rejected_def put_counters_def left_def
    by (auto simp: unat_gt_0 word_neq_0_conv lift_sum_Inr split: if_splits elim!: bind_act_okE)
  have "wk_counters w' = wk_counters ?w"
    using kept_store [OF store] .
  then show "wk_counters w' = (wk_counters w)\<lparr>cn_rounds := sat_inc (cn_rounds (wk_counters w))\<rparr>"
    "(q, st') = gc_after_rejection B (cn_rounds (wk_counters w') \<ge> round_limit_get (gc_round_limit B)) (0 < left w') st fin"
    "cn_rounds (wk_counters w') \<ge> round_limit_get (gc_round_limit B) \<longrightarrow> gc_round_ending B \<noteq> FailAtRounds"
    using q ending by simp_all
qed

text \<open>The branches of a judgement.\<close>

lemma judge_cases:
  assumes "gc_judge E C B seats snapshot pend st w = (w', Inr (q, st'))"
  defines "fin \<equiv> \<lambda>j. NextEnd \<lparr>gf_response = into_response pend, gf_judgement = j, gf_step_limit_reached = step_limit_reached pend\<rparr>"
  obtains (limit) "step_limit_reached pend" "st' = st"
      "q = fin NotJudged \<and> (gl_is_last st \<or> gc_step_ending B = WithoutCriticCall) \<or> q = fin Validated \<and> \<not> gl_is_last st"
      "wk_counters w' = wk_counters w"
    | (refused) "\<not> step_limit_reached pend" "gc_check E C B seats snapshot (into_response pend) st w = (w', Inr (False, st'))" "q = NextPass"
    | (final) "\<not> step_limit_reached pend" "gc_check E C B seats snapshot (into_response pend) st w = (w', Inr (True, st'))"
      "gl_is_last st'" "q = fin NotJudged"
    | (validated) w1 st1 w2 where "\<not> step_limit_reached pend"
      "gc_check E C B seats snapshot (into_response pend) st w = (w1, Inr (True, st1))" "\<not> gl_is_last st1"
      "wk_counters w2 = wk_counters w1" "gc_validated E st1 (fin Validated) w2 = (w', Inr (q, st'))"
    | (rejected) w1 st1 w2 answer where "\<not> step_limit_reached pend"
      "gc_check E C B seats snapshot (into_response pend) st w = (w1, Inr (True, st1))" "\<not> gl_is_last st1"
      "wk_counters w2 = wk_counters w1" "gc_rejected E C B seats answer st1 (fin Rejected) w2 = (w', Inr (q, st'))"
proof (cases "step_limit_reached pend")
  case True
  then show ?thesis
    using assms(1) limit by (auto simp: gc_judge_def Let_def fin_def split: if_splits elim!: bind_act_okE dest: kept_ask)
next
  case False
  define on where "on ok st = (if \<not> ok then ret_act (NextPass, st)
        else if gl_is_last st then ret_act (fin NotJudged, st)
        else bind_act (gc_ask E C B seats snapshot (into_response pend) (gl_position st)) (\<lambda>answer.
          if an_validated answer then gc_validated E st (fin Validated)
          else gc_rejected E C B seats answer st (fin Rejected)))" for ok st
  have reached: "step_limit_reached pend = False"
    using False by simp
  have "bind_act (gc_check E C B seats snapshot (into_response pend) st) (\<lambda>(ok, st). on ok st) w = (w', Inr (q, st'))"
    using assms(1) unfolding on_def fin_def gc_judge_def Let_def reached if_False .
  then obtain w1 ok st1 where check: "gc_check E C B seats snapshot (into_response pend) st w = (w1, Inr (ok, st1))"
    and on: "on ok st1 w1 = (w', Inr (q, st'))"
    by (elim bind_act_okE) auto
  show ?thesis
  proof (cases "ok \<and> \<not> gl_is_last st1")
    case True
    then obtain w2 answer where ask: "gc_ask E C B seats snapshot (into_response pend) (gl_position st1) w1 = (w2, Inr answer)"
      and "(if an_validated answer then gc_validated E st1 (fin Validated)
          else gc_rejected E C B seats answer st1 (fin Rejected)) w2 = (w', Inr (q, st'))"
      using on True by (auto simp: on_def elim!: bind_act_okE)
    then show ?thesis
      using validated [of w1 st1 w2] rejected [of w1 st1 w2 answer] False check True kept_ask [OF ask] by (auto split: if_splits)
  next
    case not: False
    then show ?thesis
      using on check False refused final by (cases ok) (auto simp: on_def)
  qed
qed

lemma judge_within:
  assumes "gc_judge E C B seats snapshot pend st w = (w', Inr (NextPass, st'))" "positive_limits B"
    "within_limits B (gl_last_scheduled st) w" "gl_is_last st = gl_last_scheduled st"
  shows "within_limits B (gl_last_scheduled st') w'"
  using assms(1)
proof (cases rule: judge_cases)
  case refused
  then show ?thesis
    using check_within [OF refused(2) assms(3,2)] by simp
next
  case (validated w1 st1 w2)
  have "within_limits B False w2"
    using check_within [OF validated(2) assms(3,2)] assms(4) validated(3,4) by (auto simp: within_limits_def split: option.splits)
  then show ?thesis
    using validated_within [OF validated(5) _ assms(2)] by simp
next
  case (rejected w1 st1 w2 answer)
  have "within_limits B False w2"
    using check_within [OF rejected(2) assms(3,2)] assms(4) rejected(3,4) by (auto simp: within_limits_def split: option.splits)
  then show ?thesis
    using rejected_parts [OF rejected(5)] by (auto simp: within_limits_def gc_after_rejection_def split: if_splits option.splits)
qed simp_all

definition ending_ok :: "('f, 'n, 'x, 'a, 'm, 'u) gc_body \<Rightarrow> 'n gc_finish \<Rightarrow> gc_state \<Rightarrow> ('c, 'e, 'a, 's, 'p, 'x, 'z) worker \<Rightarrow> bool" where
  "ending_ok B f st w = (case gf_judgement f of
     Validated \<Rightarrow> \<not> gl_is_last st
   | NotJudged \<Rightarrow> gl_is_last st \<or> gf_step_limit_reached f \<and> gc_step_ending B = WithoutCriticCall
   | Rejected \<Rightarrow> \<not> gl_is_last st \<and> \<not> gf_step_limit_reached f \<and>
       (left w = 0 \<or> gc_round_ending B = KeepRejectedGeneration \<and> cn_rounds (wk_counters w) \<ge> round_limit_get (gc_round_limit B)))"

lemma judge_ending:
  assumes "gc_judge E C B seats snapshot pend st w = (w', Inr (NextEnd f, st'))" "positive_limits B"
    "within_limits B (gl_last_scheduled st) w" "gl_is_last st = gl_last_scheduled st"
  shows "ending_ok B f st' w'"
  using assms(1)
proof (cases rule: judge_cases)
  case (validated w1 st1 w2)
  then show ?thesis
    by (auto simp: gc_validated_def ending_ok_def split: if_splits elim!: bind_act_okE)
next
  case (rejected w1 st1 w2 answer)
  note parts = rejected_parts [OF rejected(5)]
  have "f = \<lparr>gf_response = into_response pend, gf_judgement = Rejected, gf_step_limit_reached = step_limit_reached pend\<rparr>" "st' = st1"
    "cn_rounds (wk_counters w') \<ge> round_limit_get (gc_round_limit B) \<and>
       \<not> (gc_round_ending B = FinalGeneration \<and> 0 < left w') \<or> left w' = 0"
    using parts(2) by (auto simp: gc_after_rejection_def split: if_splits)
  then show ?thesis
    using rejected(1,3) parts(3) by (cases "gc_round_ending B") (auto simp: ending_ok_def)
qed (auto simp: ending_ok_def)

section \<open>What the critic said\<close>

text \<open>A reply of the critic: it did not end badly, and its structured block reads as that judgement.\<close>

definition critic_says ::
  "('c, 't, 'ai, 'n, 'e, 'a, 's, 'h, 'p, 'x, 'm, 'z) node_env \<Rightarrow> ('c, 'n, 's, 'x, 'm, 'z) critic_env \<Rightarrow> bool \<Rightarrow> 'n \<Rightarrow> bool" where
  "critic_says E C validates reply \<longleftrightarrow> \<not> ends_badly (ev_ending E reply) \<and>
     (\<exists>z message. structured_reply (ev_blocks E reply) = Some z \<and> ce_wire C z = Inr (validates, message))"

text \<open>A reply that a client of the list gave to a call.\<close>

definition critic_replied :: "('c, 'n, 's, 'x, 'm, 'z) critic_env \<Rightarrow> 'm fallback_list \<Rightarrow> 'n \<Rightarrow> bool" where
  "critic_replied C clients reply \<longleftrightarrow> (\<exists>client \<in> set (fl_clients clients). \<exists>request timeout sx.
     snd (ce_call C (mc_client client) request timeout sx) = Some (Inr reply))"

lemma drive_from_out:
  "drive_from attempt slot tried w = (sw, Inr out) \<Longrightarrow>
     \<exists>client \<in> set (fl_clients (sl_list slot)). \<exists>w1 w2. attempt client w1 = (w2, Inr out)"
proof (induction attempt slot tried w rule: drive_from.induct)
  case (1 attempt slot tried w)
  obtain index client where c: "candidate slot tried = Some (index, client)"
    using "1.prems" by (subst (asm) drive_from.simps) (auto split: option.splits)
  have member: "client \<in> set (fl_clients (sl_list slot))"
    using c by (auto simp: candidate_def fallback_get_def split: option.splits if_splits)
  show ?case
  proof (cases "switches (snd (attempt client w)) \<and> may_switch slot tried")
    case True
    then obtain w' e where a: "attempt client w = (w', Inl (AttemptFailed e))"
      by (cases "attempt client w") (auto simp: switches_def split: sum.splits attempt_error.splits)
    show ?thesis
      using "1.IH" [OF c refl a [symmetric] refl refl] "1.prems" drive_from_switch [where attempt = attempt, OF c] True a by simp
  next
    case False
    then show ?thesis
      using drive_from_stop [where attempt = attempt, OF c False] "1.prems" member
      by (cases "attempt client w"; cases "snd (attempt client w)")
        (auto simp: drive_answer_def split: attempt_error.splits intro!: bexI [of _ client])
  qed
qed

lemma called_says:
  assumes "critic_called E C timeout client called w = (w', Inr answer)"
  obtains reply where "called = Some (Inr reply)" "critic_says E C (an_validated answer) reply"
proof -
  obtain reply where reply: "called = Some (Inr reply)"
    and u: "unwrap_answer E C reply w = (w', Inr answer)"
    using assms unfolding critic_called_def
    by (auto simp: map_fail_Inr lift_sum_Inr split: option.splits sum.splits elim!: bind_act_okE)
  obtain v m where s: "structured_answer E C reply = Inr (v, m)"
    using u unfolding unwrap_answer_def by (cases "structured_answer E C reply") auto
  have "v = an_validated answer"
    using u s unfolding unwrap_answer_def
    by (auto simp: lift_sum_Inr split: if_splits option.splits elim!: bind_act_okE)
  then have "critic_says E C (an_validated answer) reply"
    using s by (auto simp: structured_answer_def critic_says_def split: if_splits option.splits)
  with reply that show thesis by blast
qed

lemma attempt_says:
  assumes "critic_attempt_call E C cc client w = (w', Inr answer)"
  shows "\<exists>request timeout sx reply. snd (ce_call C (mc_client client) request timeout sx) = Some (Inr reply) \<and>
    critic_says E C (an_validated answer) reply"
proof -
  obtain request w1 w2 called where call: "on_outside (ce_call C (mc_client client) request (cc_timeout cc)) w1 = (w2, (Inr called :: attempt_error + _))"
    and c: "critic_called E C (cc_timeout cc) client called w2 = (w', Inr answer)"
    using assms unfolding critic_attempt_call_def by (auto simp: map_fail_Inr lift_sum_Inr elim!: bind_act_okE)
  obtain reply where "called = Some (Inr reply)" "critic_says E C (an_validated answer) reply"
    using called_says [OF c] .
  moreover have "snd (ce_call C (mc_client client) request (cc_timeout cc) (wk_store w1, wk_outside w1)) = called"
    using call by (auto simp: on_outside_def split: prod.splits)
  ultimately show ?thesis
    by metis
qed

lemma ask_says:
  assumes "gc_ask E C B seats snapshot response position w = (w', Inr answer)"
  shows "\<exists>clients reply. ladder_entry (gc_critic B) position = Some clients \<and> critic_replied C clients reply \<and>
    critic_says E C (an_validated answer) reply"
proof -
  obtain seat request clients w1 where entry: "ladder_entry (gc_critic B) position = Some clients"
    and call: "call_critic E C seat request clients w1 = (w', Inr answer)"
    using assms unfolding gc_ask_def by (auto simp: rung_def lift_sum_Inr split: option.splits elim!: bind_act_okE)
  obtain cc w2 slot where "drive_act (slot_new clients) (critic_attempt_call E C cc) w2 = (w', Inr (answer, slot))"
    using call unfolding call_critic_def by (auto simp: lift_sum_Inr split: option.splits elim!: bind_act_okE)
  then have "\<exists>sw. drive_from (critic_attempt_call E C cc) (slot_new clients) 0 w2 = (sw, Inr answer)"
    by (auto simp: drive_act_def drive_def split: prod.splits sum.splits)
  then obtain client w3 w4 where "client \<in> set (fl_clients clients)" "critic_attempt_call E C cc client w3 = (w4, Inr answer)"
    using drive_from_out by (fastforce simp: slot_new_def)
  then show ?thesis
    using entry attempt_says [of E C cc client w3 w4 answer] unfolding critic_replied_def by blast
qed

text \<open>
  The critic was asked about a generation, after the check of the programmatic critic, and answered with
  that judgement, as one of its clients replied.
\<close>

definition critic_answered ::
  "('c, 't, 'ai, 'n, 'e, 'a, 's, 'h, 'p, 'x, 'm, 'z) node_env \<Rightarrow> ('c, 'n, 's, 'x, 'm, 'z) critic_env \<Rightarrow>
     ('f, 'n, 'x, 'a, 'm, 'u) gc_body \<Rightarrow> ('a, 'z) seat list \<Rightarrow> 'f \<Rightarrow> 'n pass_end \<Rightarrow> gc_state \<Rightarrow>
     ('c, 'e, 'a, 's, 'p, 'x, 'z) worker \<Rightarrow> bool \<Rightarrow> bool" where
  "critic_answered E C B seats snapshot pend st w validates \<longleftrightarrow>
     (\<exists>w1 w2 message clients reply.
       (w1 = w \<and> step_limit_reached pend \<or> gc_check E C B seats snapshot (into_response pend) st w = (w1, Inr (True, st))) \<and>
       gc_ask E C B seats snapshot (into_response pend) (gl_position st) w1 =
         (w2, Inr \<lparr>an_validated = validates, an_message = message\<rparr>) \<and>
       ladder_entry (gc_critic B) (gl_position st) = Some clients \<and> critic_replied C clients reply \<and>
       critic_says E C validates reply)"

lemma check_accepts:
  "gc_check E C B seats snapshot response st w = (w', Inr (True, st')) \<Longrightarrow> st' = st"
  unfolding gc_check_def gc_refused_def
  by (auto split: option.splits verdict.splits if_splits elim!: bind_act_okE)

lemma answeredI:
  assumes "gc_ask E C B seats snapshot (into_response pend) (gl_position st) w1 = (w2, Inr answer)"
    "w1 = w \<and> step_limit_reached pend \<or> gc_check E C B seats snapshot (into_response pend) st w = (w1, Inr (True, st))"
  shows "critic_answered E C B seats snapshot pend st w (an_validated answer)"
  using assms ask_says [OF assms(1)] unfolding critic_answered_def by (cases answer) auto

lemma judge_asked:
  assumes "gc_judge E C B seats snapshot pend st w = (w', Inr (NextEnd f, st'))"
  shows "gf_response f = into_response pend \<and>
    (gf_judgement f \<noteq> NotJudged \<longrightarrow> critic_answered E C B seats snapshot pend st w (gf_judgement f = Validated))"
proof (cases "step_limit_reached pend")
  case True
  then show ?thesis
    using assms unfolding gc_judge_def Let_def
    by (auto split: if_splits elim!: bind_act_okE dest!: answeredI [where w = w])
next
  case False
  define fin where "fin j = NextEnd \<lparr>gf_response = into_response pend, gf_judgement = j, gf_step_limit_reached = False\<rparr>" for j
  define on where "on ok st = (if \<not> ok then ret_act (NextPass, st)
        else if gl_is_last st then ret_act (fin NotJudged, st)
        else bind_act (gc_ask E C B seats snapshot (into_response pend) (gl_position st)) (\<lambda>answer.
          if an_validated answer then gc_validated E st (fin Validated)
          else gc_rejected E C B seats answer st (fin Rejected)))" for ok st
  have reached: "step_limit_reached pend = False"
    using False by simp
  have "bind_act (gc_check E C B seats snapshot (into_response pend) st) (\<lambda>(ok, st). on ok st) w = (w', Inr (NextEnd f, st'))"
    using assms unfolding on_def fin_def gc_judge_def Let_def reached if_False .
  then obtain w1 ok st1 where check: "gc_check E C B seats snapshot (into_response pend) st w = (w1, Inr (ok, st1))"
    and on: "on ok st1 w1 = (w', Inr (NextEnd f, st'))"
    by (elim bind_act_okE) auto
  have ok: "ok"
    using on by (cases ok) (simp_all add: on_def)
  have st1: "st1 = st"
    using check_accepts [of E C B seats snapshot "into_response pend" st w w1 st1] check ok by simp
  show ?thesis
  proof (cases "gl_is_last st")
    case True
    then show ?thesis using on ok by (auto simp: on_def fin_def st1)
  next
    case go: False
    have "bind_act (gc_ask E C B seats snapshot (into_response pend) (gl_position st)) (\<lambda>answer.
        if an_validated answer then gc_validated E st (fin Validated)
        else gc_rejected E C B seats answer st (fin Rejected)) w1 = (w', Inr (NextEnd f, st'))"
      using on ok go by (simp add: on_def st1)
    then obtain w2 answer where ask: "gc_ask E C B seats snapshot (into_response pend) (gl_position st) w1 = (w2, Inr answer)"
      and last: "(if an_validated answer then gc_validated E st (fin Validated)
        else gc_rejected E C B seats answer st (fin Rejected)) w2 = (w', Inr (NextEnd f, st'))"
      by (rule bind_act_okE)
    have answered: "critic_answered E C B seats snapshot pend st w (an_validated answer)"
      using answeredI [OF ask] check [unfolded st1] ok by simp
    show ?thesis
    proof (cases "an_validated answer")
      case True
      then have "gc_validated E st (fin Validated) w2 = (w', Inr (NextEnd f, st'))"
        using last by simp
      then show ?thesis
        using answered True by (auto simp: gc_validated_def fin_def split: if_splits elim!: bind_act_okE)
    next
      case no: False
      then have "gc_rejected E C B seats answer st (fin Rejected) w2 = (w', Inr (NextEnd f, st'))"
        using last by simp
      from rejected_parts(2) [OF this] show ?thesis
        using answered no by (auto simp: gc_after_rejection_def fin_def split: if_splits)
    qed
  qed
qed

text \<open>The iterations a loop passes through: the first one, and each that another sends back to work.\<close>

inductive gc_visits ::
  "('c, 't, 'ai, 'n, 'e, 'a, 's, 'h, 'p, 'x, 'm, 'z) node_env \<Rightarrow> ('c, 'n, 's, 'x, 'm, 'z) critic_env \<Rightarrow>
     ('f, 'n, 'x, 'a, 'm, 'u) gc_body \<Rightarrow> ('a, 'z) seat list \<Rightarrow> 'f \<Rightarrow>
     'n pass_end option \<times> gc_state \<times> ('c, 'e, 'a, 's, 'p, 'x, 'z) worker \<Rightarrow>
     'n pass_end option \<times> gc_state \<times> ('c, 'e, 'a, 's, 'p, 'x, 'z) worker \<Rightarrow> bool"
  for E :: "('c, 't, 'ai, 'n, 'e, 'a, 's, 'h, 'p, 'x, 'm, 'z) node_env" and C B seats snapshot where
  here: "gc_visits E C B seats snapshot p p"
| again: "gc_iteration E C B seats snapshot ended st w = (w1, Inr (NextPass, st1)) \<Longrightarrow>
    gc_visits E C B seats snapshot (None, st1, w1) p \<Longrightarrow> gc_visits E C B seats snapshot (ended, st, w) p"

text \<open>A judged end of the loop: the last iteration it passes through made or restored the response, and the critic answered for it.\<close>

definition end_judged ::
  "('c, 't, 'ai, 'n, 'e, 'a, 's, 'h, 'p, 'x, 'm, 'z) node_env \<Rightarrow> ('c, 'n, 's, 'x, 'm, 'z) critic_env \<Rightarrow>
     ('f, 'n, 'x, 'a, 'm, 'u) gc_body \<Rightarrow> ('a, 'z) seat list \<Rightarrow> 'f \<Rightarrow>
     'n pass_end option \<times> gc_state \<times> ('c, 'e, 'a, 's, 'p, 'x, 'z) worker \<Rightarrow> 'n gc_finish \<Rightarrow> bool" where
  "end_judged E C B seats snapshot p f \<longleftrightarrow> (\<exists>ended st w pend st1 w1.
     gc_visits E C B seats snapshot p (ended, st, w) \<and>
     (ended = None \<and> gc_generation E B st w = (w1, Inr (pend, st1)) \<or> ended = Some pend \<and> w1 = w \<and> st1 = st) \<and>
     gf_response f = into_response pend \<and>
     (gf_judgement f \<noteq> NotJudged \<longrightarrow> critic_answered E C B seats snapshot pend st1 w1 (gf_judgement f = Validated)))"

section \<open>The loop under its limits\<close>

text \<open>What holds of the state at the head of an iteration.\<close>

definition gc_ready ::
  "('f, 'n, 'x, 'a, 'm, 'u) gc_body \<Rightarrow> 'n pass_end option \<Rightarrow> gc_state \<Rightarrow> ('c, 'e, 'a, 's, 'p, 'x, 'z) worker \<Rightarrow> bool" where
  "gc_ready B ended st w \<longleftrightarrow> positive_limits B \<and> within_limits B (gl_last_scheduled st) w \<and>
     (ended \<noteq> None \<longrightarrow> gl_is_last st = gl_last_scheduled st)"

lemma iteration_judged:
  assumes "gc_iteration E C B seats snapshot ended st w = (w', Inr (q, st'))" "gc_ready B ended st w"
  obtains w1 pend st1 where "gc_judge E C B seats snapshot pend st1 w1 = (w', Inr (q, st'))"
    "within_limits B (gl_last_scheduled st1) w1" "gl_is_last st1 = gl_last_scheduled st1"
proof -
  obtain w1 pend st1 where
    g: "ended = None \<and> gc_generation E B st w = (w1, Inr (pend, st1)) \<or> ended = Some pend \<and> w1 = w \<and> st1 = st"
    and j: "gc_judge E C B seats snapshot pend st1 w1 = (w', Inr (q, st'))"
    using iteration_parts [OF assms(1)] .
  show ?thesis
    using that [OF j] g assms(2) generation_within [of B st w E w1 pend st1] by (auto simp: gc_ready_def)
qed

lemma iteration_ready:
  assumes "gc_iteration E C B seats snapshot ended st w = (w', Inr (NextPass, st'))" "gc_ready B ended st w"
  shows "gc_ready B None st' w'"
proof -
  have pos: "positive_limits B"
    using assms(2) by (simp add: gc_ready_def)
  obtain w1 pend st1 where j: "gc_judge E C B seats snapshot pend st1 w1 = (w', Inr (NextPass, st'))"
    "within_limits B (gl_last_scheduled st1) w1" "gl_is_last st1 = gl_last_scheduled st1"
    using iteration_judged [OF assms] .
  then show ?thesis
    using judge_within [OF j(1) pos j(2,3)] pos by (simp add: gc_ready_def)
qed

lemma iteration_ends:
  assumes "gc_iteration E C B seats snapshot ended st w = (w', Inr (NextEnd f, st'))" "gc_ready B ended st w"
  shows "ending_ok B f st' w'"
proof -
  have pos: "positive_limits B"
    using assms(2) by (simp add: gc_ready_def)
  obtain w1 pend st1 where j: "gc_judge E C B seats snapshot pend st1 w1 = (w', Inr (NextEnd f, st'))"
    "within_limits B (gl_last_scheduled st1) w1" "gl_is_last st1 = gl_last_scheduled st1"
    using iteration_judged [OF assms] .
  then show ?thesis
    by (rule judge_ending [OF _ pos])
qed

lemma loop_step:
  "gc_iteration E C B seats snapshot ended st w = (w1, Inr (NextPass, st1)) \<Longrightarrow>
     gc_loop E C B seats snapshot ended st w = gc_loop E C B seats snapshot None st1 w1"
  "gc_iteration E C B seats snapshot ended st w = (w1, Inr (NextEnd f, st1)) \<Longrightarrow>
     gc_loop E C B seats snapshot ended st w = (w1, Inr (f, st1))"
  "gc_iteration E C B seats snapshot ended st w = (w1, Inl stopped) \<Longrightarrow>
     gc_loop E C B seats snapshot ended st w = (w1, Inl stopped)"
  by (simp_all add: gc_loop.simps [of E C B seats snapshot ended st w])

lemma loop_ending:
  "gc_loop E C B seats snapshot ended st w = (w', Inr (f, st')) \<Longrightarrow> gc_ready B ended st w \<Longrightarrow> ending_ok B f st' w'"
proof (induction E C B seats snapshot ended st w rule: gc_loop.induct)
  case (1 E C B seats snapshot ended st w)
  obtain w1 r where it: "gc_iteration E C B seats snapshot ended st w = (w1, r)"
    by fastforce
  show ?case
  proof (cases r)
    case (Inl stopped)
    then show ?thesis using loop_step(3) it "1.prems"(1) by fastforce
  next
    case (Inr q)
    obtain nx st1 where q: "q = (nx, st1)"
      by (cases q)
    show ?thesis
    proof (cases nx)
      case NextPass
      have "gc_ready B None st1 w1"
        using iteration_ready [of E C B seats snapshot ended st w w1 st1] it Inr q NextPass "1.prems"(2) by simp
      then show ?thesis
        using "1.IH" [OF it [symmetric] Inr q [symmetric] NextPass] loop_step(1) [of E C B seats snapshot ended st w w1 st1]
          it Inr q NextPass "1.prems"(1) by simp
    next
      case (NextEnd fin)
      then show ?thesis
        using loop_step(2) [of E C B seats snapshot ended st w w1 fin st1] iteration_ends [of E C B seats snapshot ended st w w1 fin st1]
          it Inr q "1.prems" by simp
    qed
  qed
qed

lemma end_judgedI:
  assumes "gc_iteration E C B seats snapshot ended st w = (w', Inr (NextEnd f, st'))"
  shows "end_judged E C B seats snapshot (ended, st, w) f"
proof -
  obtain w1 pend st1 where
    g: "ended = None \<and> gc_generation E B st w = (w1, Inr (pend, st1)) \<or> ended = Some pend \<and> w1 = w \<and> st1 = st"
    and j: "gc_judge E C B seats snapshot pend st1 w1 = (w', Inr (NextEnd f, st'))"
    using iteration_parts [OF assms] .
  from judge_asked [OF j] g gc_visits.here [of E C B seats snapshot "(ended, st, w)"] show ?thesis
    unfolding end_judged_def by blast
qed

lemma end_judged_later:
  assumes "gc_iteration E C B seats snapshot ended st w = (w1, Inr (NextPass, st1))"
    "end_judged E C B seats snapshot (None, st1, w1) f"
  shows "end_judged E C B seats snapshot (ended, st, w) f"
  using assms(2) gc_visits.again [OF assms(1)] unfolding end_judged_def by blast

lemma loop_judged:
  "gc_loop E C B seats snapshot ended st w = (w', Inr (f, st')) \<Longrightarrow> end_judged E C B seats snapshot (ended, st, w) f"
proof (induction E C B seats snapshot ended st w rule: gc_loop.induct)
  case (1 E C B seats snapshot ended st w)
  obtain w1 nx st1 where it: "gc_iteration E C B seats snapshot ended st w = (w1, Inr (nx, st1))"
    using loop_step(3) [of E C B seats snapshot ended st w] "1.prems"(1)
    by (cases "gc_iteration E C B seats snapshot ended st w"; cases "snd (gc_iteration E C B seats snapshot ended st w)") auto
  show ?case
  proof (cases nx)
    case (NextEnd fin)
    then show ?thesis
      using loop_step(2) [of E C B seats snapshot ended st w w1 fin st1] it "1.prems" end_judgedI by fastforce
  next
    case NextPass
    have "gc_loop E C B seats snapshot None st1 w1 = (w', Inr (f, st'))"
      using loop_step(1) [of E C B seats snapshot ended st w w1 st1] it NextPass "1.prems" by simp
    from "1.IH" [OF it [symmetric] refl refl NextPass this] show ?thesis
      using end_judged_later [OF it [unfolded NextPass]] by simp
  qed
qed

lemma initial_ready:
  "positive_limits B \<Longrightarrow> wk_counters w = counters_default \<Longrightarrow> gc_ready B ended (gc_initial w) w"
  by (simp add: gc_ready_def within_default gc_initial_def)

text \<open>The generations of the loop and their steps.\<close>

lemma judge_keeps:
  assumes "gc_judge E C B seats snapshot pend st w = (w', Inr (q, st'))"
  shows "gl_iterations st' = gl_iterations st"
proof -
  have check: "gl_iterations st2 = gl_iterations st" if "gc_check E C B seats snapshot response st w1 = (w2, Inr (ok, st2))"
    for response w1 w2 ok st2
    using that by (auto simp: gc_check_def gc_refused_def split: option.splits verdict.splits if_splits elim!: bind_act_okE)
  show ?thesis
    using assms
  proof (cases rule: judge_cases)
    case (validated w1 st1 w2)
    then show ?thesis
      using check by (auto simp: gc_validated_def split: if_splits elim!: bind_act_okE)
  next
    case (rejected w1 st1 w2 answer)
    then show ?thesis
      using check rejected_parts(2) [OF rejected(5)] by (auto simp: gc_after_rejection_def split: if_splits)
  qed (auto dest: check)
qed

lemma iteration_bounds:
  assumes "gc_iteration E C B seats snapshot ended st w = (w', Inr (q, st'))"
  shows "made w \<le> made w' \<and> made w' + left w' \<le> made w + max 1 (left w) \<and> left w' \<le> left w"
    "gl_iterations st' = gl_iterations st + (if ended = None then 1 else 0)"
proof -
  obtain w1 pend st1 where
    g: "ended = None \<and> gc_generation E B st w = (w1, Inr (pend, st1)) \<or> ended = Some pend \<and> w1 = w \<and> st1 = st"
    and j: "gc_judge E C B seats snapshot pend st1 w1 = (w', Inr (q, st'))"
    using iteration_parts [OF assms] .
  have "made w' = made w1" "left w' = left w1"
    using same_steps_counts [OF moves_pair [OF same_judge j]] by simp_all
  then show "made w \<le> made w' \<and> made w' + left w' \<le> made w + max 1 (left w) \<and> left w' \<le> left w"
    "gl_iterations st' = gl_iterations st + (if ended = None then 1 else 0)"
    using g generation_bounds [of E B st w w1 pend st1] judge_keeps [OF j] by auto
qed

lemma iteration_left:
  assumes "gc_iteration E C B seats snapshot ended st w = (w', Inr (NextPass, st'))"
  shows "0 < left w'" "ended = None \<Longrightarrow> left w' < left w"
proof -
  obtain w1 pend st1 where
    g: "ended = None \<and> gc_generation E B st w = (w1, Inr (pend, st1)) \<or> ended = Some pend \<and> w1 = w \<and> st1 = st"
    and j: "gc_judge E C B seats snapshot pend st1 w1 = (w', Inr (NextPass, st'))"
    using iteration_parts [OF assms] .
  have pos: "0 < left w'" "left w' = left w1"
    using judge_left [OF j] same_steps_counts [OF moves_pair [OF same_judge j]] by simp_all
  then show "0 < left w'" by simp
  show "left w' < left w" if "ended = None"
    using g that pos generation_bounds [of E B st w w1 pend st1] by (simp add: max_def split: if_splits)
qed

text \<open>Each generation but the first takes a step that remained, so the count of the generations does not wrap.\<close>

lemma loop_bounds:
  "gc_loop E C B seats snapshot ended st w = (w', Inr (f, st')) \<Longrightarrow>
     unat (gl_iterations st) + max 1 (left w) < 2 ^ 32 \<Longrightarrow>
     unat (gl_iterations st') \<le> unat (gl_iterations st) + max 1 (left w) \<and>
     made w \<le> made w' \<and> made w' + left w' \<le> made w + max 1 (left w)"
proof (induction E C B seats snapshot ended st w rule: gc_loop.induct)
  case (1 E C B seats snapshot ended st w)
  obtain w1 nx st1 where it: "gc_iteration E C B seats snapshot ended st w = (w1, Inr (nx, st1))"
    using loop_step(3) [of E C B seats snapshot ended st w] "1.prems"(1)
    by (cases "gc_iteration E C B seats snapshot ended st w"; cases "snd (gc_iteration E C B seats snapshot ended st w)") auto
  note b = iteration_bounds [OF it]
  have one: "unat (gl_iterations st1) = unat (gl_iterations st) + (if ended = None then 1 else 0)"
    using b(2) "1.prems"(2) unat_add_lem [of "gl_iterations st" 1] by auto
  show ?case
  proof (cases nx)
    case (NextEnd fin)
    then have "w' = w1" "st' = st1"
      using loop_step(2) [of E C B seats snapshot ended st w w1 fin st1] it "1.prems"(1) by simp_all
    then show ?thesis
      using b(1) one by simp
  next
    case NextPass
    have loop: "gc_loop E C B seats snapshot None st1 w1 = (w', Inr (f, st'))"
      using loop_step(1) [of E C B seats snapshot ended st w w1 st1] it NextPass "1.prems"(1) by simp
    have pos: "0 < left w1" and fewer: "ended = None \<Longrightarrow> left w1 < left w"
      using iteration_left [of E C B seats snapshot ended st w w1 st1] it NextPass by simp_all
    have "unat (gl_iterations st1) + max 1 (left w1) \<le> unat (gl_iterations st) + max 1 (left w)"
      using one pos fewer b(1) by (cases "ended = None") (simp_all add: max_def)
    then show ?thesis
      using "1.IH" [OF it [symmetric] refl refl NextPass loop] "1.prems"(2) b(1) pos by auto
  qed
qed

section \<open>A concrete critic\<close>

definition demo_judge_env where
  "demo_judge_env = demo_env\<lparr>ev_blocks := (\<lambda>n. [BlockStructured 5])\<rparr>"

definition demo_critic :: "(demo_turn list, entry_id, demo_store, uuid, nat, uuid) critic_env" where
  "demo_critic = \<lparr>ce_wire = (\<lambda>z. Inr (False, Some ''more'')), ce_block = (\<lambda>i t. if t = [] then Inl ''blank'' else Inr i),
     ce_project = (\<lambda>agent keeps c. 0), ce_turns = (\<lambda>z. []), ce_input_projected = (\<lambda>i es. Inr (SeenInput i es)),
     ce_from_turns = (\<lambda>z turns. Inr z), ce_human = (\<lambda>i human block. Inr block), ce_push_incoming = (\<lambda>t m h. Inr h),
     ce_input_new = (\<lambda>t m. Inr (SeenInput t [(SeenOther, m)])), ce_push_turn = (\<lambda>t h. Inr h),
     ce_shape = (\<lambda>name about ps. Inr 0), ce_request = (\<lambda>system h t i shape. Inr i),
     ce_call = (\<lambda>m q d sx. (sx, Some (Inr q))), ce_response = (\<lambda>i block. Inr i)\<rparr>"

definition demo_rung :: "nat ladder" where
  "demo_rung = Ladder [FallbackList [\<lparr>mc_client = 1, mc_expectation = NotExpected\<rparr>]]"

definition demo_body :: "(unit, entry_id, uuid, string, nat, string) gc_body" where
  "demo_body = \<lparr>gc_generator = demo_rung, gc_critic = demo_rung, gc_round_limit = RoundLimit 2,
     gc_request = RequestFixed \<lparr>cr_text = ''judge'', cr_human = 9\<rparr>, gc_generator_author = AuthorFixed ''bot'',
     gc_critic_author = AuthorFixed ''critic'', gc_outcome_port = (\<lambda>f out x. (x, Inr ''u'')),
     gc_step_ending = WithoutCriticCall, gc_round_ending = FinalGeneration, gc_programmatic = None\<rparr>"

definition demo_seats :: "(string, uuid) seat list" where
  "demo_seats = [\<lparr>se_label = AgentLabel GENERATOR_LABEL, se_agent = 2, se_author = ''bot'', se_system = None, se_shape = None\<rparr>,
     \<lparr>se_label = AgentLabel CRITIC_LABEL, se_agent = 3, se_author = ''critic'', se_system = Some 1, se_shape = None\<rparr>]"

abbreviation demo_loop where
  "demo_loop w \<equiv> gc_loop demo_judge_env demo_critic demo_body demo_seats () None (gc_initial w) w"

lemma demo_rejected:
  "snd (demo_loop (demo_worker 200 1)) =
     Inr (\<lparr>gf_response = 201, gf_judgement = Rejected, gf_step_limit_reached = False\<rparr>,
       \<lparr>gl_iterations = 1, gl_drain_first = False, gl_last_scheduled = False, gl_is_last = False, gl_position = 0,
        gl_keep_position = None\<rparr>)"
  by code_simp

lemma demo_body_ready: "positive_limits demo_body" "wk_counters (demo_worker x limit) = counters_default"
  by (simp_all add: positive_limits_def demo_body_def demo_worker_def)

section \<open>Properties\<close>

text \<open>
  C27: The loop of the generator-critic is a total function; it makes at most as many generations, and
  all of them together at most as many steps, as the step limit leaves, one at least, so the count of
  the iterations (which the code increments unchecked) does not wrap.
\<close>

theorem critic_within_limit:
  "case gc_loop E C B seats snapshot ended (gc_initial w) w of
     (_, Inl _) \<Rightarrow> True
   | (w', Inr (_, st')) \<Rightarrow> unat (gl_iterations st') \<le> max 1 (left w) \<and> made w' \<le> made w + max 1 (left w)"
proof -
  have "unat (gl_iterations (gc_initial w)) + max 1 (left w) < 2 ^ 32"
    using unat_u32 [of "remaining (wk_steps w)"] by (simp add: gc_initial_def left_def)
  then show ?thesis
    using loop_bounds [of E C B seats snapshot ended "gc_initial w" w]
    by (auto simp: gc_initial_def split: prod.split sum.split)
qed

text \<open>
  C28: How the loop may end, for limits of at least one and an agent that starts afresh: a validated
  generation is not the one after the last round; a generation that was not judged is the one after the
  last round, or met the step limit of a node that does not ask the critic there; a rejected one met no
  step limit, and there was no step left for another, or the rounds are used up and the node keeps a
  rejected generation. And the judgement is the critic's: the response is the one that the last iteration
  of the loop generated, or restored, and when it is validated or rejected, the critic of that iteration's
  rung was asked about it, after the programmatic critic accepted it, and answered so, as the structured
  block of a reply of one of the rung's clients reads.
\<close>

theorem critic_endings:
  assumes "positive_limits B" "wk_counters w = counters_default"
    "gc_loop E C B seats snapshot ended (gc_initial w) w = (w', Inr (f, st'))"
  shows "(case gf_judgement f of
     Validated \<Rightarrow> \<not> gl_is_last st'
   | NotJudged \<Rightarrow> gl_is_last st' \<or> gf_step_limit_reached f \<and> gc_step_ending B = WithoutCriticCall
   | Rejected \<Rightarrow> \<not> gl_is_last st' \<and> \<not> gf_step_limit_reached f \<and>
       (left w' = 0 \<or> gc_round_ending B = KeepRejectedGeneration \<and> cn_rounds (wk_counters w') \<ge> round_limit_get (gc_round_limit B))) \<and>
   (\<exists>last st1 w1 pend st2 w2.
     gc_visits E C B seats snapshot (ended, gc_initial w, w) (last, st1, w1) \<and>
     (last = None \<and> gc_generation E B st1 w1 = (w2, Inr (pend, st2)) \<or> last = Some pend \<and> w2 = w1 \<and> st2 = st1) \<and>
     gf_response f = into_response pend \<and>
     (gf_judgement f \<noteq> NotJudged \<longrightarrow> critic_answered E C B seats snapshot pend st2 w2 (gf_judgement f = Validated)))"
  using loop_ending [OF assms(3) initial_ready [OF assms(1,2)]] loop_judged [OF assms(3)]
  unfolding ending_ok_def end_judged_def by (rule conjI)

theorem critic_endings_witness:
  "\<exists>w' pend st2 w2 reply. demo_loop (demo_worker 200 1) = (w', Inr (\<lparr>gf_response = 201, gf_judgement = Rejected, gf_step_limit_reached = False\<rparr>,
       \<lparr>gl_iterations = 1, gl_drain_first = False, gl_last_scheduled = False, gl_is_last = False, gl_position = 0,
        gl_keep_position = None\<rparr>)) \<and> left w' = 0 \<and>
     critic_answered demo_judge_env demo_critic demo_body demo_seats () pend st2 w2 False \<and>
     into_response pend = 201 \<and> critic_says demo_judge_env demo_critic False reply"
proof -
  let ?f = "\<lparr>gf_response = 201, gf_judgement = Rejected, gf_step_limit_reached = False\<rparr>"
  let ?st = "\<lparr>gl_iterations = 1, gl_drain_first = False, gl_last_scheduled = False, gl_is_last = False, gl_position = 0,
        gl_keep_position = None\<rparr>"
  obtain w' where w': "demo_loop (demo_worker 200 1) = (w', Inr (?f, ?st))"
    using demo_rejected by (metis prod.collapse)
  have "gc_round_ending demo_body \<noteq> KeepRejectedGeneration"
    by (simp add: demo_body_def)
  then have l: "left w' = 0"
    using critic_endings [OF demo_body_ready w'] by simp
  obtain pend st2 w2 where "into_response pend = 201"
    and a: "critic_answered demo_judge_env demo_critic demo_body demo_seats () pend st2 w2 False"
    using critic_endings [OF demo_body_ready w'] by auto
  moreover obtain reply where "critic_says demo_judge_env demo_critic False reply"
    using a unfolding critic_answered_def by blast
  ultimately show ?thesis
    using w' l by blast
qed

end
