(* ===== verification/Agentic_Run.thy ===== *)
theory Agentic_Run
  imports Agentic_Judge
begin

text \<open>
  The run of the instance of an agent (\<open>run.rs\<close>, \<open>signals.rs\<close> of \<open>br-agentic-nodes\<close>) for any body: the
  first input, who the node is, the opening of its worker, its work, and its end. Each of the four is
  raced against the cancellation and the drop of the instance; what a race answers is a choice of the
  outside, and so is the worker of a work that was cut or that panicked.
\<close>

section \<open>Panics\<close>

datatype payload = PayloadStr string | PayloadString string | PayloadOther

fun text_of :: "payload \<Rightarrow> string" where
  "text_of (PayloadStr t) = t"
| "text_of (PayloadString t) = t"
| "text_of PayloadOther = ''panic without a text message''"

definition guarded :: "payload + (stop + 'r) \<Rightarrow> stop + 'r" where
  "guarded work = (case work of Inr result \<Rightarrow> result | Inl p \<Rightarrow> Inl (StopFault (FaultPanic (text_of p))))"

text \<open>Work that panics when the outside says so, and gives its result otherwise.\<close>

definition unwound :: "payload option \<Rightarrow> 'r \<Rightarrow> payload + 'r" where
  "unwound panics result = (case panics of Some p \<Rightarrow> Inl p | None \<Rightarrow> Inr result)"

section \<open>The bodies\<close>

record ('c, 'e, 'a, 's, 'p, 'x, 'z, 'f, 'u) agent_body =
  bd_seats :: "('f, 'x, 'a) seat_spec list"
  bd_execute :: "('a, 'z) seat list \<Rightarrow> 'f \<Rightarrow> ('c, 'e, 'a, 's, 'p, 'x, 'z, stop, 'u) wact"

definition AGENT_LABEL :: string where "AGENT_LABEL = ''agent''"

definition react_body ::
  "('c, 't, 'ai, 'n, 'e, 'a, 's, 'h, 'p, 'x, 'm, 'z) node_env \<Rightarrow> ('f, 'v, 'x, 'a, 'z) node_ports \<Rightarrow> 'm fallback_list \<Rightarrow>
     ('f \<Rightarrow> 'n react_outcome \<Rightarrow> 'x \<Rightarrow> 'x \<times> (port_error + 'u)) \<Rightarrow> ('f, 'x, 'a) author_source \<Rightarrow>
     ('c, 'e, 'a, 's, 'p, 'x, 'z, 'f, 'u) agent_body" where
  "react_body E Q fallback outcome author = \<lparr>
     bd_seats = [\<lparr>sp_label = AGENT_LABEL, sp_author = author, sp_prompt = True, sp_shape = True\<rparr>],
     bd_execute = (\<lambda>_ snapshot. react_execute E Q fallback outcome snapshot)\<rparr>"

definition critic_body ::
  "('c, 't, 'ai, 'n, 'e, 'a, 's, 'h, 'p, 'x, 'm, 'z) node_env \<Rightarrow> ('c, 'n, 's, 'x, 'm, 'z) critic_env \<Rightarrow>
     ('f, 'v, 'x, 'a, 'z) node_ports \<Rightarrow> ('f, 'n, 'x, 'a, 'm, 'u) gc_body \<Rightarrow>
     ('c, 'e, 'a, 's, 'p, 'x, 'z, 'f, 'u) agent_body" where
  "critic_body E C Q B = \<lparr>bd_seats = gc_seats B, bd_execute = gc_execute E C Q B\<rparr>"

section \<open>The run\<close>

text \<open>The settings of the node that the run hands to its worker.\<close>

record run_settings =
  rs_step_limit :: step_limit
  rs_timeouts :: timeouts
  rs_file_system :: file_system_mode

text \<open>
  What the outside decides: what the race of the first input answers (\<open>None\<close> for a reader that has
  ended), the other races, the panic of the work of each of them, if any, and the worker at which a cut
  or panicking work of the agent stopped.
\<close>

record ('c, 'e, 'a, 's, 'p, 'x, 'z, 'f) run_choices =
  ch_input :: "'f option raced"
  ch_identify :: race_choice
  ch_identify_panic :: "payload option"
  ch_open :: race_choice
  ch_open_panic :: "payload option"
  ch_work :: race_choice
  ch_panic :: "payload option"
  ch_cut :: "('c, 'e, 'a, 's, 'p, 'x, 'z) worker \<Rightarrow> ('c, 'e, 'a, 's, 'p, 'x, 'z) worker"

definition next_input :: "'r option raced \<Rightarrow> 'r raced" where
  "next_input raced = (case raced of
     RacedDone (Some input) \<Rightarrow> RacedDone input
   | RacedDone None \<Rightarrow> RacedGone
   | RacedGone \<Rightarrow> RacedGone
   | RacedCancelled \<Rightarrow> RacedCancelled)"

text \<open>\<open>identify\<close>: the thread, then an agent for each seat.\<close>

definition identify ::
  "('f, 'v, 'x, 'a, 'z) node_ports \<Rightarrow> string list \<Rightarrow> 'f \<Rightarrow> uuid \<Rightarrow>
     ('x, fault, thread_ref \<times> (agent_label \<times> agent_id) list) act" where
  "identify Q labels snapshot inst =
     bind_act (\<lambda>x. case np_thread Q snapshot x of (x, r) \<Rightarrow> (x, map_inl FaultPort r)) (\<lambda>thread.
     bind_act (each_act (\<lambda>t.
       bind_act (lift_sum (\<lambda>f. f) (agent_label_of t)) (\<lambda>label.
       bind_act (\<lambda>x. case np_agent Q snapshot inst label x of (x, r) \<Rightarrow> (x, map_inl FaultPort r)) (\<lambda>agent.
       ret_act (label, agent)))) labels) (\<lambda>agents.
     ret_act (thread, agents)))"

text \<open>\<open>begin\<close>, then \<open>execute\<close>: \<open>None\<close> when the closing of the open turns or the reads of the inbox never end.\<close>

definition agent_work ::
  "('c, 't, 'ai, 'n, 'e, 'a, 's, 'h, 'p, 'x, 'm, 'z) node_env \<Rightarrow> ('f, 'v, 'x, 'a, 'z) node_ports \<Rightarrow> run_settings \<Rightarrow>
     ('c, 'e, 'a, 's, 'p, 'x, 'z, 'f, 'u) agent_body \<Rightarrow> 'f \<Rightarrow> uuid \<Rightarrow> (agent_label \<times> agent_id) list \<Rightarrow>
     ('c, 'e, 'a, 's, 'p, 'x, 'z) worker \<Rightarrow> (('c, 'e, 'a, 's, 'p, 'x, 'z) worker \<times> (stop + 'u)) option" where
  "agent_work E Q R B snapshot inst agents w =
     (case worker_begin E Q (rs_file_system R) snapshot inst (bd_seats B) agents w of
        None \<Rightarrow> None
      | Some (w, Inl fault) \<Rightarrow> Some (w, Inl (StopFault fault))
      | Some (w, Inr seats) \<Rightarrow> Some (bd_execute B seats snapshot w))"

text \<open>The end of a run that has no worker yet; without an event, the sender is dropped.\<close>

type_synonym ('c, 'e, 'a, 's, 'p, 'x, 'z, 'i, 'u) ran =
  "('c, 'e, 'a, 's, 'p, 'x, 'z) worker option \<times> ('i, 'u event) inner \<times> 'u event option"

definition settled_bare ::
  "('i, 'u event) inner \<Rightarrow> 'u event option \<Rightarrow> ('c, 'e, 'a, 's, 'p, 'x, 'z, 'i, 'u) ran" where
  "settled_bare core event = (case event of
     None \<Rightarrow> (None, fst (sender_gone core), None)
   | Some ev \<Rightarrow> (None, settle_core ev core, Some ev))"

text \<open>The race of the work: what it answers, and the worker as it then is.\<close>

definition work_race ::
  "('c, 't, 'ai, 'n, 'e, 'a, 's, 'h, 'p, 'x, 'm, 'z) node_env \<Rightarrow> ('f, 'v, 'x, 'a, 'z) node_ports \<Rightarrow> run_settings \<Rightarrow>
     ('c, 'e, 'a, 's, 'p, 'x, 'z, 'f, 'u) agent_body \<Rightarrow> ('c, 'e, 'a, 's, 'p, 'x, 'z, 'f) run_choices \<Rightarrow> 'f \<Rightarrow> uuid \<Rightarrow>
     (agent_label \<times> agent_id) list \<Rightarrow> ('c, 'e, 'a, 's, 'p, 'x, 'z) worker \<Rightarrow>
     (('c, 'e, 'a, 's, 'p, 'x, 'z) worker \<times> (stop + 'u) raced) option" where
  "work_race E Q R B H snapshot inst agents w = (case ch_work H of
     ChoiceGone \<Rightarrow> Some (ch_cut H w, RacedGone)
   | ChoiceCancelled \<Rightarrow> Some (ch_cut H w, RacedCancelled)
   | ChoiceReady \<Rightarrow> (case ch_panic H of
       Some p \<Rightarrow> Some (ch_cut H w, RacedDone (guarded (Inl p)))
     | None \<Rightarrow> map_option (\<lambda>(w, r). (w, RacedDone (guarded (Inr r)))) (agent_work E Q R B snapshot inst agents w)))"

text \<open>The race of the work and the end it leads to.\<close>

definition run_work ::
  "('c, 't, 'ai, 'n, 'e, 'a, 's, 'h, 'p, 'x, 'm, 'z) node_env \<Rightarrow> fault_texts \<Rightarrow> ('f, 'v, 'x, 'a, 'z) node_ports \<Rightarrow>
     run_settings \<Rightarrow> ('c, 'e, 'a, 's, 'p, 'x, 'z, 'f, 'u) agent_body \<Rightarrow> ('c, 'e, 'a, 's, 'p, 'x, 'z, 'f) run_choices \<Rightarrow>
     'f \<Rightarrow> uuid \<Rightarrow> (agent_label \<times> agent_id) list \<Rightarrow> ('c, 'e, 'a, 's, 'p, 'x, 'z) worker \<Rightarrow> ('i, 'u event) inner \<Rightarrow>
     ('c, 'e, 'a, 's, 'p, 'x, 'z, 'i, 'u) concluded option" where
  "run_work E T Q R B H snapshot inst agents w core = (case work_race E Q R B H snapshot inst agents w of
     None \<Rightarrow> None
   | Some (w, raced) \<Rightarrow> conclude E T w core raced)"

definition run ::
  "('c, 't, 'ai, 'n, 'e, 'a, 's, 'h, 'p, 'x, 'm, 'z) node_env \<Rightarrow> fault_texts \<Rightarrow> ('f, 'v, 'x, 'a, 'z) node_ports \<Rightarrow>
     run_settings \<Rightarrow> ('c, 'e, 'a, 's, 'p, 'x, 'z, 'f, 'u) agent_body \<Rightarrow> ('c, 'e, 'a, 's, 'p, 'x, 'z, 'f) run_choices \<Rightarrow>
     uuid \<Rightarrow> 's \<Rightarrow> 'p \<Rightarrow> 'x \<Rightarrow> ('i, 'u event) inner \<Rightarrow> ('c, 'e, 'a, 's, 'p, 'x, 'z, 'i, 'u) ran option" where
  "run E T Q R B H inst s p x core = (case next_input (ch_input H) of
     RacedGone \<Rightarrow> Some (settled_bare core None)
   | RacedCancelled \<Rightarrow> Some (settled_bare core (Some EvCancelled))
   | RacedDone snapshot \<Rightarrow>
       (case identify Q (map sp_label (bd_seats B)) snapshot inst x of (x, r) \<Rightarrow>
        case race (ch_identify H) (guarded (unwound (ch_identify_panic H) (map_inl StopFault r))) of
          RacedDone (Inr (thread, agents)) \<Rightarrow>
            (case agents of
               [] \<Rightarrow> Some (settled_bare core (Some (EvFailed (fault_cause T (FaultValue ''the node has no agent'')))))
             | (label, main) # rest \<Rightarrow>
               (case worker_open E \<lparr>ic_instance = inst, ic_thread = thread, ic_agent = main\<rparr> (rs_step_limit R) (rs_timeouts R) s p x of
                  (s, opened) \<Rightarrow>
                (case race (ch_open H) (guarded (unwound (ch_open_panic H) (map_inl StopFault opened))) of
                   RacedDone (Inr w) \<Rightarrow> map_option (\<lambda>(w, core, event). (Some w, core, event))
                     (run_work E T Q R B H snapshot inst agents w core)
                 | other \<Rightarrow> Some (settled_bare core (bare_end T other)))))
        | other \<Rightarrow> Some (settled_bare core (bare_end T other))))"

section \<open>The end of a run\<close>

text \<open>Somewhere the outside dropped the instance, or its reader had ended.\<close>

definition given_up :: "('c, 'e, 'a, 's, 'p, 'x, 'z, 'f) run_choices \<Rightarrow> bool" where
  "given_up H \<longleftrightarrow> next_input (ch_input H) = RacedGone \<or> ch_identify H = ChoiceGone \<or> ch_open H = ChoiceGone \<or> ch_work H = ChoiceGone"

text \<open>The work gave a fault whose detail cannot be made.\<close>

definition muted ::
  "('c, 't, 'ai, 'n, 'e, 'a, 's, 'h, 'p, 'x, 'm, 'z) node_env \<Rightarrow> fault_texts \<Rightarrow> ('f, 'v, 'x, 'a, 'z) node_ports \<Rightarrow>
     run_settings \<Rightarrow> ('c, 'e, 'a, 's, 'p, 'x, 'z, 'f, 'u) agent_body \<Rightarrow> ('c, 'e, 'a, 's, 'p, 'x, 'z, 'f) run_choices \<Rightarrow>
     uuid \<Rightarrow> bool" where
  "muted E T Q R B H inst \<longleftrightarrow> (\<exists>snapshot agents w w' fault panicked. next_input (ch_input H) = RacedDone snapshot \<and>
     work_race E Q R B H snapshot inst agents w = Some (w', RacedDone (Inl (StopFault fault))) \<and>
     fault_detail T fault = Inl panicked)"

definition run_ended :: "bool \<Rightarrow> bool \<Rightarrow> ('c, 'e, 'a, 's, 'p, 'x, 'z, 'i, 'u) ran \<Rightarrow> bool" where
  "run_ended gone mute = (\<lambda>(w, core, event). case event of
     None \<Rightarrow> (gone \<or> mute) \<and> \<not> is_working (node_side core)
   | Some ev \<Rightarrow> node_side core = Sent ev \<and> queue core = [] \<and>
       (case w of None \<Rightarrow> True | Some w \<Rightarrow> open_objects (wk_session w) = 0))"

lemma settled_bare_ended:
  assumes "is_working (node_side core)" "event = None \<Longrightarrow> gone"
  shows "run_ended gone mute (settled_bare core event)"
  using assms settle_core_sent [OF assms(1)] by (auto simp: run_ended_def settled_bare_def sender_gone_idle split: option.split)

lemma bare_end_gone:
  "bare_end T (race choice r) = None \<Longrightarrow> \<nexists>v. race choice r = RacedDone (Inr v) \<Longrightarrow> choice = ChoiceGone"
  by (cases choice; cases r) (auto simp: bare_end_def race_def split: stop.splits)

definition ends_always :: "('c, 't, 'ai, 'n, 'e, 'a, 's, 'h, 'p, 'x, 'm, 'z) node_env \<Rightarrow> bool" where
  "ends_always E \<longleftrightarrow> closing_laws E \<and>
     (\<forall>w :: ('c, 'e, 'a, 's, 'p, 'x, 'z) worker. read_inbox_now E w \<noteq> None)"

lemma begin_returns:
  assumes "ends_always E"
  shows "worker_begin E Q mode snapshot inst spec_list agents w \<noteq> None"
proof (cases "length spec_list = length agents")
  case True
  obtain w1 r1 where close: "close_open_turns E ClosedInterrupted True (w\<lparr>wk_agents := map snd agents\<rparr>) = Some (w1, r1)"
    using close_open_turns_returns assms unfolding ends_always_def by blast
  obtain w2 r2 where seats: "begin_seats E Q mode snapshot inst spec_list agents w1 = (w2, r2)"
    by fastforce
  obtain w3 where "read_inbox_now E w2 = Some w3"
    using assms unfolding ends_always_def by blast
  then have "drain_at_start E w2 = Some (Agentic_Pass.drain E w3)"
    by (simp add: drain_at_start_def)
  then show ?thesis
    using True close seats by (cases r1; cases r2) (simp_all add: worker_begin_def)
qed (simp add: worker_begin_def)

lemma work_returns: "ends_always E \<Longrightarrow> agent_work E Q R B snapshot inst agents w \<noteq> None"
  using begin_returns [of E Q "rs_file_system R" snapshot inst "bd_seats B" agents w]
  by (auto simp: agent_work_def split: sum.splits prod.splits)

lemma race_returns:
  assumes "ends_always E"
  obtains w' raced where "work_race E Q R B H snapshot inst agents w = Some (w', raced)" "raced = RacedGone \<longrightarrow> ch_work H = ChoiceGone"
  using work_returns [OF assms, of Q R B snapshot inst agents w]
  by (cases "ch_work H"; cases "ch_panic H") (auto simp: work_race_def)

lemma run_work_ended:
  assumes "ends_always E" "is_working (node_side core)" "next_input (ch_input H) = RacedDone snapshot"
  shows "\<exists>w' core' event. run_work E T Q R B H snapshot inst agents w core = Some (w', core', event) \<and>
    run_ended (given_up H) (muted E T Q R B H inst) (Some w', core', event)"
proof -
  obtain w1 raced where race: "work_race E Q R B H snapshot inst agents w = Some (w1, raced)" "raced = RacedGone \<longrightarrow> ch_work H = ChoiceGone"
    using race_returns [OF assms(1)] .
  show ?thesis
  proof (cases "raced = RacedGone")
    case True
    then show ?thesis
      using race by (simp add: run_work_def conclude_def Let_def run_ended_def given_up_def sender_gone_idle)
  next
    case False
    have laws: "closing_laws E"
      using assms(1) by (simp add: ends_always_def)
    obtain w' core' event where out: "conclude E T w1 core raced = Some (w', core', event)" "well_ended T raced (w', core', event)"
      using conclude_well [OF laws assms(2) False, of T w1] by (metis prod_cases3)
    have "muted E T Q R B H inst" if mute: "unspeakable T raced"
    proof -
      obtain fault p where "raced = RacedDone (Inl (StopFault fault))" "fault_detail T fault = Inl p"
        using mute by (auto simp: unspeakable_def is_ok_Inl)
      then show ?thesis
        unfolding muted_def using race(1) assms(3) by blast
    qed
    then show ?thesis
      using out race(1) by (cases event) (auto simp: run_work_def well_ended_def run_ended_def is_working_def)
  qed
qed

section \<open>A concrete run\<close>

definition demo_quiet_env where
  "demo_quiet_env = demo_env\<lparr>ev_inbox := None\<rparr>"

definition demo_ports :: "(unit, string, uuid, string, uuid) node_ports" where
  "demo_ports = \<lparr>np_thread = (\<lambda>f x. (x, Inr (ThreadRef 1))), np_agent = (\<lambda>f inst label x. (x, Inr 2)),
     np_prompt = (\<lambda>f label x. (x, Inr ''prompt'')), np_tools = (\<lambda>f inst x. (x, Inr [])),
     np_workspace = \<lparr>wp_load = (\<lambda>f x. (x, Inr [])), wp_save = (\<lambda>f files x. (x, Inr ()))\<rparr>,
     np_shape = None, np_plain_text = (\<lambda>t. Inr 0), np_author_new = (\<lambda>t. Inr t), np_show_sandbox = (\<lambda>e. [])\<rparr>"

definition demo_run_body where
  "demo_run_body = react_body demo_quiet_env demo_ports (FallbackList [\<lparr>mc_client = 1, mc_expectation = NotExpected\<rparr>])
     (\<lambda>f out x. (x, Inr (ro_steps out))) (AuthorFixed ''bot'')"

definition demo_choices :: "(demo_turn list, 128 word, string, demo_store, (string, 128 word) memory_inbox, uuid, uuid, unit) run_choices" where
  "demo_choices = \<lparr>ch_input = RacedDone (Some ()), ch_identify = ChoiceReady,
     ch_identify_panic = None, ch_open = ChoiceReady, ch_open_panic = None, ch_work = ChoiceReady,
     ch_panic = None, ch_cut = (\<lambda>w. w)\<rparr>"

lemma demo_ends_always: "ends_always demo_quiet_env"
  using demo_closing_laws
  by (simp add: ends_always_def closing_laws_def demo_quiet_env_def read_inbox_now_def)

section \<open>Properties\<close>

text \<open>
  C24: Every run of an agent's instance returns, whatever its body does, whatever the outside answers at
  its four races and whichever of them panics, as long as a closed turn stays closed and the reads of the
  inbox return. Its one event is sent, the input end is closed and empty, and no response or result of its
  session is left open, unless the instance was given up, or its work gave a fault whose detail cannot be
  made; then no event is sent, and the instance does not go on working.
\<close>

theorem run_returns:
  assumes "ends_always E" "is_working (node_side core)"
  shows "\<exists>out. run E T Q R B H inst s p x core = Some out \<and> run_ended (given_up H) (muted E T Q R B H inst) out"
proof (cases "next_input (ch_input H)")
  case (RacedDone snapshot)
  obtain x1 r where id: "identify Q (map sp_label (bd_seats B)) snapshot inst x = (x1, r)"
    by fastforce
  let ?race = "race (ch_identify H) (guarded (unwound (ch_identify_panic H) (map_inl StopFault r)))"
  show ?thesis
  proof (cases "\<exists>thread agents. ?race = RacedDone (Inr (thread, agents))")
    case False
    then have "run E T Q R B H inst s p x core = Some (settled_bare core (bare_end T ?race))"
      using RacedDone id by (auto simp: run_def split: raced.splits sum.splits)
    moreover have "run_ended (given_up H) (muted E T Q R B H inst) (settled_bare core (bare_end T ?race))"
    proof (rule settled_bare_ended [OF assms(2)])
      assume none: "bare_end T ?race = None"
      then show "given_up H"
        using bare_end_gone [OF none] False by (auto simp: given_up_def)
    qed
    ultimately show ?thesis by blast
  next
    case True
    then obtain thread agents where ready: "?race = RacedDone (Inr (thread, agents))"
      by blast
    show ?thesis
    proof (cases agents)
      case Nil
      then show ?thesis
        using RacedDone id ready settled_bare_ended [OF assms(2), of "Some _"] by (auto simp: run_def)
    next
      case (Cons main rest)
      obtain label agent where main: "main = (label, agent)"
        by fastforce
      obtain s1 opened where op: "worker_open E \<lparr>ic_instance = inst, ic_thread = thread, ic_agent = agent\<rparr> (rs_step_limit R)
          (rs_timeouts R) s p x1 = (s1, opened)"
        by fastforce
      let ?open = "race (ch_open H) (guarded (unwound (ch_open_panic H) (map_inl StopFault opened)))"
      have eq: "run E T Q R B H inst s p x core = (case ?open of
                   RacedDone (Inr w) \<Rightarrow> map_option (\<lambda>(w, core, event). (Some w, core, event))
                     (run_work E T Q R B H snapshot inst agents w core)
                 | other \<Rightarrow> Some (settled_bare core (bare_end T other)))"
        using RacedDone id ready Cons main op by (simp add: run_def split: raced.split sum.split)
      show ?thesis
      proof (cases "\<exists>w. ?open = RacedDone (Inr w)")
        case True
        then show ?thesis
          using eq run_work_ended [OF assms RacedDone, of T Q R B inst agents] by fastforce
      next
        case False
        then have "run E T Q R B H inst s p x core = Some (settled_bare core (bare_end T ?open))"
          using eq by (auto split: raced.splits sum.splits)
        moreover have "run_ended (given_up H) (muted E T Q R B H inst) (settled_bare core (bare_end T ?open))"
        proof (rule settled_bare_ended [OF assms(2)])
          assume none: "bare_end T ?open = None"
          then show "given_up H"
            using bare_end_gone [OF none] False by (auto simp: given_up_def)
        qed
        ultimately show ?thesis by blast
      qed
    qed
  qed
next
  case RacedGone
  then show ?thesis
    using settled_bare_ended [OF assms(2), of None "given_up H"] by (auto simp: run_def given_up_def)
next
  case RacedCancelled
  then show ?thesis
    using settled_bare_ended [OF assms(2), of "Some _"] by (auto simp: run_def)
qed

theorem run_returns_witness:
  "\<exists>out. run demo_quiet_env demo_texts demo_ports
      \<lparr>rs_step_limit = StepLimit 3, rs_timeouts = \<lparr>to_model_call = 1, to_tool_call = 1\<rparr>, rs_file_system = Always\<rparr>
      demo_run_body (demo_choices\<lparr>ch_work := ChoiceCancelled\<rparr>) 8 demo_thread demo_box 100 (core_new :: (nat, u32 event) inner) = Some out \<and>
    run_ended False False out"
proof -
  have "given_up (demo_choices\<lparr>ch_work := ChoiceCancelled\<rparr>) = False"
    by (simp add: given_up_def demo_choices_def next_input_def)
  moreover have "\<not> muted demo_quiet_env demo_texts demo_ports
      \<lparr>rs_step_limit = StepLimit 3, rs_timeouts = \<lparr>to_model_call = 1, to_tool_call = 1\<rparr>, rs_file_system = Always\<rparr>
      demo_run_body (demo_choices\<lparr>ch_work := ChoiceCancelled\<rparr>) 8"
    by (simp add: muted_def work_race_def)
  ultimately show ?thesis
    using run_returns [OF demo_ends_always, of "core_new :: (nat, u32 event) inner" demo_texts demo_ports
        "\<lparr>rs_step_limit = StepLimit 3, rs_timeouts = \<lparr>to_model_call = 1, to_tool_call = 1\<rparr>, rs_file_system = Always\<rparr>"
        demo_run_body "demo_choices\<lparr>ch_work := ChoiceCancelled\<rparr>" 8]
    by (simp add: core_new_def is_working_def del: split_paired_Ex)
qed

end
