(* ===== verification/Agentic_Letters.thy ===== *)
theory Agentic_Letters
  imports Agentic_Worker
begin

text \<open>
  Mails as the model sees them: the text of a mail (\<open>mail_entry.rs\<close>) and the tools that send mails and
  read their documents (\<open>mail_tools.rs\<close>) of \<open>br-agentic-nodes\<close>. A string is its UTF-8 bytes.
\<close>

section \<open>Quoting\<close>

abbreviation NEWLINE :: char where "NEWLINE \<equiv> CHR 0x0A"
abbreviation QUOTE :: char where "QUOTE \<equiv> CHR 0x22"
abbreviation BACKSLASH :: char where "BACKSLASH \<equiv> CHR 0x5C"

definition hex_digit :: "nat \<Rightarrow> char" where
  "hex_digit n = (if n < 10 then char_of (48 + n) else char_of (87 + n))"

text \<open>A byte in lower-case hex digits, without leading zeros.\<close>

definition hex :: "char \<Rightarrow> string" where
  "hex c = (if of_char c < (16 :: nat) then [hex_digit (of_char c)]
     else [hex_digit (of_char c div 16), hex_digit (of_char c mod 16)])"

definition escaped :: "char \<Rightarrow> string" where
  "escaped c = [BACKSLASH, CHR ''u'', CHR 0x7B] @ hex c @ [CHR 0x7D]"

definition ascii_control :: "char \<Rightarrow> bool" where
  "ascii_control c \<longleftrightarrow> of_char c < (32 :: nat) \<or> c = CHR 0x7F"

text \<open>The second byte of a control character from U+0080 to U+009F; the first is C2.\<close>

definition high_control :: "char \<Rightarrow> bool" where
  "high_control c \<longleftrightarrow> (128 :: nat) \<le> of_char c \<and> of_char c < (160 :: nat)"

fun quote_chars :: "string \<Rightarrow> string" where
  "quote_chars [] = []"
| "quote_chars (c # s) =
     (if c = QUOTE then [BACKSLASH, QUOTE] @ quote_chars s
      else if c = BACKSLASH then [BACKSLASH, BACKSLASH] @ quote_chars s
      else if c = NEWLINE then [BACKSLASH, CHR ''n''] @ quote_chars s
      else if c = CHR 0x0D then [BACKSLASH, CHR ''r''] @ quote_chars s
      else if c = CHR 0x09 then [BACKSLASH, CHR ''t''] @ quote_chars s
      else if ascii_control c then escaped c @ quote_chars s
      else if c = CHR 0xC2 \<and> s \<noteq> [] \<and> high_control (hd s) then escaped (hd s) @ quote_chars (tl s)
      else c # quote_chars s)"

definition quote :: "string \<Rightarrow> string" where
  "quote t = QUOTE # quote_chars t @ [QUOTE]"

section \<open>The text of a mail\<close>

text \<open>What the entries of \<open>br-llm-messages\<close> are built from; the block of a text takes an id of its own.\<close>

record ('a, 'b, 'e) letter_ops =
  lo_uuids :: uuid_ops
  lo_author :: "'a \<Rightarrow> string"
  lo_block :: "string \<Rightarrow> cause + 'b"
  lo_mail :: "entry_id \<Rightarrow> agent_id \<Rightarrow> 'a \<Rightarrow> conversation_id \<Rightarrow> 'b \<Rightarrow> cause + 'e"
  lo_notice :: "entry_id \<Rightarrow> string \<Rightarrow> cause + 'e"

definition letter_agent :: "('a, 'b, 'e) letter_ops \<Rightarrow> (agent_id \<times> 'a) list \<Rightarrow> agent_id \<Rightarrow> string" where
  "letter_agent L known agent = (case find (\<lambda>(k, _). k = agent) known of
     Some (_, author) \<Rightarrow> show_uuid (lo_uuids L) agent @ '' (author '' @ quote (lo_author L author) @ '')''
   | None \<Rightarrow> show_uuid (lo_uuids L) agent)"

definition letter_agents :: "('a, 'b, 'e) letter_ops \<Rightarrow> (agent_id \<times> 'a) list \<Rightarrow> agent_id list \<Rightarrow> string" where
  "letter_agents L known agents = (if agents = [] then ''none''
     else join_with '', '' (map (letter_agent L known) agents))"

definition letter_names :: "string list \<Rightarrow> string" where
  "letter_names names = (if names = [] then ''none'' else join_with '', '' (map quote names))"

text \<open>The lines of the text of a mail for a recipient.\<close>

definition letter_lines ::
  "('a, 'b, 'e) letter_ops \<Rightarrow> (agent_id \<times> 'a) list \<Rightarrow> mail_id \<Rightarrow> agent_id \<Rightarrow> 'a \<Rightarrow> agent_id list \<Rightarrow> agent_id list \<Rightarrow>
     string \<Rightarrow> string \<Rightarrow> string list \<Rightarrow> string list" where
  "letter_lines L known i sender author to cc subject body names =
     [''Mail '' @ show_uuid (lo_uuids L) (mail_entry_id i),
      ''From: '' @ show_uuid (lo_uuids L) sender @ '' (author '' @ quote (lo_author L author) @ '')'',
      ''To: '' @ letter_agents L known to,
      ''Cc: '' @ letter_agents L known cc,
      ''Subject: '' @ quote subject,
      ''Body: '' @ quote body,
      ''Attachments: '' @ letter_names names]"

definition letter_text ::
  "('a, 'b, 'e) letter_ops \<Rightarrow> (agent_id \<times> 'a) list \<Rightarrow> 'a mail_item \<Rightarrow> string" where
  "letter_text L known item = (case item of
     MailTo i sender author source to cc subject body names \<Rightarrow>
       join_with [NEWLINE] (letter_lines L known i sender author to cc subject body names)
   | MailCc i subject \<Rightarrow>
       ''You are in copy of the mail '' @ show_uuid (lo_uuids L) (mail_entry_id i) @ ''. Subject: '' @ quote subject)"

definition build_letter ::
  "('a, 'b, 'e) letter_ops \<Rightarrow> (agent_id \<times> 'a) list \<Rightarrow> 'a mail_item \<Rightarrow> cause + 'e" where
  "build_letter L known item = (case item of
     MailTo i sender author source to cc subject body names \<Rightarrow>
       bind_sum (lo_block L (letter_text L known item)) (lo_mail L (mail_entry_id i) sender author source)
   | MailCc i subject \<Rightarrow> lo_notice L (mail_entry_id i) (letter_text L known item))"

section \<open>The mail tools\<close>

record attachment_argument =
  aa_name :: string
  aa_document :: string

record send_arguments =
  sg_to :: "string list"
  sg_cc :: "string list"
  sg_subject :: string
  sg_body :: string
  sg_attachments :: "attachment_argument list"

text \<open>What \<open>serde\<close>, \<open>br-llm-messages\<close> and the block library give.\<close>

record ('z, 'x, 'i, 'v, 'b, 'r) post_ops =
  po_blocks :: "('x, 'i, 'v, 'b, 'r) block_ops"
  po_send_arguments :: "'z \<Rightarrow> string + send_arguments"
  po_files_arguments :: "'z \<Rightarrow> string + string"
  po_agent :: "string \<Rightarrow> agent_id option"
  po_entry :: "string \<Rightarrow> entry_id option"
  po_show_entry :: "entry_id \<Rightarrow> string"
  po_uuids :: uuid_ops

type_synonym ('x, 'i, 'v) tool_answer = "string + ('x, 'i, 'v) tool_content"

definition acknowledgement :: "('z, 'x, 'i, 'v, 'b, 'r) post_ops \<Rightarrow> string \<Rightarrow> ('x, 'i, 'v) tool_answer" where
  "acknowledgement Z t = bind_sum (tool_block_text (po_blocks Z) t) (\<lambda>block. Inr \<lparr>tc_content = [block], tc_is_error = False\<rparr>)"

definition tool_error :: "('z, 'x, 'i, 'v, 'b, 'r) post_ops \<Rightarrow> string \<Rightarrow> ('x, 'i, 'v) tool_answer" where
  "tool_error Z t = error_text (po_blocks Z) t"

definition invalid :: "('z, 'x, 'i, 'v, 'b, 'r) post_ops \<Rightarrow> string \<Rightarrow> ('x, 'i, 'v) tool_answer" where
  "invalid Z reason = tool_error Z (''the arguments are invalid: '' @ reason)"

definition reason_of :: "port_error \<Rightarrow> string option" where
  "reason_of e = (case e of Refused (Reason t) \<Rightarrow> Some t | Fault _ \<Rightarrow> None)"

definition inbox_error :: "('z, 'x, 'i, 'v, 'b, 'r) post_ops \<Rightarrow> port_error \<Rightarrow> ('x, 'i, 'v) tool_answer" where
  "inbox_error Z e = (case reason_of e of
     Some reason \<Rightarrow> tool_error Z (''the inbox refused the request: '' @ reason)
   | None \<Rightarrow> tool_error Z ''the inbox could not do it now'')"

fun agent_ids :: "('z, 'x, 'i, 'v, 'b, 'r) post_ops \<Rightarrow> string list \<Rightarrow> string + agent_id list" where
  "agent_ids Z [] = Inr []"
| "agent_ids Z (t # ts) = (case po_agent Z t of
     None \<Rightarrow> Inl (t @ '' is not an agent identity'')
   | Some agent \<Rightarrow> map_inr (Cons agent) (agent_ids Z ts))"

definition both_ids :: "('z, 'x, 'i, 'v, 'b, 'r) post_ops \<Rightarrow> send_arguments \<Rightarrow> string + agent_id list \<times> agent_id list" where
  "both_ids Z args = bind_sum (agent_ids Z (sg_to args)) (\<lambda>to. map_inr (Pair to) (agent_ids Z (sg_cc args)))"

definition sent_answer :: "('z, 'x, 'i, 'v, 'b, 'r) post_ops \<Rightarrow> mail_id \<Rightarrow> port_error + unit \<Rightarrow> ('x, 'i, 'v) tool_answer" where
  "sent_answer Z i r = (case r of
     Inr _ \<Rightarrow> acknowledgement Z (''the mail '' @ show_uuid (po_uuids Z) (mail_entry_id i) @ '' was sent'')
   | Inl e \<Rightarrow> (case reason_of e of
       Some reason \<Rightarrow> tool_error Z (''the mail was refused: '' @ reason)
     | None \<Rightarrow> tool_error Z ''the mail could not be sent now''))"

text \<open>\<open>SendMail::call\<close>: \<open>fresh\<close> is the new entry id, or why there is none.\<close>

definition send_mail ::
  "('z, 'x, 'i, 'v, 'b, 'r) post_ops \<Rightarrow> ('p, 'a, 'e) inbox_port \<Rightarrow> inbox_context \<Rightarrow> 'a \<Rightarrow> conversation_id \<Rightarrow>
     string + entry_id \<Rightarrow> 'z \<Rightarrow> 'p \<Rightarrow> 'p \<times> ('x, 'i, 'v) tool_answer" where
  "send_mail Z P context author source fresh arguments p = (case po_send_arguments Z arguments of
     Inl failure \<Rightarrow> (p, invalid Z failure)
   | Inr args \<Rightarrow> (case both_ids Z args of
       Inl reason \<Rightarrow> (p, invalid Z reason)
     | Inr (to, cc) \<Rightarrow> (case fresh of
         Inl e \<Rightarrow> (p, Inl e)
       | Inr i \<Rightarrow> (case ip_send P context \<lparr>nm_id = MailId i, nm_author = author, nm_source = source, nm_to = to, nm_cc = cc,
             nm_subject = sg_subject args, nm_body = sg_body args,
             nm_attachments = map (\<lambda>a. \<lparr>at_name = aa_name a, at_document = DocumentRef (aa_document a)\<rparr>) (sg_attachments args)\<rparr> p of
           (p, r) \<Rightarrow> (p, sent_answer Z (MailId i) r)))))"

text \<open>A document: its text, or how many bytes it has.\<close>

definition document_text :: "mail_document \<Rightarrow> string" where
  "document_text d = (case from_utf8 (map (\<lambda>b. char_of (unat b)) (md_content d)) of
     Inr content \<Rightarrow> quote (md_name d) @ '':'' @ [NEWLINE] @ content
   | Inl _ \<Rightarrow> quote (md_name d) @ '': a document of '' @ show_nat (length (md_content d)) @ '' bytes that is not text'')"

fun document_blocks :: "('z, 'x, 'i, 'v, 'b, 'r) post_ops \<Rightarrow> mail_document list \<Rightarrow> string + ('x, 'i, 'v) tool_block list" where
  "document_blocks Z [] = Inr []"
| "document_blocks Z (d # ds) = bind_sum (tool_block_text (po_blocks Z) (document_text d)) (\<lambda>block.
     map_inr (Cons block) (document_blocks Z ds))"

text \<open>\<open>GetMailFiles::call\<close>: only for a mail that the gate of the worker holds.\<close>

definition get_mail_files ::
  "('z, 'x, 'i, 'v, 'b, 'r) post_ops \<Rightarrow> ('p, 'a, 'e) inbox_port \<Rightarrow> inbox_context \<Rightarrow> entry_id list \<Rightarrow> 'z \<Rightarrow> 'p \<Rightarrow>
     'p \<times> ('x, 'i, 'v) tool_answer" where
  "get_mail_files Z P context gate arguments p = (case po_files_arguments Z arguments of
     Inl failure \<Rightarrow> (p, invalid Z failure)
   | Inr mail \<Rightarrow> (case po_entry Z mail of
       None \<Rightarrow> (p, invalid Z (mail @ '' is not a mail identity''))
     | Some entry \<Rightarrow>
         if entry \<notin> set gate then (p, tool_error Z (''the mail '' @ po_show_entry Z entry @
           '' is not in your conversation: you cannot get its files''))
         else (case ip_documents P context (MailId entry) p of
           (p, Inl failure) \<Rightarrow> (p, inbox_error Z failure)
         | (p, Inr documents) \<Rightarrow> (p, map_inr (\<lambda>blocks. \<lparr>tc_content = blocks, tc_is_error = False\<rparr>) (document_blocks Z documents)))))"

lemma tool_error_flag: "tool_error Z t = Inr content \<Longrightarrow> tc_is_error content"
  by (auto simp: tool_error_def error_text_def bind_sum_def split: sum.splits)

text \<open>Documents are given only of a mail that the gate holds, and as the inbox gives them.\<close>

lemma files_of_held_mail:
  assumes "get_mail_files Z P context gate arguments p = (p', Inr content)" "\<not> tc_is_error content"
  shows "\<exists>entry \<in> set gate. \<exists>documents. ip_documents P context (MailId entry) p = (p', Inr documents) \<and>
    document_blocks Z documents = Inr (tc_content content)"
  using assms tool_error_flag
  by (fastforce simp: get_mail_files_def invalid_def inbox_error_def split: sum.splits option.splits if_splits prod.splits)

text \<open>A mail is sent only for texts that are all agent identities, and with what the arguments say.\<close>

lemma sent_as_asked:
  assumes "send_mail Z P context author source fresh arguments p = (p', Inr content)" "\<not> tc_is_error content"
  obtains args to cc i where "po_send_arguments Z arguments = Inr args" "agent_ids Z (sg_to args) = Inr to"
    "agent_ids Z (sg_cc args) = Inr cc" "fresh = Inr i"
    "ip_send P context \<lparr>nm_id = MailId i, nm_author = author, nm_source = source, nm_to = to, nm_cc = cc,
       nm_subject = sg_subject args, nm_body = sg_body args,
       nm_attachments = map (\<lambda>a. \<lparr>at_name = aa_name a, at_document = DocumentRef (aa_document a)\<rparr>) (sg_attachments args)\<rparr> p =
       (p', Inr ())"
proof -
  obtain args where args: "po_send_arguments Z arguments = Inr args"
    using assms tool_error_flag by (auto simp: send_mail_def invalid_def split: sum.splits)
  obtain to cc where ids: "both_ids Z args = Inr (to, cc)"
    using assms args tool_error_flag by (auto simp: send_mail_def invalid_def split: sum.splits)
  obtain i where i: "fresh = Inr i"
    using assms args ids by (auto simp: send_mail_def split: sum.splits)
  let ?mail = "\<lparr>nm_id = MailId i, nm_author = author, nm_source = source, nm_to = to, nm_cc = cc,
       nm_subject = sg_subject args, nm_body = sg_body args,
       nm_attachments = map (\<lambda>a. \<lparr>at_name = aa_name a, at_document = DocumentRef (aa_document a)\<rparr>) (sg_attachments args)\<rparr>"
  obtain r where "ip_send P context ?mail p = (p', r)" "sent_answer Z (MailId i) r = Inr content"
    using assms(1) args ids i by (auto simp: send_mail_def split: prod.splits)
  moreover from this(2) have "r = Inr ()"
    using assms(2) tool_error_flag by (auto simp: sent_answer_def split: sum.splits option.splits)
  moreover have "agent_ids Z (sg_to args) = Inr to" "agent_ids Z (sg_cc args) = Inr cc"
    using ids by (auto simp: both_ids_def bind_sum_def split: sum.splits)
  ultimately show ?thesis
    using that args i by blast
qed

section \<open>Reading a quoted text\<close>

text \<open>A reader of quoted texts: the text up to the closing quote, and what follows it.\<close>

definition hex_value :: "char \<Rightarrow> nat" where
  "hex_value c = (if of_char c < (97 :: nat) then of_char c - 48 else of_char c - 87)"

definition unhex :: "string \<Rightarrow> nat" where
  "unhex s = foldl (\<lambda>n c. 16 * n + hex_value c) 0 s"

definition code_bytes :: "nat \<Rightarrow> string" where
  "code_bytes n = (if n < 128 then [char_of n] else [CHR 0xC2, char_of n])"

definition prefixed :: "string \<Rightarrow> (string \<times> string) option \<Rightarrow> (string \<times> string) option" where
  "prefixed t r = map_option (\<lambda>(u, rest). (t @ u, rest)) r"

definition plain_escape :: "char \<Rightarrow> char" where
  "plain_escape d = (if d = CHR ''n'' then NEWLINE else if d = CHR ''r'' then CHR 0x0D else if d = CHR ''t'' then CHR 0x09 else d)"

function read_chars :: "string \<Rightarrow> (string \<times> string) option" where
  "read_chars [] = None"
| "read_chars (c # s) =
     (if c = QUOTE then Some ([], s)
      else if c \<noteq> BACKSLASH then prefixed [c] (read_chars s)
      else case s of
        [] \<Rightarrow> None
      | d # s' \<Rightarrow> if d = CHR ''u''
          then prefixed (code_bytes (unhex (takeWhile (\<lambda>c. c \<noteq> CHR 0x7D) (drop 1 s'))))
            (read_chars (drop 1 (dropWhile (\<lambda>c. c \<noteq> CHR 0x7D) (drop 1 s'))))
          else prefixed [plain_escape d] (read_chars s'))"
  by pat_completeness auto
termination
proof (relation "measure length")
  fix d :: char and s s' :: string
  have "length (drop 1 (dropWhile P (drop 1 t))) \<le> length t" for P and t :: string
    using length_dropWhile_le [of P "drop 1 t"] by simp
  then have "length (drop 1 (dropWhile (\<lambda>c. c \<noteq> CHR 0x7D) (drop 1 s'))) \<le> length s'" .
  then show "s = d # s' \<Longrightarrow> (drop 1 (dropWhile (\<lambda>c. c \<noteq> CHR 0x7D) (drop 1 s')), c # s) \<in> measure length" for c :: char
    by simp
qed auto

definition read_quoted :: "string \<Rightarrow> (string \<times> string) option" where
  "read_quoted s = (case s of [] \<Rightarrow> None | c # s \<Rightarrow> if c = QUOTE then read_chars s else None)"

lemma hex_value_hex: "n < 16 \<Longrightarrow> hex_value (hex_digit n) = n"
  by (auto simp: hex_value_def hex_digit_def of_char_of)

lemma unhex_hex: "unhex (hex c) = of_char c"
proof -
  have "of_char c < (256 :: nat)"
    by simp
  then show ?thesis
    by (auto simp: unhex_def hex_def hex_value_hex less_mult_imp_div_less)
qed

lemma hex_set: "set (hex c) \<subseteq> hex_digit ` {..<16}"
proof -
  have "of_char c < (256 :: nat)"
    by simp
  then show ?thesis
    by (auto simp: hex_def less_mult_imp_div_less intro!: imageI)
qed

lemma hex_digit_plain: "n < 16 \<Longrightarrow> hex_digit n \<noteq> CHR 0x7D \<and> hex_digit n \<noteq> NEWLINE"
proof -
  assume "n < 16"
  then have "of_char (hex_digit n) = (if n < 10 then 48 + n else 87 + n)"
    by (simp add: hex_digit_def of_char_of)
  with \<open>n < 16\<close> show ?thesis
    by (auto split: if_splits)
qed

lemma hex_digits: "CHR 0x7D \<notin> set (hex c)" "NEWLINE \<notin> set (hex c)"
  using hex_set [of c] hex_digit_plain by force+

lemma read_escaped: "read_chars (escaped c @ s) = prefixed (code_bytes (of_char c)) (read_chars s)"
proof -
  have "takeWhile (\<lambda>c. c \<noteq> CHR 0x7D) (hex c @ CHR 0x7D # s) = hex c"
    "dropWhile (\<lambda>c. c \<noteq> CHR 0x7D) (hex c @ CHR 0x7D # s) = CHR 0x7D # s"
    using hex_digits(1) [of c] by (auto simp: takeWhile_append dropWhile_append)
  then show ?thesis
    by (simp add: escaped_def unhex_hex)
qed

lemma read_chars_quote: "read_chars (quote_chars t @ QUOTE # rest) = Some (t, rest)"
proof (induction t rule: quote_chars.induct)
  case 1
  show ?case by simp
next
  case (2 c s)
  have ascii: "code_bytes (of_char c) = [c]" if "ascii_control c"
    using that by (auto simp: code_bytes_def ascii_control_def)
  have high: "code_bytes (of_char d) = [CHR 0xC2, d]" if "high_control d" for d
    using that by (auto simp: code_bytes_def high_control_def)
  show ?case
    using 2 ascii high by (auto simp: read_escaped prefixed_def plain_escape_def)
qed

lemma quote_one_line: "NEWLINE \<notin> set (quote t)"
proof -
  have "NEWLINE \<notin> set (quote_chars t)"
    by (induction t rule: quote_chars.induct) (auto simp: escaped_def hex_digits)
  then show ?thesis
    by (simp add: quote_def)
qed

lemma joined_one_line:
  "\<forall>p \<in> set ps. NEWLINE \<notin> set p \<Longrightarrow> NEWLINE \<notin> set (join_with '', '' ps)"
  using set_join_with [of "'', ''" ps] by auto

definition plain_ids :: "('a, 'b, 'e) letter_ops \<Rightarrow> bool" where
  "plain_ids L \<longleftrightarrow> (\<forall>u. NEWLINE \<notin> set (show_uuid (lo_uuids L) u))"

lemma agent_one_line: "plain_ids L \<Longrightarrow> NEWLINE \<notin> set (letter_agent L known agent)"
  by (auto simp: letter_agent_def plain_ids_def quote_one_line split: option.split)

lemma agents_one_line: "plain_ids L \<Longrightarrow> NEWLINE \<notin> set (letter_agents L known agents)"
  unfolding letter_agents_def by (auto simp: joined_one_line agent_one_line)

lemma names_one_line: "NEWLINE \<notin> set (letter_names names)"
  unfolding letter_names_def by (auto simp: joined_one_line quote_one_line)

section \<open>Properties\<close>

text \<open>
  C31: A quoted text is read back as it was, whatever it holds and whatever follows its closing quote, so
  two texts are quoted alike only when they are the same.
\<close>

theorem quoted_reads_back: "read_quoted (quote t @ rest) = Some (t, rest)"
  by (simp add: read_quoted_def quote_def read_chars_quote)

text \<open>
  C32: The text of a mail has one line for each of its seven parts, in order, whatever its author, subject,
  body, attachment names and the names of its agents hold: none of them can write a line of its own.
\<close>

theorem letter_parts:
  assumes "\<forall>u. CHR 0x0A \<notin> set (show_uuid (lo_uuids L) u)"
  shows "split_on (CHR 0x0A) (letter_text L known (MailTo i sender author source to cc subject body names)) =
    letter_lines L known i sender author to cc subject body names"
proof -
  have plain: "plain_ids L"
    using assms by (simp add: plain_ids_def)
  have "\<forall>line \<in> set (letter_lines L known i sender author to cc subject body names). NEWLINE \<notin> set line"
    using assms quote_one_line names_one_line agents_one_line [OF plain] by (simp add: letter_lines_def)
  moreover have "letter_lines L known i sender author to cc subject body names \<noteq> []"
    by (simp add: letter_lines_def)
  ultimately show ?thesis
    unfolding letter_text_def mail_item.case by (intro split_on_join)
qed

definition demo_letters :: "(string, string, string) letter_ops" where
  "demo_letters = \<lparr>lo_uuids = \<lparr>version_num = (\<lambda>_. 7), is_rfc4122 = (\<lambda>_. True), show_uuid = (\<lambda>u. show_nat (unat u))\<rparr>,
     lo_author = (\<lambda>a. a), lo_block = Inr, lo_mail = (\<lambda>i sender author source t. Inr t), lo_notice = (\<lambda>i t. Inr t)\<rparr>"

theorem letter_parts_witness:
  "split_on (CHR 0x0A) (letter_text demo_letters [] (MailTo (MailId 1) 2 ''a'' 3 [4] [] (''s'' @ [CHR 0x0A] @ ''Body: x'') [] [])) =
    letter_lines demo_letters [] (MailId 1) 2 ''a'' [4] [] (''s'' @ [CHR 0x0A] @ ''Body: x'') [] []"
proof -
  have "CHR 0x0A \<notin> set (show_nat n)" for n
    using show_nat_digits [of n] by (auto simp: list_all_iff is_digit_def byte_in_def dest!: bspec [of _ _ NEWLINE])
  then show ?thesis
    by (intro letter_parts) (simp add: demo_letters_def)
qed

end
