(* ===== verification/Spec2Isabelle.thy ===== *)
theory Spec2Isabelle
  imports Graph_Wire Instance_Channel Cancel_Tokens Exec_Loop Flow_Merger Flow_MapReduce Agentic_Boundary Agentic_Run Agentic_Letters
begin

text \<open>
  A verification library of the graph and agent crates of this repository (\<open>src/crates\<close>).

  The program. A graph is a set of named nodes and of edges that choose the next nodes from the state
  (\<open>br-graph-contract\<close>). Each node, when its turn comes, creates an instance: a pair of ends of a
  channel, one in the hands of the executor, the other in the hands of the node's own task, with a view
  of a cancellation token. The executor (\<open>br-graph-executor\<close>) starts the instances, hands inputs over,
  applies the updates the instances end with, writes checkpoints, and stops within a deadline. Two nodes
  are pure control (\<open>br-flow-nodes\<close>: the merger and the map-reduce); the agents
  (\<open>br-agentic-contract\<close>, \<open>br-agentic-nodes\<close>) read mails, talk to a model, call tools, and write a
  thread that outlives them.

  The theories, in the order of the code.

  \<^item> \<open>Prelude\<close> has the results, the loops with an early return and the facts on lists and sums that all
    theories share; \<open>Acts\<close> the actions that pass a state along and may fail, with rules (\<open>moves_rules\<close>)
    that carry a relation between the states before and after along a sequence of actions.
  \<^item> \<open>Targets\<close> (\<open>target.rs\<close>, \<open>reason.rs\<close>, \<open>graph/names.rs\<close>), \<open>State_Value\<close> (\<open>state/\<close>: \<open>State\<close> is a record,
    \<open>create\<close>, \<open>apply_update\<close>, \<open>rebuild\<close> its operations), \<open>Graph_Check\<close>, \<open>Graph_Reach\<close>, \<open>Graph_Value\<close>
    (\<open>graph/\<close>: the checks of a structure, the flood of its reachability, the builder and
    \<open>evaluate_edge\<close>) and \<open>Graph_Wire\<close> (\<open>graph/wire.rs\<close>). Their lemmas show what is accepted and with which
    error the rest is refused, in the order of the checks; that every state met its checks and its
    limit; and that what is stored is read back.
  \<^item> \<open>Wakers\<close> (\<open>waiters.rs\<close>), \<open>Instance_Core\<close> and \<open>Instance_Channel\<close> (\<open>instance/\<close>), \<open>Cancel_Tree\<close> and
    \<open>Cancel_Tokens\<close> (\<open>cancel/\<close>). The mutex makes each method of an end one step; \<open>chan_reach\<close> and
    \<open>cancel_reach\<close> are the systems those steps reach in any interleaving, and the invariants are
    proved by rule induction over them: inputs in order, an event in one place, no lost wakeup.
    Tokens live in an explicit heap, since their sharing is what the code is about.
  \<^item> \<open>Exec_Checkpoint\<close>, \<open>Exec_Run\<close>, \<open>Exec_Facts\<close>, \<open>Exec_Work\<close>, \<open>Exec_Loop\<close> (\<open>br-graph-executor/src\<close>): the
    stored form of a checkpoint and the checks of a resume; the slots, the messages and the handlers of
    a run; what a step may change; the work no step loses; whole runs. The outside (timers, the tasks
    of the instances, the observer, the store) is the sequence of the messages of the run.
  \<^item> \<open>Flow_Signals\<close>, \<open>Flow_Merger\<close>, \<open>Flow_MapReduce\<close> (\<open>br-flow-nodes/src\<close>): a node's task awaits, and the
    outside acts between two of its steps; the work of a map-reduce is a state machine over its awaits.
    What a merger decides is stated by its policy; each outcome a map-reduce reduces is the one its own
    instance gave, in the order of the elements whatever the order of the ends, and its faults are those
    the fault mode says, with one more: an element whose failure cannot be written, which ends the task.
  \<^item> \<open>Agentic_Mail\<close>, \<open>Agentic_Inbox\<close>, \<open>Agentic_Session\<close>, \<open>Agentic_Thread\<close>, \<open>Agentic_Boundary\<close>
    (\<open>br-agentic-contract/src\<close>): mails and the queue of unread items, the inbox and the thread access in
    memory, the session over a thread access, and the boundary at which the queue goes to the thread.
    The session agrees with the store, a boundary accounts for every item, marks only what the thread
    holds, and loses nothing.
  \<^item> \<open>Agentic_Workspace\<close> (\<open>workspace.rs\<close>, \<open>sandbox.rs\<close>), \<open>Agentic_Limits\<close> (\<open>limits.rs\<close>, \<open>client.rs\<close>,
    \<open>slot.rs\<close>, \<open>warning.rs\<close>, \<open>fault.rs\<close>), \<open>Agentic_Faults\<close> (\<open>fault.rs\<close>: the texts of a fault, of which an
    error of the host may panic when it is shown), \<open>Agentic_Tools\<close> (\<open>tool.rs\<close>, \<open>web.rs\<close>).
  \<^item> \<open>Agentic_Worker\<close>, \<open>Agentic_Step\<close>, \<open>Agentic_Pass\<close>, \<open>Agentic_React\<close> (\<open>br-agentic-nodes/src\<close>): the worker
    is a record, each of its methods an action; a step calls a model through a slot of clients, a tool
    round opens, runs and completes the results, a pass repeats steps until an answer or the step
    limit, an agent repeats passes while mail comes in; then the start of an agent and its ends.
    \<open>Agentic_Critic\<close> and \<open>Agentic_Judge\<close> (\<open>generator_critic/\<close>) are the agent whose generations a critic
    judges; \<open>Agentic_Run\<close> is the run of an instance for either body, and \<open>Agentic_Letters\<close> the text of a mail
    and the mail tools (\<open>mail_entry.rs\<close>, \<open>mail_tools.rs\<close>). Their lemmas
    show that the work ends within its limits, that a tool round answers each call of the response once
    and leaves no result open, that the judgement of a generation is what the critic answered about it,
    that the turns of an earlier instance are closed, that every instance which is not given up ends with
    one event, and that no part of a mail can pass for another. The event has one exception, a divergence
    from the README: \<open>conclude\<close> writes the detail of a fault outside every guard, and when an error of the
    host panics there the task ends with no event and its open AI turn stays open. \<open>Agentic_Demo\<close> is a concrete agent for the witnesses.

  Interfaces. A locale states what a client relies on, and the model of the provider interprets it:
  \<open>waiter_registry\<close> (by \<open>Wakers\<close>) and \<open>input_gate\<close> (by \<open>Instance_Core\<close>) for the channel and the tokens;
  \<open>slot_mark\<close> and its extension \<open>lasting_mark\<close> for the work a run owes (\<open>Exec_Work\<close>); \<open>lasting\<close> for what the
  outside cannot take back (\<open>Flow_Signals\<close>); \<open>paged_inbox\<close>, \<open>paged_items\<close> and \<open>marked_inbox\<close> for the
  inbox the queue reads (by \<open>Agentic_Inbox\<close>); \<open>thread_store\<close> for the thread access of a session (by
  \<open>Agentic_Thread\<close>); \<open>stored_files\<close> for the workspace port (by the workspace in memory); \<open>quiet_frame\<close> and
  its extension \<open>worker_frame\<close> for a relation that every operation of a worker respects (\<open>Agentic_Pass\<close>;
  interpreted for the count of the steps, and in \<open>Agentic_Judge\<close> for the counters of the critic).

  Loops. The loops of a pass, of both agents, of a slot, of the run, of the flood and of the tokens are
  total functions, with a measure: the steps that remain, the clients that remain, the messages, the
  instances, the unmarked nodes, the references. Two loops are not total in the code, since a port may
  answer for ever: the pages of an inbox and the closing of the open turns. They are partial functions
  into an option; that they return is proved for an inbox that keeps \<open>paged_items\<close>, and for a library of
  conversations that keeps \<open>closing_laws\<close>. No definition uses fuel.

  Parameters. \<open>br-llm-messages\<close> and the clients of \<open>br-llm-clients-core\<close> are other repositories: the
  records \<open>messages\<close>, \<open>entry_ops\<close>, \<open>block_ops\<close>, \<open>node_env\<close> and \<open>critic_env\<close> hold what the code calls of them;
  the laws a property needs are its hypotheses (\<open>rules_keep\<close>, \<open>entry_laws\<close>, \<open>closing_laws\<close>, \<open>results_law\<close>),
  and a concrete library keeps each. The user's state type is the record \<open>fields_ops\<close>. The ports of a
  node are functions on a state of the outside.

  Not modelled, and why.

  \<^item> A future that is dropped in the middle of its work: where a property speaks of a cancelled work, the
    worker is any worker. The panics that \<open>guarded\<close> catches, of the identification, of the opening of the
    worker and of the work, are choices of the outside (\<open>run_choices\<close>), and so is the worker they leave.
    A panic of a port in the last steps of \<open>conclude\<close>, but for that of a text, and a poisoned lock are not.
  \<^item> The schemas of the mail tools (\<open>mail_tools.rs\<close>), which only build values of \<open>br-llm-clients-core\<close>. A worker
    takes the text of a mail and its mail tools as the parameters \<open>ev_mail_entry\<close> and \<open>ev_mail_tools\<close>;
    \<open>Agentic_Letters\<close> is what the code puts there.
  \<^item> \<open>br-llm-graph\<close>, a second library of graphs and agents with its own state; none of the crates above uses it.
  \<^item> Tests, test kits and examples; \<open>node.rs\<close>, \<open>ports.rs\<close>, \<open>future.rs\<close> and \<open>stream.rs\<close>, which declare traits.
\<close>

end
